(* ===== verification/Prelude.thy ===== *)
theory Prelude
  imports Main "HOL-Library.Monad_Syntax" "HOL-Library.Word"
begin

section \<open>Prelude\<close>

text \<open>
  The conventions every component shares.

  \<^item> A Rust panic (a failed \<open>assert!\<close>, an \<open>expect\<close> on \<open>None\<close>, an index out of bounds)
    is \<open>None\<close> of the option monad; the release profile of the workspace sets
    \<open>panic = 'abort'\<close>, so a panic stops the validator process. A function that may panic
    has an option type, and "it does not panic" is a theorem \<open>\<exists>r. f x = Some r\<close>.
    An expected error is \<open>Inl\<close> of a sum below the option.
  \<^item> Unsigned machine integers are \<open>nat\<close>. The release profile does not set
    \<open>overflow-checks\<close>, so additions wrap; where a wrap can be reached the wrap is written
    out (\<open>wrap_u64\<close>, \<open>wrap_u8\<close>). \<open>saturating_sub\<close> is subtraction on \<open>nat\<close>. Round and
    commit numbers (\<open>u32\<close>) count events of one epoch and are plain \<open>nat\<close>, except in
    \<open>CommitRange\<close>, whose code saturates at \<open>u32::MAX\<close>.
  \<^item> A 32-byte digest is a \<open>256 word\<close>: the order of \<open>[u8; 32]\<close> is the numeric one,
    \<open>MIN\<close> is \<open>0\<close> and \<open>MAX\<close> is \<open>-1\<close>.
\<close>

named_theorems panic_simps \<open>evaluation of the panic monad\<close>
named_theorems btree_simps \<open>facts about ordered maps and sets\<close>
named_theorems dag_simps \<open>facts about reads of the DAG state\<close>

type_synonym digest = "256 word"
type_synonym round = nat
type_synonym authority_index = nat
type_synonym stake = nat
type_synonym timestamp_ms = nat

subsection \<open>Machine integers\<close>

definition wrap_u8 :: "nat \<Rightarrow> nat" where
  "wrap_u8 n = n mod 256"

definition wrap_u64 :: "nat \<Rightarrow> nat" where
  "wrap_u64 n = n mod 18446744073709551616"

definition u32_max :: nat where
  "u32_max = 4294967295"

definition sat_add_u32 :: "nat \<Rightarrow> nat \<Rightarrow> nat" where
  "sat_add_u32 a b = min (a + b) u32_max"

lemma wrap_u64_id [simp]: "n < 18446744073709551616 \<Longrightarrow> wrap_u64 n = n"
  by (simp add: wrap_u64_def)

lemma wrap_u64_bound: "wrap_u64 n < 18446744073709551616"
  by (simp add: wrap_u64_def)

lemma wrap_u8_id [simp]: "n < 256 \<Longrightarrow> wrap_u8 n = n"
  by (simp add: wrap_u8_def)

lemma sat_add_u32_id: "a + b \<le> u32_max \<Longrightarrow> sat_add_u32 a b = a + b"
  by (simp add: sat_add_u32_def)

subsection \<open>The panic monad\<close>

definition assert_that :: "bool \<Rightarrow> unit option" where
  "assert_that b = (if b then Some () else None)"

definition vec_get :: "'a list \<Rightarrow> nat \<Rightarrow> 'a option" where
  "vec_get xs i = (if i < length xs then Some (xs ! i) else None)"

definition vec_set :: "'a list \<Rightarrow> nat \<Rightarrow> 'a \<Rightarrow> 'a list option" where
  "vec_set xs i v = (if i < length xs then Some (xs[i := v]) else None)"

primrec mapM :: "('a \<Rightarrow> 'b option) \<Rightarrow> 'a list \<Rightarrow> 'b list option" where
  "mapM f [] = Some []"
| "mapM f (x # xs) = do { y \<leftarrow> f x; ys \<leftarrow> mapM f xs; Some (y # ys) }"

primrec filterM :: "('a \<Rightarrow> bool option) \<Rightarrow> 'a list \<Rightarrow> 'a list option" where
  "filterM f [] = Some []"
| "filterM f (x # xs) =
     do { b \<leftarrow> f x; ys \<leftarrow> filterM f xs; Some (if b then x # ys else ys) }"

primrec foldM :: "('s \<Rightarrow> 'a \<Rightarrow> 's option) \<Rightarrow> 's \<Rightarrow> 'a list \<Rightarrow> 's option" where
  "foldM f s [] = Some s"
| "foldM f s (x # xs) = do { s' \<leftarrow> f s x; foldM f s' xs }"

lemma assert_that_simps [simp, panic_simps]:
  "assert_that True = Some ()" "assert_that False = None"
  by (simp_all add: assert_that_def)

lemma assert_that_eq_Some [simp, panic_simps]: "assert_that b = Some u \<longleftrightarrow> b"
  by (simp add: assert_that_def)

lemma bind_assert_that [simp, panic_simps]:
  "(assert_that b \<bind> f) = (if b then f () else None)"
  by (simp add: assert_that_def)

lemma vec_get_Some [simp]: "i < length xs \<Longrightarrow> vec_get xs i = Some (xs ! i)"
  by (simp add: vec_get_def)

lemma vec_get_eq_Some_iff: "vec_get xs i = Some x \<longleftrightarrow> i < length xs \<and> xs ! i = x"
  by (auto simp: vec_get_def)

lemma vec_get_eq_None_iff [simp]: "vec_get xs i = None \<longleftrightarrow> length xs \<le> i"
  by (auto simp: vec_get_def)

lemma vec_set_eq_Some_iff: "vec_set xs i v = Some ys \<longleftrightarrow> i < length xs \<and> ys = xs[i := v]"
  by (auto simp: vec_set_def)

lemma vec_set_Some [simp]: "i < length xs \<Longrightarrow> vec_set xs i v = Some (xs[i := v])"
  by (simp add: vec_set_def)

lemma mapM_eq_Some_iff:
  "mapM f xs = Some ys \<longleftrightarrow> list_all2 (\<lambda>x y. f x = Some y) xs ys"
  by (induction xs arbitrary: ys)
    (auto simp: Option.bind_eq_Some_conv list_all2_Cons1)

lemma mapM_SomeI: "(\<And>x. x \<in> set xs \<Longrightarrow> f x = Some (g x)) \<Longrightarrow> mapM f xs = Some (map g xs)"
  by (induction xs) auto

lemma mapM_set: "mapM f xs = Some ys \<Longrightarrow> set ys = {y. \<exists>x \<in> set xs. f x = Some y}"
  by (induction xs arbitrary: ys) (auto simp: Option.bind_eq_Some_conv)

lemma mapM_append:
  "mapM f (xs @ ys) = do { us \<leftarrow> mapM f xs; vs \<leftarrow> mapM f ys; Some (us @ vs) }"
proof (induction xs)
  case (Cons x xs)
  then show ?case by (cases "f x"; cases "mapM f xs"; cases "mapM f ys") simp_all
qed (cases "mapM f ys"; simp)

lemma mapM_total:
  assumes "\<And>x. x \<in> set xs \<Longrightarrow> f x \<noteq> None"
  shows "\<exists>ys. mapM f xs = Some ys"
proof -
  have "mapM f xs = Some (map (\<lambda>x. the (f x)) xs)"
    using assms by (intro mapM_SomeI) auto
  then show ?thesis by blast
qed

lemma filterM_SomeI:
  "(\<And>x. x \<in> set xs \<Longrightarrow> f x = Some (P x)) \<Longrightarrow> filterM f xs = Some (filter P xs)"
  by (induction xs) auto

lemma filterM_SomeD:
  "filterM f xs = Some ys \<Longrightarrow>
     ys = filter (\<lambda>x. f x = Some True) xs \<and> (\<forall>x \<in> set xs. f x \<noteq> None)"
  by (induction xs arbitrary: ys) (auto simp: Option.bind_eq_Some_conv)

lemma foldM_append: "foldM f s (xs @ ys) = foldM f s xs \<bind> (\<lambda>s'. foldM f s' ys)"
proof (induction xs arbitrary: s)
  case (Cons x xs)
  then show ?case by (cases "f s x") simp_all
qed simp

lemma foldM_snoc_Some:
  "foldM f s (xs @ [x]) = Some t \<longleftrightarrow> (\<exists>u. foldM f s xs = Some u \<and> f u x = Some t)"
  by (auto simp: foldM_append Option.bind_eq_Some_conv)

text \<open>A loop whose body keeps an invariant and never panics under it runs to its end.\<close>

lemma foldM_total_invariant:
  assumes "I s" and "\<And>s x. I s \<Longrightarrow> x \<in> set xs \<Longrightarrow> \<exists>t. f s x = Some t \<and> I t"
  shows "\<exists>t. foldM f s xs = Some t \<and> I t"
  using assms
proof (induction xs arbitrary: s)
  case (Cons x xs)
  then obtain u where u: "f s x = Some u" "I u" by (meson list.set_intros(1))
  have "\<exists>t. foldM f u xs = Some t \<and> I t"
    using u(2) by (rule Cons.IH) (rule Cons.prems(2), auto)
  with u(1) show ?case by simp
qed simp

lemma foldM_invariant:
  assumes "foldM f s xs = Some t" and "I s"
    and "\<And>s x u. I s \<Longrightarrow> x \<in> set xs \<Longrightarrow> f s x = Some u \<Longrightarrow> I u"
  shows "I t"
  using assms
proof (induction xs arbitrary: s)
  case (Cons x xs)
  from Cons.prems(1) obtain u where u: "f s x = Some u" "foldM f u xs = Some t"
    by (auto simp: Option.bind_eq_Some_conv)
  from Cons.prems(3) [OF Cons.prems(2) _ u(1)] have "I u" by simp
  with u(2) show ?case by (rule Cons.IH) (rule Cons.prems(3), auto)
qed simp

subsection \<open>Lists\<close>

lemma filter_eq_single:
  assumes "distinct xs" and "x \<in> set xs" and "\<And>y. y \<in> set xs \<Longrightarrow> P y \<longleftrightarrow> y = x"
  shows "filter P xs = [x]"
  using assms by (induction xs) (auto simp: filter_empty_conv)

lemma sum_list_filter_le:
  "sum_list (map f (filter P xs)) \<le> sum_list (map (f :: 'a \<Rightarrow> nat) xs)"
  by (induction xs) auto

lemma find_append: "List.find P (xs @ ys) = (case List.find P xs of None \<Rightarrow> List.find P ys | r \<Rightarrow> r)"
  by (induction xs) auto

end
