(* ===== verification/BTree.thy ===== *)
theory BTree
  imports Prelude
begin

section \<open>Ordered maps and sets\<close>

text \<open>
  The standard library's \<open>BTreeMap\<close> and \<open>BTreeSet\<close> as the code uses them: a map is the list
  of its entries in key order, a set the list of its elements in order, without
  duplicates. Iteration is the list itself, \<open>range\<close> keeps the entries between two bounds,
  \<open>split_off k\<close> keeps the entries at or above \<open>k\<close>. The two locales are the interfaces
  the components rely on; both are interpreted on the lists.
\<close>

type_synonym ('k, 'v) btreemap = "('k \<times> 'v) list"
type_synonym 'k btreeset = "'k list"

abbreviation sorted_strict :: "'k::linorder list \<Rightarrow> bool" where
  "sorted_strict \<equiv> sorted_wrt (<)"

definition bm_invar :: "('k::linorder, 'v) btreemap \<Rightarrow> bool" where
  "bm_invar m = sorted_strict (map fst m)"

definition bm_get :: "('k, 'v) btreemap \<Rightarrow> 'k \<Rightarrow> 'v option" where
  "bm_get m k = map_of m k"

definition bm_contains_key :: "('k, 'v) btreemap \<Rightarrow> 'k \<Rightarrow> bool" where
  "bm_contains_key m k = (bm_get m k \<noteq> None)"

fun bm_insert :: "'k::linorder \<Rightarrow> 'v \<Rightarrow> ('k, 'v) btreemap \<Rightarrow> ('k, 'v) btreemap" where
  "bm_insert k v [] = [(k, v)]"
| "bm_insert k v ((k', v') # m) =
     (if k < k' then (k, v) # (k', v') # m
      else if k = k' then (k, v) # m
      else (k', v') # bm_insert k v m)"

definition bm_remove :: "'k \<Rightarrow> ('k, 'v) btreemap \<Rightarrow> ('k, 'v) btreemap" where
  "bm_remove k m = filter (\<lambda>e. fst e \<noteq> k) m"

definition bm_split_off :: "'k::linorder \<Rightarrow> ('k, 'v) btreemap \<Rightarrow> ('k, 'v) btreemap" where
  "bm_split_off k m = filter (\<lambda>e. k \<le> fst e) m"

definition bm_range_incl :: "'k::linorder \<Rightarrow> 'k \<Rightarrow> ('k, 'v) btreemap \<Rightarrow> ('k, 'v) btreemap" where
  "bm_range_incl lo hi m = filter (\<lambda>e. lo \<le> fst e \<and> fst e \<le> hi) m"

definition bm_range_excl :: "'k::linorder \<Rightarrow> 'k \<Rightarrow> ('k, 'v) btreemap \<Rightarrow> ('k, 'v) btreemap" where
  "bm_range_excl lo hi m = filter (\<lambda>e. lo \<le> fst e \<and> fst e < hi) m"

definition bs_invar :: "'k::linorder btreeset \<Rightarrow> bool" where
  "bs_invar s = sorted_strict s"

fun bs_insert :: "'k::linorder \<Rightarrow> 'k btreeset \<Rightarrow> 'k btreeset" where
  "bs_insert k [] = [k]"
| "bs_insert k (k' # s) =
     (if k < k' then k # k' # s else if k = k' then k' # s else k' # bs_insert k s)"

definition bs_remove :: "'k \<Rightarrow> 'k btreeset \<Rightarrow> 'k btreeset" where
  "bs_remove k s = filter (\<lambda>x. x \<noteq> k) s"

definition bs_split_off :: "'k::linorder \<Rightarrow> 'k btreeset \<Rightarrow> 'k btreeset" where
  "bs_split_off k s = filter (\<lambda>x. k \<le> x) s"

definition bs_range_incl :: "'k::linorder \<Rightarrow> 'k \<Rightarrow> 'k btreeset \<Rightarrow> 'k btreeset" where
  "bs_range_incl lo hi s = filter (\<lambda>x. lo \<le> x \<and> x \<le> hi) s"

definition bs_range_excl :: "'k::linorder \<Rightarrow> 'k \<Rightarrow> 'k btreeset \<Rightarrow> 'k btreeset" where
  "bs_range_excl lo hi s = filter (\<lambda>x. lo \<le> x \<and> x < hi) s"

definition bs_extend :: "'k::linorder btreeset \<Rightarrow> 'k list \<Rightarrow> 'k btreeset" where
  "bs_extend s ks = fold bs_insert ks s"

definition bs_from_list :: "'k::linorder list \<Rightarrow> 'k btreeset" where
  "bs_from_list ks = bs_extend [] ks"

definition bs_last :: "'k btreeset \<Rightarrow> 'k option" where
  "bs_last s = (if s = [] then None else Some (last s))"

subsection \<open>Sets\<close>

lemma set_bs_insert [simp, btree_simps]: "set (bs_insert k s) = insert k (set s)"
  by (induction s) auto

lemma bs_invar_Nil [simp, btree_simps]: "bs_invar []"
  by (simp add: bs_invar_def)

lemma bs_invar_insert [simp, btree_simps]: "bs_invar s \<Longrightarrow> bs_invar (bs_insert k s)"
  by (induction s) (auto simp: bs_invar_def)

lemma bs_invar_filter: "bs_invar s \<Longrightarrow> bs_invar (filter P s)"
  by (simp add: bs_invar_def sorted_wrt_filter)

lemma bs_invar_remove [simp, btree_simps]: "bs_invar s \<Longrightarrow> bs_invar (bs_remove k s)"
  by (simp add: bs_remove_def bs_invar_filter)

lemma bs_invar_split_off [simp, btree_simps]: "bs_invar s \<Longrightarrow> bs_invar (bs_split_off k s)"
  by (simp add: bs_split_off_def bs_invar_filter)

lemma set_bs_remove [simp, btree_simps]: "set (bs_remove k s) = set s - {k}"
  by (auto simp: bs_remove_def)

lemma set_bs_split_off [simp, btree_simps]: "set (bs_split_off k s) = {x \<in> set s. k \<le> x}"
  by (auto simp: bs_split_off_def)

lemma set_bs_range [simp, btree_simps]:
  "set (bs_range_incl lo hi s) = {x \<in> set s. lo \<le> x \<and> x \<le> hi}"
  "set (bs_range_excl lo hi s) = {x \<in> set s. lo \<le> x \<and> x < hi}"
  by (auto simp: bs_range_incl_def bs_range_excl_def)

lemma bs_invar_range [simp, btree_simps]:
  "bs_invar s \<Longrightarrow> bs_invar (bs_range_incl lo hi s)"
  "bs_invar s \<Longrightarrow> bs_invar (bs_range_excl lo hi s)"
  by (simp_all add: bs_range_incl_def bs_range_excl_def bs_invar_filter)

lemma set_bs_extend [simp, btree_simps]: "set (bs_extend s ks) = set s \<union> set ks"
  unfolding bs_extend_def by (induction ks arbitrary: s) auto

lemma bs_invar_extend [simp, btree_simps]: "bs_invar s \<Longrightarrow> bs_invar (bs_extend s ks)"
  unfolding bs_extend_def by (induction ks arbitrary: s) auto

lemma set_bs_from_list [simp, btree_simps]: "set (bs_from_list ks) = set ks"
  by (simp add: bs_from_list_def)

lemma bs_invar_from_list [simp, btree_simps]: "bs_invar (bs_from_list ks)"
  by (simp add: bs_from_list_def)

lemma bs_invar_distinct: "bs_invar s \<Longrightarrow> distinct s"
  by (simp add: bs_invar_def strict_sorted_iff)

lemma bs_insert_member: "bs_invar s \<Longrightarrow> k \<in> set s \<Longrightarrow> bs_insert k s = s"
  by (induction s) (auto simp: bs_invar_def)

lemma bs_equalityI: "bs_invar s \<Longrightarrow> bs_invar t \<Longrightarrow> set s = set t \<Longrightarrow> s = t"
  by (simp add: bs_invar_def strict_sorted_equal)

lemma bs_last_greatest:
  "bs_invar s \<Longrightarrow> bs_last s = Some k \<Longrightarrow> k \<in> set s \<and> (\<forall>x \<in> set s. x \<le> k)"
  by (induction s) (auto simp: bs_invar_def bs_last_def split: if_splits)

lemma bs_last_None_iff [simp]: "bs_last s = None \<longleftrightarrow> s = []"
  by (simp add: bs_last_def)

lemma set_butlast_bs:
  assumes "bs_invar s" and "s \<noteq> []"
  shows "set (butlast s) = set s - {last s}"
proof -
  have "distinct (butlast s @ [last s])"
    using assms bs_invar_distinct by simp
  moreover have "set s = insert (last s) (set (butlast s))"
    using assms(2) by (metis append_butlast_last_id list.simps(15) rotate1.simps(2) set_rotate1)
  ultimately show ?thesis by auto
qed

lemma bs_invar_butlast: "bs_invar s \<Longrightarrow> bs_invar (butlast s)"
  unfolding bs_invar_def
  by (metis append_butlast_last_id butlast.simps(1) sorted_wrt_append)

subsection \<open>Maps\<close>

lemma bm_get_Nil [simp, btree_simps]: "bm_get [] k = None"
  by (simp add: bm_get_def)

lemma map_fst_bm_insert [btree_simps]: "map fst (bm_insert k v m) = bs_insert k (map fst m)"
  by (induction m) auto

lemma set_fst_bm_insert [simp, btree_simps]:
  "set (map fst (bm_insert k v m)) = insert k (set (map fst m))"
  by (simp only: map_fst_bm_insert set_bs_insert)

lemma fst_image_bm_insert [simp]: "fst ` set (bm_insert k v m) = insert k (fst ` set m)"
  using set_fst_bm_insert [of k v m] by simp

lemma bm_invar_Nil [simp, btree_simps]: "bm_invar []"
  by (simp add: bm_invar_def)

lemma bm_invar_Cons:
  "bm_invar (e # m) \<longleftrightarrow> (\<forall>e' \<in> set m. fst e < fst e') \<and> bm_invar m"
  by (auto simp: bm_invar_def)

lemma bm_invar_distinct: "bm_invar m \<Longrightarrow> distinct (map fst m)"
  by (simp add: bm_invar_def strict_sorted_iff)

lemma bm_invar_insert [simp, btree_simps]: "bm_invar m \<Longrightarrow> bm_invar (bm_insert k v m)"
  using bs_invar_insert [of "map fst m" k]
  by (simp add: bm_invar_def bs_invar_def map_fst_bm_insert)

lemma bm_get_insert [simp, btree_simps]:
  "bm_get (bm_insert k v m) k' = (if k' = k then Some v else bm_get m k')"
  by (induction m) (auto simp: bm_get_def)

lemma bm_get_filter:
  "bm_invar m \<Longrightarrow>
     bm_get (filter P m) k = (case bm_get m k of None \<Rightarrow> None | Some v \<Rightarrow> if P (k, v) then Some v else None)"
proof (induction m)
  case (Cons e m)
  then have "bm_get m (fst e) = None"
    by (auto simp: bm_get_def bm_invar_Cons map_of_eq_None_iff)
  with Cons show ?case
    by (cases e) (auto simp: bm_get_def bm_invar_Cons split: option.splits)
qed simp

lemma bm_get_remove [simp, btree_simps]:
  "bm_get (bm_remove k m) k' = (if k' = k then None else bm_get m k')"
  unfolding bm_remove_def by (induction m) (auto simp: bm_get_def)

lemma bm_invar_filter: "bm_invar m \<Longrightarrow> bm_invar (filter P m)"
  by (induction m) (auto simp: bm_invar_Cons)

lemma bm_invar_remove [simp, btree_simps]: "bm_invar m \<Longrightarrow> bm_invar (bm_remove k m)"
  by (simp add: bm_remove_def bm_invar_filter)

lemma bm_invar_split_off [simp, btree_simps]: "bm_invar m \<Longrightarrow> bm_invar (bm_split_off k m)"
  by (simp add: bm_split_off_def bm_invar_filter)

lemma bm_get_split_off [btree_simps]:
  "bm_invar m \<Longrightarrow> bm_get (bm_split_off k m) k' = (if k \<le> k' then bm_get m k' else None)"
  by (simp add: bm_split_off_def bm_get_filter split: option.splits)

lemma bm_get_in_set: "bm_get m k = Some v \<Longrightarrow> (k, v) \<in> set m"
  by (simp add: bm_get_def map_of_SomeD)

lemma set_bm_insert_subset: "set (bm_insert k v m) \<subseteq> insert (k, v) (set m)"
  by (induction m) (auto split: if_splits)

lemma bm_get_None_iff: "bm_get m k = None \<longleftrightarrow> k \<notin> fst ` set m"
  by (simp add: bm_get_def map_of_eq_None_iff)

lemma bm_get_Some_iff: "(\<exists>v. bm_get m k = Some v) \<longleftrightarrow> k \<in> fst ` set m"
  using bm_get_None_iff [of m k] by (cases "bm_get m k") auto

lemma in_set_bm_get: "bm_invar m \<Longrightarrow> (k, v) \<in> set m \<longleftrightarrow> bm_get m k = Some v"
  by (simp add: bm_get_def bm_invar_distinct)

subsection \<open>The interfaces\<close>

locale ordered_map =
  fixes get :: "'m \<Rightarrow> 'k::linorder \<Rightarrow> 'v option"
    and ins :: "'k \<Rightarrow> 'v \<Rightarrow> 'm \<Rightarrow> 'm"
    and del :: "'k \<Rightarrow> 'm \<Rightarrow> 'm"
    and split_off :: "'k \<Rightarrow> 'm \<Rightarrow> 'm"
    and invar :: "'m \<Rightarrow> bool"
  assumes get_ins: "get (ins k v m) k' = (if k' = k then Some v else get m k')"
    and get_del: "get (del k m) k' = (if k' = k then None else get m k')"
    and get_split_off: "invar m \<Longrightarrow> get (split_off k m) k' = (if k \<le> k' then get m k' else None)"
    and invar_ins: "invar m \<Longrightarrow> invar (ins k v m)"
    and invar_del: "invar m \<Longrightarrow> invar (del k m)"
    and invar_split_off: "invar m \<Longrightarrow> invar (split_off k m)"
begin

definition dom_of :: "'m \<Rightarrow> 'k set" where
  "dom_of m = dom (get m)"

lemma dom_of_ins: "dom_of (ins k v m) = insert k (dom_of m)"
  by (auto simp: dom_of_def get_ins split: if_splits)

lemma dom_of_del: "dom_of (del k m) = dom_of m - {k}"
  by (auto simp: dom_of_def get_del split: if_splits)

lemma dom_of_split_off: "invar m \<Longrightarrow> dom_of (split_off k m) = {k' \<in> dom_of m. k \<le> k'}"
  by (auto simp: dom_of_def get_split_off split: if_splits)

lemma get_fold_del: "get (fold del ks m) k = (if k \<in> set ks then None else get m k)"
  by (induction ks arbitrary: m) (auto simp: get_del)

lemma invar_fold_del: "invar m \<Longrightarrow> invar (fold del ks m)"
  by (induction ks arbitrary: m) (auto simp: invar_del)

end

interpretation bm: ordered_map bm_get bm_insert bm_remove bm_split_off bm_invar
  by unfold_locales (simp_all add: bm_get_split_off)

locale ordered_set =
  fixes elems :: "'s \<Rightarrow> 'k::linorder set"
    and add :: "'k \<Rightarrow> 's \<Rightarrow> 's"
    and cut :: "'k \<Rightarrow> 's \<Rightarrow> 's"
    and invar :: "'s \<Rightarrow> bool"
  assumes elems_add: "elems (add k s) = insert k (elems s)"
    and elems_cut: "elems (cut k s) = {x \<in> elems s. k \<le> x}"
    and canonical: "invar s \<Longrightarrow> invar t \<Longrightarrow> elems s = elems t \<Longrightarrow> s = t"
    and invar_add: "invar s \<Longrightarrow> invar (add k s)"
    and invar_cut: "invar s \<Longrightarrow> invar (cut k s)"
begin

lemma add_commute: "invar s \<Longrightarrow> add j (add k s) = add k (add j s)"
  by (rule canonical) (auto simp: invar_add elems_add)

lemma add_idem: "invar s \<Longrightarrow> k \<in> elems s \<Longrightarrow> add k s = s"
  by (rule canonical) (auto simp: invar_add elems_add)

lemma cut_cut: "invar s \<Longrightarrow> cut j (cut k s) = cut (max j k) s"
  by (rule canonical) (auto simp: invar_cut elems_cut)

lemma fold_add_perm:
  "invar s \<Longrightarrow> set ks = set ls \<Longrightarrow> fold add ks s = fold add ls s"
proof (rule canonical)
  have elems_fold: "elems (fold add xs t) = elems t \<union> set xs" for xs t
    by (induction xs arbitrary: t) (auto simp: elems_add)
  have invar_fold: "invar t \<Longrightarrow> invar (fold add xs t)" for xs t
    by (induction xs arbitrary: t) (auto simp: invar_add)
  assume "invar s" "set ks = set ls"
  then show "invar (fold add ks s)" "invar (fold add ls s)"
    "elems (fold add ks s) = elems (fold add ls s)"
    by (auto simp: elems_fold invar_fold)
qed

end

interpretation bs: ordered_set set bs_insert bs_split_off bs_invar
  by unfold_locales (auto intro: bs_equalityI)

end
