(* ===== verification/Committee.thy ===== *)
theory Committee
  imports Prelude
begin

section \<open>The consensus committee\<close>

text \<open>
  \<open>crates/starfish/config/src/committee.rs\<close>: the authorities of an epoch with their stakes,
  the quorum threshold (2f+1) and the validity threshold (f+1) by stake, and the number of
  information shards of the erasure code. Network addresses and public keys of an
  authority are only handed to the network and to signature checks and are left out.

  The locale \<open>quorum_system\<close> is what the commit rule relies on: two quorums share more stake
  than the faulty authorities have. It is interpreted on the committees that
  \<open>Committee_new\<close> builds.
\<close>

record authority =
  a_stake :: stake
  a_hostname :: string

record committee =
  committee_epoch :: nat
  total_stake :: stake
  quorum_threshold :: stake
  validity_threshold :: stake
  authorities :: "authority list"
  info_length :: nat

definition div_ceil :: "nat \<Rightarrow> nat \<Rightarrow> nat" where
  "div_ceil a b = (if a mod b = 0 then a div b else a div b + 1)"

definition Committee_new :: "nat \<Rightarrow> authority list \<Rightarrow> committee option" where
  "Committee_new ep auths = do {
     assert_that (auths \<noteq> []);
     assert_that (length auths < 255);
     let total = wrap_u64 (sum_list (map a_stake auths));
     assert_that (total \<noteq> 0);
     let quorum = wrap_u64 (2 * total) div 3 + 1;
     let validity = div_ceil total 3;
     let committee_size = length auths;
     let f = (committee_size - 1) div 3;
     Some \<lparr> committee_epoch = ep, total_stake = total, quorum_threshold = quorum,
            validity_threshold = validity, authorities = auths,
            info_length = committee_size - 2 * f \<rparr> }"

definition size_of :: "committee \<Rightarrow> nat" where
  "size_of c = length (authorities c)"

definition parity_length :: "committee \<Rightarrow> nat" where
  "parity_length c = size_of c - info_length c"

definition authority_at :: "committee \<Rightarrow> authority_index \<Rightarrow> authority option" where
  "authority_at c i = vec_get (authorities c) i"

definition stake_at :: "committee \<Rightarrow> authority_index \<Rightarrow> stake option" where
  "stake_at c i = map_option a_stake (vec_get (authorities c) i)"

definition authorities_enum :: "committee \<Rightarrow> (authority_index \<times> authority) list" where
  "authorities_enum c = map (\<lambda>(i, a). (wrap_u8 i, a)) (enumerate 0 (authorities c))"

definition reached_quorum :: "committee \<Rightarrow> stake \<Rightarrow> bool" where
  "reached_quorum c s = (quorum_threshold c \<le> s)"

definition reached_validity :: "committee \<Rightarrow> stake \<Rightarrow> bool" where
  "reached_validity c s = (validity_threshold c \<le> s)"

definition to_authority_index :: "committee \<Rightarrow> nat \<Rightarrow> authority_index option" where
  "to_authority_index c i = (if i < length (authorities c) then Some (wrap_u8 i) else None)"

definition is_valid_index :: "committee \<Rightarrow> authority_index \<Rightarrow> bool" where
  "is_valid_index c i = (i < size_of c)"

subsection \<open>Stake of a set of authorities\<close>

definition stake_sum :: "committee \<Rightarrow> authority_index set \<Rightarrow> stake" where
  "stake_sum c A = (\<Sum>i \<in> A. a_stake (authorities c ! i))"

definition members :: "committee \<Rightarrow> authority_index set" where
  "members c = {..<size_of c}"

text \<open>A committee as \<open>Committee_new\<close> builds it, with a total stake small enough for
  \<open>2 * total_stake\<close> not to wrap (the documented total is 10,000).\<close>

definition committee_ok :: "committee \<Rightarrow> bool" where
  "committee_ok c =
     (authorities c \<noteq> [] \<and> length (authorities c) < 255 \<and>
      total_stake c = sum_list (map a_stake (authorities c)) \<and>
      0 < total_stake c \<and> 2 * total_stake c < 18446744073709551616 \<and>
      quorum_threshold c = 2 * total_stake c div 3 + 1 \<and>
      validity_threshold c = div_ceil (total_stake c) 3 \<and>
      info_length c = size_of c - 2 * ((size_of c - 1) div 3))"

lemma Committee_new_ok:
  assumes "Committee_new ep auths = Some c"
    and "2 * sum_list (map a_stake auths) < 18446744073709551616"
  shows "committee_ok c"
  using assms by (auto simp: Committee_new_def committee_ok_def size_of_def Let_def split: if_splits)

lemma members_finite [simp]: "finite (members c)"
  by (simp add: members_def)

lemma stake_at_Some: "i \<in> members c \<Longrightarrow> stake_at c i = Some (a_stake (authorities c ! i))"
  by (simp add: stake_at_def members_def size_of_def)

lemma stake_at_eq_Some_iff:
  "stake_at c i = Some s \<longleftrightarrow> i \<in> members c \<and> s = a_stake (authorities c ! i)"
  by (auto simp: stake_at_def members_def size_of_def vec_get_eq_Some_iff)

lemma stake_sum_members: "stake_sum c (members c) = sum_list (map a_stake (authorities c))"
  by (simp add: stake_sum_def members_def size_of_def sum_list_sum_nth atLeast0LessThan)

lemma stake_sum_mono: "A \<subseteq> B \<Longrightarrow> B \<subseteq> members c \<Longrightarrow> stake_sum c A \<le> stake_sum c B"
  unfolding stake_sum_def by (rule sum_mono2) (auto intro: finite_subset)

lemma stake_sum_le_total: "committee_ok c \<Longrightarrow> A \<subseteq> members c \<Longrightarrow> stake_sum c A \<le> total_stake c"
  using stake_sum_mono [of A "members c" c] by (simp add: stake_sum_members committee_ok_def)

lemma div_ceil_3: "div_ceil n 3 = (n + 2) div 3"
  unfolding div_ceil_def by presburger

lemma committee_ok_thresholds:
  assumes "committee_ok c"
  shows "quorum_threshold c = 2 * total_stake c div 3 + 1"
    and "validity_threshold c = (total_stake c + 2) div 3"
    and "0 < total_stake c"
  using assms by (simp_all add: committee_ok_def div_ceil_3)

lemma third_bounds: "n < 3 * (n div 3) + 3" "3 * (n div 3) \<le> (n :: nat)"
  using div_mult_mod_eq [of n 3] mod_less_divisor [of 3 n] by linarith+

lemma two_thirds_arith:
  fixes t q v :: nat
  shows "2 * t < 3 * q + 3 \<Longrightarrow> 3 * v \<le> t + 2 \<Longrightarrow> t + v \<le> 2 * (q + 1)"
    and "2 * t < 3 * q + 3 \<Longrightarrow> t + 2 < 3 * v + 3 \<Longrightarrow> t < q + 1 + v"
  by arith+

lemma thresholds_overlap:
  assumes "committee_ok c"
  shows "total_stake c + validity_threshold c \<le> 2 * quorum_threshold c"
  unfolding committee_ok_thresholds [OF assms] by (rule two_thirds_arith) (rule third_bounds)+

lemma thresholds_cover:
  assumes "committee_ok c"
  shows "total_stake c < quorum_threshold c + validity_threshold c"
  unfolding committee_ok_thresholds [OF assms] by (rule two_thirds_arith) (rule third_bounds)+

lemma quorum_reachable: "committee_ok c \<Longrightarrow> quorum_threshold c \<le> total_stake c"
  using committee_ok_thresholds [of c] by linarith

lemma quorum_positive: "committee_ok c \<Longrightarrow> 0 < quorum_threshold c"
  using committee_ok_thresholds [of c] by linarith

lemma validity_positive: "committee_ok c \<Longrightarrow> 0 < validity_threshold c"
  using committee_ok_thresholds [of c] by linarith

lemma faulty_below_third:
  "committee_ok c \<Longrightarrow> stake_sum c F < validity_threshold c \<longleftrightarrow> 3 * stake_sum c F < total_stake c"
  using committee_ok_thresholds [of c] by linarith

subsection \<open>Quorum intersection\<close>

locale quorum_system =
  fixes ok :: "'c \<Rightarrow> bool"
    and mem :: "'c \<Rightarrow> 'i set"
    and weight :: "'c \<Rightarrow> 'i \<Rightarrow> nat"
    and quorum :: "'c \<Rightarrow> nat"
    and validity :: "'c \<Rightarrow> nat"
  assumes finite_mem: "ok c \<Longrightarrow> finite (mem c)"
    and overlap: "ok c \<Longrightarrow> sum (weight c) (mem c) + validity c \<le> 2 * quorum c"
    and cover: "ok c \<Longrightarrow> sum (weight c) (mem c) < quorum c + validity c"
begin

lemma quorums_overlap:
  assumes "ok c" "A \<subseteq> mem c" "B \<subseteq> mem c"
    and "quorum c \<le> sum (weight c) A" "quorum c \<le> sum (weight c) B"
  shows "validity c \<le> sum (weight c) (A \<inter> B)"
proof -
  have fin: "finite A" "finite B"
    using assms finite_mem finite_subset by blast+
  have "sum (weight c) (A \<union> B) \<le> sum (weight c) (mem c)"
    using assms finite_mem by (intro sum_mono2) auto
  moreover have "sum (weight c) (A \<union> B) + sum (weight c) (A \<inter> B) = sum (weight c) A + sum (weight c) B"
    using fin by (rule sum.union_inter)
  ultimately show ?thesis using overlap [OF assms(1)] assms(4,5) by linarith
qed

lemma heavy_set_has_honest:
  assumes "ok c" "A \<subseteq> mem c" "F \<subseteq> mem c"
    and "validity c \<le> sum (weight c) A" "sum (weight c) F < validity c"
  shows "\<exists>i \<in> A. i \<notin> F"
proof (rule ccontr)
  assume "\<not> ?thesis"
  then have "A \<subseteq> F" by blast
  then have "sum (weight c) A \<le> sum (weight c) F"
    using assms finite_mem finite_subset by (intro sum_mono2) blast+
  with assms show False by simp
qed

lemma quorums_share_honest:
  assumes "ok c" "A \<subseteq> mem c" "B \<subseteq> mem c" "F \<subseteq> mem c"
    and "quorum c \<le> sum (weight c) A" "quorum c \<le> sum (weight c) B"
    and "sum (weight c) F < validity c"
  shows "\<exists>i \<in> A \<inter> B. i \<notin> F"
  using heavy_set_has_honest [of c "A \<inter> B" F] quorums_overlap assms by blast

lemma quorum_meets_validity:
  assumes "ok c" "A \<subseteq> mem c" "B \<subseteq> mem c"
    and "quorum c \<le> sum (weight c) A" "validity c \<le> sum (weight c) B"
  shows "A \<inter> B \<noteq> {}"
proof
  assume "A \<inter> B = {}"
  moreover have "finite A" "finite B"
    using assms finite_mem finite_subset by blast+
  ultimately have "sum (weight c) (A \<union> B) = sum (weight c) A + sum (weight c) B"
    by (simp add: sum.union_disjoint)
  moreover have "sum (weight c) (A \<union> B) \<le> sum (weight c) (mem c)"
    using assms finite_mem by (intro sum_mono2) auto
  ultimately show False using cover [OF assms(1)] assms(4,5) by linarith
qed

end

interpretation cm: quorum_system committee_ok members "\<lambda>c i. a_stake (authorities c ! i)"
  quorum_threshold validity_threshold
proof unfold_locales
  fix c assume c: "committee_ok c"
  have total: "(\<Sum>i \<in> members c. a_stake (authorities c ! i)) = total_stake c"
    using c stake_sum_members [of c] by (simp add: stake_sum_def committee_ok_def)
  show "finite (members c)" by simp
  show "(\<Sum>i \<in> members c. a_stake (authorities c ! i)) + validity_threshold c
      \<le> 2 * quorum_threshold c"
    unfolding total by (rule thresholds_overlap [OF c])
  show "(\<Sum>i \<in> members c. a_stake (authorities c ! i))
      < quorum_threshold c + validity_threshold c"
    unfolding total by (rule thresholds_cover [OF c])
qed

lemmas committee_share_honest = cm.quorums_share_honest [folded stake_sum_def]
lemmas committee_overlap = cm.quorums_overlap [folded stake_sum_def]
lemmas committee_meets_validity = cm.quorum_meets_validity [folded stake_sum_def]

subsection \<open>Shards\<close>

lemma info_length_bounds:
  assumes "committee_ok c"
  shows "info_length c + 2 * ((size_of c - 1) div 3) = size_of c"
    and "(size_of c - 1) div 3 < info_length c"
    and "info_length c + parity_length c = size_of c"
proof -
  let ?f = "(size_of c - 1) div 3"
  have "0 < size_of c" using assms by (simp add: committee_ok_def size_of_def)
  moreover have "3 * ?f \<le> size_of c - 1" by simp
  moreover have "info_length c = size_of c - 2 * ?f"
    using assms by (simp add: committee_ok_def)
  ultimately show "info_length c + 2 * ?f = size_of c" and "?f < info_length c"
    and "info_length c + parity_length c = size_of c"
    unfolding parity_length_def by linarith+
qed

subsection \<open>What the constructor guarantees\<close>

text \<open>
  C17: in a committee built by \<open>Committee_new\<close> (with a total stake for which the quorum
  computation does not wrap), two sets of authorities that both reach the quorum threshold
  share an authority outside every set that holds less than a third of the stake.
\<close>

theorem quorum_intersection:
  assumes new: "Committee_new ep auths = Some c"
    and bound: "2 * sum_list (map a_stake auths) < 18446744073709551616"
    and sub: "A \<subseteq> members c" "B \<subseteq> members c" "F \<subseteq> members c"
    and quorums: "reached_quorum c (stake_sum c A)" "reached_quorum c (stake_sum c B)"
    and faulty: "3 * stake_sum c F < total_stake c"
  shows "\<exists>i \<in> A \<inter> B. i \<notin> F"
proof -
  note ok = Committee_new_ok [OF new bound]
  have "stake_sum c F < validity_threshold c" using faulty faulty_below_third [OF ok] by simp
  then show ?thesis
    using committee_share_honest [OF ok sub] quorums by (simp add: reached_quorum_def)
qed

definition example_committee :: "nat \<Rightarrow> committee" where
  "example_committee n =
     \<lparr> committee_epoch = 0, total_stake = n, quorum_threshold = 2 * n div 3 + 1,
       validity_threshold = div_ceil n 3, authorities = replicate n \<lparr> a_stake = 1, a_hostname = [] \<rparr>,
       info_length = n - 2 * ((n - 1) div 3) \<rparr>"

lemma example_committee_new:
  "Committee_new 0 (replicate 4 \<lparr> a_stake = 1, a_hostname = [] \<rparr>) = Some (example_committee 4)"
  by (simp add: Committee_new_def example_committee_def div_ceil_def Let_def sum_list_replicate)

lemma example_committee_ok: "0 < n \<Longrightarrow> n < 255 \<Longrightarrow> committee_ok (example_committee n)"
  by (simp add: committee_ok_def example_committee_def size_of_def sum_list_replicate)

lemma example_committee_members [simp]: "members (example_committee n) = {..<n}"
  by (simp add: members_def size_of_def example_committee_def)

lemma example_committee_stake: "A \<subseteq> {..<n} \<Longrightarrow> stake_sum (example_committee n) A = card A"
  by (simp add: stake_sum_def example_committee_def subset_iff)

theorem quorum_intersection_witness:
  "\<exists>i \<in> {0, 1, 2} \<inter> {1, 2, 3 :: nat}. i \<notin> {1}"
proof (rule quorum_intersection [OF example_committee_new])
  show "reached_quorum (example_committee 4) (stake_sum (example_committee 4) {0, 1, 2})"
    by (subst example_committee_stake) (auto simp: reached_quorum_def example_committee_def)
  show "reached_quorum (example_committee 4) (stake_sum (example_committee 4) {1, 2, 3})"
    by (subst example_committee_stake) (auto simp: reached_quorum_def example_committee_def)
  show "3 * stake_sum (example_committee 4) {1} < total_stake (example_committee 4)"
    by (subst example_committee_stake) (auto simp: example_committee_def)
qed (auto simp: sum_list_replicate)

end
