(* ===== verification/Stake_Aggregator.thy ===== *)
theory Stake_Aggregator
  imports BTree Committee
begin

section \<open>Stake aggregation\<close>

text \<open>
  \<open>crates/starfish/core/src/stake_aggregator.rs\<close>: a set of voters with their accumulated
  stake. The type parameter of the code, an implementation of the trait
  \<open>CommitteeThreshold\<close>, is the datatype \<open>threshold_kind\<close>; the trait is the locale
  \<open>committee_threshold\<close>, interpreted for both implementations.
\<close>

datatype threshold_kind = QuorumThreshold | ValidityThreshold

fun is_threshold :: "threshold_kind \<Rightarrow> committee \<Rightarrow> stake \<Rightarrow> bool" where
  "is_threshold QuorumThreshold c amount = reached_quorum c amount"
| "is_threshold ValidityThreshold c amount = reached_validity c amount"

fun threshold_of :: "threshold_kind \<Rightarrow> committee \<Rightarrow> stake" where
  "threshold_of QuorumThreshold c = quorum_threshold c"
| "threshold_of ValidityThreshold c = validity_threshold c"

record stake_aggregator =
  sa_votes :: "authority_index btreeset"
  sa_stake :: stake

definition sa_new :: stake_aggregator where
  "sa_new = \<lparr> sa_votes = [], sa_stake = 0 \<rparr>"

definition sa_add ::
  "threshold_kind \<Rightarrow> stake_aggregator \<Rightarrow> authority_index \<Rightarrow> committee \<Rightarrow> (bool \<times> stake_aggregator) option"
where
  "sa_add T sa vote c = do {
     sa' \<leftarrow> (if vote \<in> set (sa_votes sa) then Some sa
             else do { s \<leftarrow> stake_at c vote;
                       Some (sa\<lparr> sa_votes := bs_insert vote (sa_votes sa),
                                 sa_stake := wrap_u64 (sa_stake sa + s) \<rparr>) });
     Some (is_threshold T c (sa_stake sa'), sa') }"

definition sa_reached_threshold :: "threshold_kind \<Rightarrow> stake_aggregator \<Rightarrow> committee \<Rightarrow> bool" where
  "sa_reached_threshold T sa c = is_threshold T c (sa_stake sa)"

definition sa_clear :: "stake_aggregator \<Rightarrow> stake_aggregator" where
  "sa_clear sa = sa\<lparr> sa_votes := [], sa_stake := 0 \<rparr>"

locale committee_threshold =
  fixes reached :: "committee \<Rightarrow> stake \<Rightarrow> bool"
    and thr :: "committee \<Rightarrow> stake"
  assumes reached_iff: "reached c s \<longleftrightarrow> thr c \<le> s"
begin

lemma reached_mono: "reached c s \<Longrightarrow> s \<le> t \<Longrightarrow> reached c t"
  by (simp add: reached_iff)

lemma reached_by_superset:
  "reached c (stake_sum c A) \<Longrightarrow> A \<subseteq> B \<Longrightarrow> B \<subseteq> members c \<Longrightarrow> reached c (stake_sum c B)"
  by (rule reached_mono) (auto intro: stake_sum_mono)

end

interpretation qt: committee_threshold "is_threshold QuorumThreshold" "threshold_of QuorumThreshold"
  by unfold_locales (simp add: reached_quorum_def)

interpretation vt: committee_threshold "is_threshold ValidityThreshold" "threshold_of ValidityThreshold"
  by unfold_locales (simp add: reached_validity_def)

subsection \<open>The aggregator counts each authority once\<close>

definition sa_ok :: "committee \<Rightarrow> stake_aggregator \<Rightarrow> bool" where
  "sa_ok c sa = (bs_invar (sa_votes sa) \<and> set (sa_votes sa) \<subseteq> members c \<and>
                 sa_stake sa = stake_sum c (set (sa_votes sa)))"

lemma sa_ok_new [simp]: "sa_ok c sa_new"
  by (simp add: sa_ok_def sa_new_def stake_sum_def)

lemma sa_clear_new [simp]: "sa_clear sa = sa_new"
  by (simp add: sa_clear_def sa_new_def)

lemma sa_votes_new [simp]: "sa_votes sa_new = []"
  by (simp add: sa_new_def)

lemma sa_stake_new [simp]: "sa_stake sa_new = 0"
  by (simp add: sa_new_def)

lemma stake_sum_insert:
  "i \<in> members c \<Longrightarrow> A \<subseteq> members c \<Longrightarrow> i \<notin> A \<Longrightarrow>
     stake_sum c (insert i A) = stake_sum c A + a_stake (authorities c ! i)"
  unfolding stake_sum_def by (subst sum.insert) (auto intro: finite_subset [OF _ members_finite])

lemma sa_add_ok:
  assumes c: "committee_ok c" and sa: "sa_ok c sa" and v: "vote \<in> members c"
  shows "\<exists>sa'. sa_add T sa vote c = Some (is_threshold T c (stake_sum c (insert vote (set (sa_votes sa)))), sa') \<and>
           sa_ok c sa' \<and> set (sa_votes sa') = insert vote (set (sa_votes sa))"
proof (cases "vote \<in> set (sa_votes sa)")
  case True
  then show ?thesis using sa by (auto simp: sa_add_def sa_ok_def insert_absorb)
next
  case False
  let ?A = "insert vote (set (sa_votes sa))"
  have A: "?A \<subseteq> members c" using sa v by (auto simp: sa_ok_def)
  have sum: "stake_sum c ?A = sa_stake sa + a_stake (authorities c ! vote)"
    using sa v False by (simp add: sa_ok_def stake_sum_insert)
  have "stake_sum c ?A < 18446744073709551616"
    using stake_sum_le_total [OF c A] c by (simp add: committee_ok_def)
  with False sum sa A v show ?thesis
    by (auto simp: sa_add_def stake_at_Some sa_ok_def)
qed

lemma sa_add_Some:
  assumes "committee_ok c" "sa_ok c sa" "sa_add T sa vote c = Some (b, sa')"
  shows "vote \<in> members c" "sa_ok c sa'" "set (sa_votes sa') = insert vote (set (sa_votes sa))"
    "b \<longleftrightarrow> is_threshold T c (sa_stake sa')" "sa_stake sa' = stake_sum c (set (sa_votes sa'))"
proof -
  show v: "vote \<in> members c"
    using assms by (auto simp: sa_add_def sa_ok_def Option.bind_eq_Some_conv stake_at_eq_Some_iff split: if_splits)
  from sa_add_ok [OF assms(1,2) v, of T] assms(3)
  show "sa_ok c sa'" "set (sa_votes sa') = insert vote (set (sa_votes sa))"
    "b \<longleftrightarrow> is_threshold T c (sa_stake sa')" "sa_stake sa' = stake_sum c (set (sa_votes sa'))"
    by (auto simp: sa_ok_def)
qed

text \<open>Adding a list of votes, as the loops of the committers do.\<close>

definition sa_add_all ::
  "threshold_kind \<Rightarrow> committee \<Rightarrow> stake_aggregator \<Rightarrow> authority_index list \<Rightarrow> stake_aggregator option" where
  "sa_add_all T c sa votes = foldM (\<lambda>s v. map_option snd (sa_add T s v c)) sa votes"

lemma sa_add_all_ok:
  assumes "committee_ok c" "sa_ok c sa" "set votes \<subseteq> members c"
  shows "\<exists>sa'. sa_add_all T c sa votes = Some sa' \<and> sa_ok c sa' \<and>
           set (sa_votes sa') = set (sa_votes sa) \<union> set votes"
  using assms(2,3)
proof (induction votes arbitrary: sa)
  case (Cons v votes)
  then obtain b sa1 where 1: "sa_add T sa v c = Some (b, sa1)" "sa_ok c sa1"
    "set (sa_votes sa1) = insert v (set (sa_votes sa))"
    using sa_add_ok [OF assms(1) Cons.prems(1)] by (metis insert_subset list.set(2))
  obtain sa2 where 2: "sa_add_all T c sa1 votes = Some sa2" "sa_ok c sa2"
    "set (sa_votes sa2) = set (sa_votes sa1) \<union> set votes"
    using Cons.IH [OF 1(2)] Cons.prems(2) by (metis insert_subset list.set(2))
  have "sa_add_all T c sa (v # votes) = Some sa2"
    using 1(1) 2(1) by (simp add: sa_add_all_def)
  moreover have "set (sa_votes sa2) = set (sa_votes sa) \<union> set (v # votes)"
    using 1(3) 2(3) by auto
  ultimately show ?case using 2(2) by blast
next
  case Nil
  have "sa_add_all T c sa [] = Some sa" by (simp add: sa_add_all_def)
  with Nil show ?case by auto
qed

lemma sa_ok_equality:
  assumes "sa_ok c sa" "sa_ok c sb" "set (sa_votes sa) = set (sa_votes sb)"
  shows "sa = sb"
proof -
  have "sa_votes sa = sa_votes sb"
    using assms by (intro bs_equalityI) (simp_all add: sa_ok_def)
  moreover have "sa_stake sa = sa_stake sb"
    using assms by (simp add: sa_ok_def)
  ultimately show ?thesis by (cases sa, cases sb) simp
qed

text \<open>
  C37: adding any sequence of votes of committee members to a fresh aggregator never panics,
  and the outcome depends only on the set of voters: order and repetitions do not matter,
  every voter's stake is counted once, and the threshold is reached exactly when the stake of
  that set reaches it.
\<close>

theorem votes_counted_once:
  assumes "committee_ok c" "set votes \<subseteq> members c" "set votes' = set votes"
  shows "\<exists>sa. sa_add_all T c sa_new votes = Some sa \<and> sa_add_all T c sa_new votes' = Some sa \<and>
    sa_stake sa = stake_sum c (set votes) \<and>
    (sa_reached_threshold T sa c \<longleftrightarrow> threshold_of T c \<le> stake_sum c (set votes))"
proof -
  from sa_add_all_ok [OF assms(1) sa_ok_new assms(2), of T] obtain sa where
    sa: "sa_add_all T c sa_new votes = Some sa" "sa_ok c sa" "set (sa_votes sa) = set votes" by auto
  from sa_add_all_ok [OF assms(1) sa_ok_new, of votes' T] assms(2,3) obtain sb where
    sb: "sa_add_all T c sa_new votes' = Some sb" "sa_ok c sb" "set (sa_votes sb) = set votes" by auto
  have "sa = sb" using sa_ok_equality [OF sa(2) sb(2)] sa(3) sb(3) by simp
  moreover have "sa_stake sa = stake_sum c (set votes)" using sa(2,3) by (simp add: sa_ok_def)
  moreover have "sa_reached_threshold T sa c \<longleftrightarrow> threshold_of T c \<le> sa_stake sa"
    by (cases T) (simp_all add: sa_reached_threshold_def qt.reached_iff vt.reached_iff del: is_threshold.simps threshold_of.simps)
  ultimately show ?thesis using sa(1) sb(1) by auto
qed

theorem votes_counted_once_witness:
  "\<exists>sa. sa_add_all QuorumThreshold (example_committee 4) sa_new [2, 0, 2, 1] = Some sa \<and>
    sa_add_all QuorumThreshold (example_committee 4) sa_new [0, 1, 2] = Some sa \<and>
    sa_stake sa = stake_sum (example_committee 4) (set [2, 0, 2, 1]) \<and>
    (sa_reached_threshold QuorumThreshold sa (example_committee 4) \<longleftrightarrow>
      threshold_of QuorumThreshold (example_committee 4) \<le> stake_sum (example_committee 4) (set [2, 0, 2, 1]))"
  by (rule votes_counted_once) (auto simp: example_committee_ok)

end
