(* ===== verification/Block_Header.thy ===== *)
theory Block_Header
  imports BTree Committee "HOL-Library.Multiset"
begin

section \<open>Block headers and references\<close>

text \<open>
  \<open>crates/starfish/core/src/block_header.rs\<close> and \<open>transaction_ref.rs\<close>: block references,
  slots, transaction references and the block header with its compressed reference vector.
  The derived orders of \<open>BlockRef\<close>, \<open>TransactionRef\<close> and \<open>GenericTransactionRef\<close> are
  instances of the class \<open>linorder\<close>, so they can be keys of ordered maps.
  \<open>BlockHeader\<close> is an enum with the single variant \<open>V1\<close>, so the record of that variant
  stands for it. A verified header adds the digest; the signature and the serialised
  bytes are only inputs of the digest and of the signature check.
\<close>

datatype block_ref = BlockRef (br_round: round) (br_author: authority_index) (br_digest: digest)

datatype transaction_ref =
  TransactionRef (tr_round: round) (tr_author: authority_index) (tr_commitment: digest)

datatype generic_transaction_ref = GBlockRef block_ref | GTransactionRef transaction_ref

datatype slot = Slot (slot_round: round) (slot_authority: authority_index)

definition slot_of :: "block_ref \<Rightarrow> slot" where
  "slot_of r = Slot (br_round r) (br_author r)"

fun gtr_author :: "generic_transaction_ref \<Rightarrow> authority_index" where
  "gtr_author (GBlockRef b) = br_author b"
| "gtr_author (GTransactionRef t) = tr_author t"

fun gtr_round :: "generic_transaction_ref \<Rightarrow> round" where
  "gtr_round (GBlockRef b) = br_round b"
| "gtr_round (GTransactionRef t) = tr_round t"

datatype commit_ref = CommitRef (cr_index: nat) (cr_digest: digest)

definition GENESIS_ROUND :: round where
  "GENESIS_ROUND = 0"

subsection \<open>Orders\<close>

instantiation block_ref :: linorder
begin

definition less_eq_block_ref :: "block_ref \<Rightarrow> block_ref \<Rightarrow> bool" where
  "r \<le> s \<longleftrightarrow> br_round r < br_round s \<or> br_round r = br_round s \<and>
     (br_author r < br_author s \<or> br_author r = br_author s \<and> br_digest r \<le> br_digest s)"

definition less_block_ref :: "block_ref \<Rightarrow> block_ref \<Rightarrow> bool" where
  "r < s \<longleftrightarrow> br_round r < br_round s \<or> br_round r = br_round s \<and>
     (br_author r < br_author s \<or> br_author r = br_author s \<and> br_digest r < br_digest s)"

instance
  by intro_classes
    (auto simp: less_eq_block_ref_def less_block_ref_def intro: block_ref.expand)

end

instantiation transaction_ref :: linorder
begin

definition less_eq_transaction_ref :: "transaction_ref \<Rightarrow> transaction_ref \<Rightarrow> bool" where
  "r \<le> s \<longleftrightarrow> tr_round r < tr_round s \<or> tr_round r = tr_round s \<and>
     (tr_author r < tr_author s \<or> tr_author r = tr_author s \<and> tr_commitment r \<le> tr_commitment s)"

definition less_transaction_ref :: "transaction_ref \<Rightarrow> transaction_ref \<Rightarrow> bool" where
  "r < s \<longleftrightarrow> tr_round r < tr_round s \<or> tr_round r = tr_round s \<and>
     (tr_author r < tr_author s \<or> tr_author r = tr_author s \<and> tr_commitment r < tr_commitment s)"

instance
  by intro_classes
    (auto simp: less_eq_transaction_ref_def less_transaction_ref_def intro: transaction_ref.expand)

end

instantiation generic_transaction_ref :: linorder
begin

fun less_eq_generic_transaction_ref ::
  "generic_transaction_ref \<Rightarrow> generic_transaction_ref \<Rightarrow> bool" where
  "GBlockRef a \<le> GBlockRef b \<longleftrightarrow> a \<le> b"
| "GBlockRef a \<le> GTransactionRef t \<longleftrightarrow> True"
| "GTransactionRef t \<le> GBlockRef a \<longleftrightarrow> False"
| "GTransactionRef t \<le> GTransactionRef u \<longleftrightarrow> t \<le> u"

definition less_generic_transaction_ref ::
  "generic_transaction_ref \<Rightarrow> generic_transaction_ref \<Rightarrow> bool" where
  "a < b \<longleftrightarrow> a \<le> b \<and> \<not> b \<le> (a :: generic_transaction_ref)"

instance
proof
  fix x y z :: generic_transaction_ref
  show "x < y \<longleftrightarrow> x \<le> y \<and> \<not> y \<le> x" by (simp add: less_generic_transaction_ref_def)
  show "x \<le> x" by (cases x) simp_all
  show "x \<le> y \<Longrightarrow> y \<le> z \<Longrightarrow> x \<le> z" by (cases x; cases y; cases z) auto
  show "x \<le> y \<Longrightarrow> y \<le> x \<Longrightarrow> x = y" by (cases x; cases y) auto
  show "x \<le> y \<or> y \<le> x" by (cases x; cases y) auto
qed

end

lemma digest_bounds [simp]: "(0 :: digest) \<le> d" "d \<le> (-1 :: digest)"
  by simp_all

lemma block_ref_slot_range:
  "BlockRef r a 0 \<le> b \<and> b \<le> BlockRef r a (-1) \<longleftrightarrow> br_round b = r \<and> br_author b = a"
  by (auto simp: less_eq_block_ref_def)

lemma block_ref_round_range:
  "BlockRef r 0 0 \<le> b \<and> b < BlockRef (Suc r) 0 0 \<longleftrightarrow> br_round b = r"
  by (auto simp: less_eq_block_ref_def less_block_ref_def)

lemma block_ref_from_round: "BlockRef r 0 0 \<le> b \<longleftrightarrow> r \<le> br_round b"
  by (auto simp: less_eq_block_ref_def)

lemma block_ref_le_round: "(b :: block_ref) \<le> b' \<Longrightarrow> br_round b \<le> br_round b'"
  by (auto simp: less_eq_block_ref_def)

subsection \<open>The header\<close>

record block_header =
  bh_epoch :: nat
  bh_round :: round
  bh_author :: authority_index
  bh_timestamp_ms :: timestamp_ms
  bh_references :: "block_ref list"
  overlap_start_index :: nat
  overlap_end_index :: nat
  bh_transactions_commitment :: digest
  bh_commit_votes :: "commit_ref list"

record verified_block_header = block_header +
  vbh_digest :: digest

text \<open>
  The slices \<open>references[..overlap_end_index]\<close> and \<open>references[overlap_start_index..]\<close> panic
  when the index is past the end.
\<close>

definition ancestors :: "'a block_header_scheme \<Rightarrow> block_ref list option" where
  "ancestors h =
     (if overlap_end_index h \<le> length (bh_references h)
      then Some (take (overlap_end_index h) (bh_references h)) else None)"

definition acknowledgments :: "'a block_header_scheme \<Rightarrow> block_ref list option" where
  "acknowledgments h =
     (if overlap_start_index h \<le> length (bh_references h)
      then Some (drop (overlap_start_index h) (bh_references h)) else None)"

definition header_slot :: "'a block_header_scheme \<Rightarrow> slot" where
  "header_slot h = Slot (bh_round h) (bh_author h)"

definition reference :: "verified_block_header \<Rightarrow> block_ref" where
  "reference h = BlockRef (bh_round h) (bh_author h) (vbh_digest h)"

definition header_transaction_ref :: "verified_block_header \<Rightarrow> transaction_ref" where
  "header_transaction_ref h =
     TransactionRef (bh_round h) (bh_author h) (bh_transactions_commitment h)"

text \<open>
  A batch of transactions whose commitment has been checked against a header. A transaction
  is the vector of its bytes.
\<close>

type_synonym transaction = "8 word list"

record verified_transactions =
  vt_transactions :: "transaction list"
  vt_transaction_ref :: transaction_ref
  vt_block_digest :: "digest option"

definition vt_block_ref :: "verified_transactions \<Rightarrow> block_ref option" where
  "vt_block_ref t = map_option
     (BlockRef (tr_round (vt_transaction_ref t)) (tr_author (vt_transaction_ref t))) (vt_block_digest t)"

definition has_transactions :: "verified_transactions \<Rightarrow> bool" where
  "has_transactions t = (vt_transactions t \<noteq> [])"

record verified_block =
  vb_header :: verified_block_header
  vb_transactions :: verified_transactions

lemma reference_simps [simp]:
  "br_round (reference h) = bh_round h" "br_author (reference h) = bh_author h"
  "br_digest (reference h) = vbh_digest h"
  by (simp_all add: reference_def)

lemma slot_of_reference: "slot_of (reference h) = header_slot h"
  by (simp add: slot_of_def header_slot_def)

subsection \<open>Compression of ancestors and acknowledgments\<close>

text \<open>
  \<open>hash_order\<close> is the order in which the standard library's \<open>HashSet\<close> hands out the
  elements collected from a list; it is not specified beyond being an enumeration of them
  without duplicates (\<open>enumerates\<close>).
\<close>

definition enumerates :: "(block_ref list \<Rightarrow> block_ref list) \<Rightarrow> bool" where
  "enumerates hash_order =
     (\<forall>xs. distinct (hash_order xs) \<and> set (hash_order xs) = set xs)"

definition compress_references ::
  "(block_ref list \<Rightarrow> block_ref list) \<Rightarrow> block_ref list \<Rightarrow> block_ref list
     \<Rightarrow> block_ref list \<times> nat \<times> nat" where
  "compress_references hash_order anc acks =
     (case anc of
        [] \<Rightarrow> (acks, 0, 0)
      | ref0 # rest \<Rightarrow>
          let append_ref0 = (ref0 \<in> set acks);
              overlap = filter (\<lambda>a. a \<in> set acks) rest;
              ancestors_only = ref0 # filter (\<lambda>a. a \<notin> set acks) rest;
              acknowledgments_only = filter (\<lambda>a. a \<notin> set anc) (hash_order acks);
              start_index = length ancestors_only;
              end_index = start_index + length overlap;
              references = ancestors_only @ overlap @ acknowledgments_only @
                (if append_ref0 then [ref0] else [])
          in (references, wrap_u8 start_index, wrap_u8 end_index))"

definition block_header_new ::
  "(block_ref list \<Rightarrow> block_ref list) \<Rightarrow> nat \<Rightarrow> round \<Rightarrow> authority_index \<Rightarrow> timestamp_ms
     \<Rightarrow> block_ref list \<Rightarrow> block_ref list \<Rightarrow> commit_ref list \<Rightarrow> digest \<Rightarrow> block_header" where
  "block_header_new hash_order ep r a ts anc acks votes commitment =
     (let (references, start_index, end_index) = compress_references hash_order anc acks
      in \<lparr> bh_epoch = ep, bh_round = r, bh_author = a, bh_timestamp_ms = ts,
           bh_references = references, overlap_start_index = start_index,
           overlap_end_index = end_index, bh_transactions_commitment = commitment,
           bh_commit_votes = votes \<rparr>)"

definition genesis_block_header :: "nat \<Rightarrow> timestamp_ms \<Rightarrow> authority_index \<Rightarrow> block_header" where
  "genesis_block_header ep epoch_start_timestamp_ms a =
     \<lparr> bh_epoch = ep, bh_round = GENESIS_ROUND, bh_author = a,
       bh_timestamp_ms = epoch_start_timestamp_ms, bh_references = [],
       overlap_start_index = 0, overlap_end_index = 0, bh_transactions_commitment = 0,
       bh_commit_votes = [] \<rparr>"

text \<open>\<open>digest_of\<close> stands for the hash of the serialised signed header.\<close>

definition new_verified :: "(block_header \<Rightarrow> digest) \<Rightarrow> block_header \<Rightarrow> verified_block_header" where
  "new_verified digest_of h = block_header.extend h (verified_block_header.fields (digest_of h))"

lemma new_verified_simps [simp]:
  "bh_round (new_verified d h) = bh_round h" "bh_author (new_verified d h) = bh_author h"
  "vbh_digest (new_verified d h) = d h" "bh_references (new_verified d h) = bh_references h"
  by (simp_all add: new_verified_def block_header.defs verified_block_header.defs)

lemma compress_lengths:
  assumes "length anc < 256" "compress_references hash_order anc acks = (refs, s, e)"
  shows "e = length anc \<and> s \<le> e \<and> e \<le> length refs"
proof (cases anc)
  case (Cons ref0 rest)
  have "length (filter (\<lambda>a. a \<notin> set acks) rest) + length (filter (\<lambda>a. a \<in> set acks) rest) = length rest"
    using sum_length_filter_compl [of "\<lambda>a. a \<in> set acks" rest] by simp
  with Cons assms show ?thesis
    by (auto simp: compress_references_def Let_def)
qed (use assms in \<open>auto simp: compress_references_def\<close>)

lemma compress_ancestors:
  assumes "length anc < 256" "compress_references hash_order anc acks = (refs, s, e)"
  shows "take e refs =
    (case anc of [] \<Rightarrow> [] | ref0 # rest \<Rightarrow>
       ref0 # filter (\<lambda>a. a \<notin> set acks) rest @ filter (\<lambda>a. a \<in> set acks) rest)"
proof (cases anc)
  case (Cons ref0 rest)
  let ?A = "ref0 # filter (\<lambda>a. a \<notin> set acks) rest" and ?O = "filter (\<lambda>a. a \<in> set acks) rest"
  have len: "length (?A @ ?O) = length anc"
    using Cons sum_length_filter_compl [of "\<lambda>a. a \<in> set acks" rest] by simp
  from Cons assms(2) obtain us where us: "refs = (?A @ ?O) @ us" and "wrap_u8 (length (?A @ ?O)) = e"
    by (auto simp: compress_references_def Let_def)
  with len assms(1) have "e = length (?A @ ?O)" by simp
  then have "take e refs = ?A @ ?O" unfolding us by simp
  then show ?thesis using Cons by simp
qed (use assms in \<open>auto simp: compress_references_def\<close>)

lemma compress_acknowledgments:
  assumes "length anc < 256" "enumerates hash_order" "compress_references hash_order anc acks = (refs, s, e)"
  shows "set (drop s refs) = set acks"
proof (cases anc)
  case (Cons ref0 rest)
  let ?A = "ref0 # filter (\<lambda>a. a \<notin> set acks) rest"
  let ?R = "filter (\<lambda>a. a \<in> set acks) rest @ filter (\<lambda>a. a \<notin> set anc) (hash_order acks) @
      (if ref0 \<in> set acks then [ref0] else [])"
  have "length ?A \<le> length anc" using Cons length_filter_le [of "\<lambda>a. a \<notin> set acks" rest] by simp
  then have "wrap_u8 (length ?A) = length ?A" using assms(1) by (intro wrap_u8_id) simp
  moreover have "refs = ?A @ ?R" "s = wrap_u8 (length ?A)"
    using Cons assms(3) by (auto simp: compress_references_def Let_def)
  ultimately have "drop s refs = ?R" by simp
  with Cons assms(2) show ?thesis by (auto simp: enumerates_def)
qed (use assms in \<open>auto simp: compress_references_def\<close>)

text \<open>What the accessors of a new header return.\<close>

lemma compression_run:
  assumes len: "length anc < 256" and enum: "enumerates hash_order"
  shows "\<exists>A K. ancestors (block_header_new hash_order ep r a ts anc acks votes tc) = Some A \<and>
    mset A = mset anc \<and> (anc \<noteq> [] \<longrightarrow> hd A = hd anc) \<and>
    acknowledgments (block_header_new hash_order ep r a ts anc acks votes tc) = Some K \<and> set K = set acks"
proof -
  obtain refs s e where c: "compress_references hash_order anc acks = (refs, s, e)"
    using prod_cases3 by blast
  have A: "take e refs = (case anc of [] \<Rightarrow> [] | ref0 # rest \<Rightarrow>
       ref0 # filter (\<lambda>a. a \<notin> set acks) rest @ filter (\<lambda>a. a \<in> set acks) rest)"
    by (rule compress_ancestors [OF len c])
  have "mset (filter (\<lambda>a. a \<notin> set acks) xs @ filter (\<lambda>a. a \<in> set acks) xs) = mset xs" for xs
    by (induction xs) auto
  then have "mset (take e refs) = mset anc" unfolding A by (cases anc) auto
  moreover have "anc \<noteq> [] \<longrightarrow> hd (take e refs) = hd anc" unfolding A by (cases anc) simp_all
  ultimately show ?thesis
    using compress_lengths [OF len c] compress_acknowledgments [OF len enum c]
    by (simp add: ancestors_def acknowledgments_def block_header_new_def c)
qed

text \<open>
  C36: round trip of the reference compression. For fewer than 256 ancestors, the header
  that \<open>block_header_new\<close> builds gives back through its accessors, without panicking, the
  ancestors up to reordering with the first one (the author's own previous block) still
  first, and exactly the set of acknowledgments.
\<close>

theorem compression_roundtrip:
  assumes len: "length anc < 256" and enum: "enumerates hash_order"
  shows "\<exists>A K. ancestors (block_header_new hash_order ep r a ts anc acks votes tc) = Some A \<and>
    mset A = mset anc \<and> (anc \<noteq> [] \<longrightarrow> hd A = hd anc) \<and>
    acknowledgments (block_header_new hash_order ep r a ts anc acks votes tc) = Some K \<and> set K = set acks"
  using compression_run [OF assms] .

theorem compression_roundtrip_witness:
  "\<exists>A K. ancestors (block_header_new remdups 0 2 0 0 [BlockRef 1 0 5, BlockRef 1 1 6, BlockRef 1 2 7]
        [BlockRef 1 1 6, BlockRef 0 3 1] [] 0) = Some A \<and>
    mset A = mset [BlockRef 1 0 5, BlockRef 1 1 6, BlockRef 1 2 7] \<and>
    ([BlockRef 1 0 5, BlockRef 1 1 6, BlockRef 1 2 7] \<noteq> [] \<longrightarrow> hd A = hd [BlockRef 1 0 5, BlockRef 1 1 6, BlockRef 1 2 7]) \<and>
    acknowledgments (block_header_new remdups 0 2 0 0 [BlockRef 1 0 5, BlockRef 1 1 6, BlockRef 1 2 7]
        [BlockRef 1 1 6, BlockRef 0 3 1] [] 0) = Some K \<and> set K = set [BlockRef 1 1 6, BlockRef 0 3 1]"
  by (rule compression_roundtrip) (simp_all add: enumerates_def)

text \<open>A header with given ancestors and no acknowledgments, for the concrete instances of the theorems.\<close>

definition example_header :: "round \<Rightarrow> authority_index \<Rightarrow> digest \<Rightarrow> block_ref list \<Rightarrow> verified_block_header" where
  "example_header r a d ancs =
     \<lparr> bh_epoch = 0, bh_round = r, bh_author = a, bh_timestamp_ms = r, bh_references = ancs,
       overlap_start_index = length ancs, overlap_end_index = length ancs,
       bh_transactions_commitment = 0, bh_commit_votes = [], vbh_digest = d \<rparr>"

lemma example_header_simps [simp]:
  "bh_round (example_header r a d ancs) = r" "bh_author (example_header r a d ancs) = a"
  "reference (example_header r a d ancs) = BlockRef r a d"
  "bh_commit_votes (example_header r a d ancs) = []" "bh_epoch (example_header r a d ancs) = 0"
  "bh_timestamp_ms (example_header r a d ancs) = r"
  "ancestors (example_header r a d ancs) = Some ancs" "acknowledgments (example_header r a d ancs) = Some []"
  by (simp_all add: example_header_def reference_def ancestors_def acknowledgments_def)

end
