(* ===== verification/Threshold_Clock.thy ===== *)
theory Threshold_Clock
  imports Stake_Aggregator Block_Header
begin

section \<open>The threshold clock\<close>

text \<open>
  \<open>crates/starfish/core/src/threshold_clock.rs\<close>: the round at which this authority may
  propose. The wall-clock instant of the last quorum only feeds a latency metric and is
  left out. The main result is that the clock's round is a function of the \<^emph>\<open>set\<close> of
  accepted blocks (\<open>clock_round_spec\<close>): the order in which they arrive does not matter.
\<close>

record threshold_clock =
  tc_aggregator :: stake_aggregator
  tc_round :: round

definition tc_new :: "round \<Rightarrow> threshold_clock" where
  "tc_new r = \<lparr> tc_aggregator = sa_new, tc_round = r \<rparr>"

definition try_advance_round ::
  "committee \<Rightarrow> threshold_clock \<Rightarrow> round \<Rightarrow> bool \<times> threshold_clock" where
  "try_advance_round c tc new_round =
     (if sa_reached_threshold QuorumThreshold (tc_aggregator tc) c
      then (True, tc\<lparr> tc_aggregator := sa_clear (tc_aggregator tc), tc_round := new_round \<rparr>)
      else (False, tc))"

definition tc_add_block_header ::
  "committee \<Rightarrow> threshold_clock \<Rightarrow> block_ref \<Rightarrow> threshold_clock option" where
  "tc_add_block_header c tc b = do {
     tc' \<leftarrow> (if br_round b < tc_round tc then Some tc
             else if tc_round tc < br_round b then do {
               (_, agg) \<leftarrow> sa_add QuorumThreshold (sa_clear (tc_aggregator tc)) (br_author b) c;
               Some (tc\<lparr> tc_aggregator := agg, tc_round := br_round b \<rparr>) }
             else do {
               (_, agg) \<leftarrow> sa_add QuorumThreshold (tc_aggregator tc) (br_author b) c;
               Some (tc\<lparr> tc_aggregator := agg \<rparr>) });
     Some (snd (try_advance_round c tc' (br_round b + 1))) }"

definition tc_add_blocks ::
  "committee \<Rightarrow> threshold_clock \<Rightarrow> block_ref list \<Rightarrow> (round option \<times> threshold_clock) option" where
  "tc_add_blocks c tc bs = do {
     let previous_round = tc_round tc;
     tc' \<leftarrow> foldM (tc_add_block_header c) tc bs;
     Some (if previous_round < tc_round tc' then Some (tc_round tc') else None, tc') }"

lemma tc_new_simps [simp]: "tc_aggregator (tc_new r) = sa_new" "tc_round (tc_new r) = r"
  by (simp_all add: tc_new_def)

subsection \<open>The specification\<close>

definition authors_at :: "block_ref set \<Rightarrow> round \<Rightarrow> authority_index set" where
  "authors_at B r = br_author ` {b \<in> B. br_round b = r}"

definition clock_round_spec :: "committee \<Rightarrow> round \<Rightarrow> block_ref set \<Rightarrow> round" where
  "clock_round_spec c r0 B =
     (let R = {r \<in> br_round ` B. r0 \<le> r}
      in if R = {} then r0
         else if reached_quorum c (stake_sum c (authors_at B (Max R))) then Max R + 1 else Max R)"

definition tc_inv :: "committee \<Rightarrow> round \<Rightarrow> block_ref set \<Rightarrow> threshold_clock \<Rightarrow> bool" where
  "tc_inv c r0 B tc =
     (((\<forall>b \<in> B. br_round b < r0) \<and> tc = tc_new r0) \<or>
      (\<exists>M \<ge> r0. (\<exists>b \<in> B. br_round b = M) \<and> (\<forall>b \<in> B. br_round b \<le> M) \<and>
         (if reached_quorum c (stake_sum c (authors_at B M)) then tc = tc_new (M + 1)
          else tc_round tc = M \<and> sa_ok c (tc_aggregator tc) \<and>
               set (sa_votes (tc_aggregator tc)) = authors_at B M)))"

lemma authors_at_insert:
  "authors_at (insert b B) r = (if br_round b = r then insert (br_author b) (authors_at B r) else authors_at B r)"
  by (auto simp: authors_at_def)

lemma authors_at_empty: "(\<forall>b \<in> B. br_round b \<noteq> r) \<Longrightarrow> authors_at B r = {}"
  by (auto simp: authors_at_def)

lemma authors_at_members: "br_author ` B \<subseteq> members c \<Longrightarrow> authors_at B r \<subseteq> members c"
  by (auto simp: authors_at_def)

lemma below_quorum_new: "committee_ok c \<Longrightarrow> \<not> sa_reached_threshold QuorumThreshold sa_new c"
  using quorum_positive [of c] by (simp add: sa_reached_threshold_def reached_quorum_def)

text \<open>Adding a block of the current round, after the aggregator has been advanced to it.\<close>

lemma tc_count_vote:
  assumes c: "committee_ok c" and ok: "sa_ok c agg" and b: "br_author b \<in> members c"
    and votes: "set (sa_votes agg) = authors_at B (br_round b)"
    and top: "\<forall>x \<in> B. br_round x \<le> br_round b" and r0: "r0 \<le> br_round b"
  shows "\<exists>agg'. sa_add QuorumThreshold agg (br_author b) c =
      Some (reached_quorum c (stake_sum c (authors_at (insert b B) (br_round b))), agg') \<and>
      tc_inv c r0 (insert b B)
        (snd (try_advance_round c \<lparr> tc_aggregator = agg', tc_round = br_round b \<rparr> (br_round b + 1)))"
proof -
  let ?A = "authors_at (insert b B) (br_round b)"
  from sa_add_ok [OF c ok b, of QuorumThreshold] votes obtain agg' where
    agg': "sa_add QuorumThreshold agg (br_author b) c = Some (reached_quorum c (stake_sum c ?A), agg')"
      "sa_ok c agg'" "set (sa_votes agg') = ?A"
    by (auto simp: authors_at_insert)
  then have stake: "sa_stake agg' = stake_sum c ?A" by (simp add: sa_ok_def)
  have "tc_inv c r0 (insert b B)
        (snd (try_advance_round c \<lparr> tc_aggregator = agg', tc_round = br_round b \<rparr> (br_round b + 1)))"
    unfolding tc_inv_def
    using agg'(2,3) stake top r0
    by (intro disjI2 exI [of _ "br_round b"])
      (auto simp: try_advance_round_def sa_reached_threshold_def tc_new_def)
  with agg'(1) show ?thesis by blast
qed

lemma try_advance_below:
  "\<not> sa_reached_threshold QuorumThreshold (tc_aggregator tc) c \<Longrightarrow> try_advance_round c tc r = (False, tc)"
  by (simp add: try_advance_round_def)

lemma tc_inv_cases [consumes 1, case_names fresh collecting]:
  assumes "tc_inv c r0 B tc"
  obtains "tc = tc_new (tc_round tc)" "\<forall>b \<in> B. br_round b < tc_round tc" "r0 \<le> tc_round tc"
  | "sa_ok c (tc_aggregator tc)" "set (sa_votes (tc_aggregator tc)) = authors_at B (tc_round tc)"
    "\<forall>b \<in> B. br_round b \<le> tc_round tc" "r0 \<le> tc_round tc"
    "\<not> reached_quorum c (stake_sum c (authors_at B (tc_round tc)))"
  using assms unfolding tc_inv_def
proof (elim disjE exE conjE)
  fix M assume M: "r0 \<le> M" "\<forall>b \<in> B. br_round b \<le> M"
    "if reached_quorum c (stake_sum c (authors_at B M)) then tc = tc_new (M + 1)
     else tc_round tc = M \<and> sa_ok c (tc_aggregator tc) \<and> set (sa_votes (tc_aggregator tc)) = authors_at B M"
  show thesis
  proof (cases "reached_quorum c (stake_sum c (authors_at B M))")
    case True
    with M that(1) show ?thesis by (simp add: less_Suc_eq_le)
  next
    case False
    with M that(2) show ?thesis by simp
  qed
qed (use that(1) in auto)

lemma tc_inv_below_quorum:
  assumes "committee_ok c" "tc_inv c r0 B tc"
  shows "\<not> sa_reached_threshold QuorumThreshold (tc_aggregator tc) c"
  using assms(2)
proof (cases rule: tc_inv_cases)
  case fresh
  then show ?thesis using below_quorum_new [OF assms(1)] by (metis tc_new_simps(1))
qed (auto simp: sa_reached_threshold_def sa_ok_def)

text \<open>A block below the clock's round changes nothing.\<close>

lemma tc_inv_stale:
  assumes c: "committee_ok c" and inv: "tc_inv c r0 B tc" and mem: "br_author ` insert b B \<subseteq> members c"
    and stale: "br_round b < tc_round tc"
  shows "tc_inv c r0 (insert b B) tc"
proof (cases "(\<forall>b \<in> B. br_round b < r0) \<and> tc = tc_new r0")
  case True
  with stale show ?thesis by (auto simp: tc_inv_def tc_new_def)
next
  case False
  with inv obtain M where M: "r0 \<le> M" "\<exists>b \<in> B. br_round b = M" "\<forall>b \<in> B. br_round b \<le> M"
    "if reached_quorum c (stake_sum c (authors_at B M)) then tc = tc_new (M + 1)
     else tc_round tc = M \<and> sa_ok c (tc_aggregator tc) \<and> set (sa_votes (tc_aggregator tc)) = authors_at B M"
    unfolding tc_inv_def by blast
  show ?thesis
  proof (cases "reached_quorum c (stake_sum c (authors_at B M))")
    case True
    have "stake_sum c (authors_at B M) \<le> stake_sum c (authors_at (insert b B) M)"
      by (rule stake_sum_mono [OF _ authors_at_members [OF mem]]) (auto simp: authors_at_def)
    with True have "reached_quorum c (stake_sum c (authors_at (insert b B) M))"
      by (simp add: reached_quorum_def)
    moreover have "br_round b \<le> M" using stale True M(4) by (simp add: tc_new_def)
    ultimately show ?thesis
      using M True unfolding tc_inv_def by (intro disjI2 exI [of _ M]) auto
  next
    case False
    with M(4) stale have "br_round b < M" by simp
    with M False show ?thesis
      unfolding tc_inv_def by (intro disjI2 exI [of _ M]) (auto simp: authors_at_insert)
  qed
qed

lemma tc_inv_step:
  assumes c: "committee_ok c" and inv: "tc_inv c r0 B tc" and mem: "br_author ` insert b B \<subseteq> members c"
  shows "\<exists>tc'. tc_add_block_header c tc b = Some tc' \<and> tc_inv c r0 (insert b B) tc'"
proof -
  have b: "br_author b \<in> members c" using mem by simp
  consider (stale) "br_round b < tc_round tc" | (ahead) "tc_round tc < br_round b"
    | (current) "br_round b = tc_round tc" by linarith
  then show ?thesis
  proof cases
    case stale
    with tc_inv_stale [OF c inv mem] tc_inv_below_quorum [OF c inv] show ?thesis
      by (simp add: tc_add_block_header_def try_advance_below)
  next
    case ahead
    have top: "\<forall>x \<in> B. br_round x < br_round b" and r0: "r0 \<le> br_round b"
      using ahead by (cases rule: tc_inv_cases [OF inv]; force)+
    then have "authors_at B (br_round b) = {}" by (intro authors_at_empty) auto
    with tc_count_vote [OF c sa_ok_new b, of B r0] top r0 ahead show ?thesis
      by (cases tc) (auto simp: tc_add_block_header_def less_imp_le)
  next
    case current
    have votes: "set (sa_votes (tc_aggregator tc)) = authors_at B (br_round b)"
      "sa_ok c (tc_aggregator tc)" "\<forall>x \<in> B. br_round x \<le> br_round b" "r0 \<le> br_round b"
      using current authors_at_empty [of B "br_round b"] tc_new_simps(1) [of "tc_round tc"]
      by (cases rule: tc_inv_cases [OF inv]; force)+
    from tc_count_vote [OF c votes(2) b votes(1,3,4)] current show ?thesis
      by (cases tc) (auto simp: tc_add_block_header_def)
  qed
qed

lemma tc_run_inv:
  assumes c: "committee_ok c" and mem: "br_author ` set bs \<subseteq> members c"
  shows "\<exists>tc. foldM (tc_add_block_header c) (tc_new r0) bs = Some tc \<and> tc_inv c r0 (set bs) tc"
  using mem
proof (induction bs rule: rev_induct)
  case Nil
  then show ?case by (simp add: tc_inv_def)
next
  case (snoc b bs)
  then obtain tc where "foldM (tc_add_block_header c) (tc_new r0) bs = Some tc" "tc_inv c r0 (set bs) tc"
    by auto
  with tc_inv_step [OF c, of r0 "set bs" tc b] snoc.prems show ?case
    by (auto simp: foldM_append)
qed

lemma tc_inv_round:
  assumes "tc_inv c r0 B tc" "finite B"
  shows "tc_round tc = clock_round_spec c r0 B"
proof (cases "(\<forall>b \<in> B. br_round b < r0) \<and> tc = tc_new r0")
  case True
  then have "{r \<in> br_round ` B. r0 \<le> r} = {}" by auto
  with True show ?thesis by (simp add: clock_round_spec_def tc_new_def)
next
  case False
  with assms obtain M where M: "r0 \<le> M" "\<exists>b \<in> B. br_round b = M" "\<forall>b \<in> B. br_round b \<le> M"
    "if reached_quorum c (stake_sum c (authors_at B M)) then tc = tc_new (M + 1) else tc_round tc = M"
    unfolding tc_inv_def by meson
  let ?R = "{r \<in> br_round ` B. r0 \<le> r}"
  have "Max ?R = M" using M assms(2) by (intro Max_eqI) auto
  moreover have "?R \<noteq> {}" using M by auto
  ultimately show ?thesis using M(4) by (auto simp: clock_round_spec_def Let_def tc_new_def)
qed

text \<open>
  C24: whatever the order (and the repetitions) in which headers of committee members are
  added, the clock never panics and its round is the specified function of the set of
  headers: the highest round seen, or the next one when the authors at that round are a
  quorum. The round reported by \<open>tc_add_blocks\<close> is the new one exactly when it advanced.
\<close>

theorem clock_follows_spec:
  assumes c: "committee_ok c" and mem: "br_author ` set bs \<subseteq> members c"
  shows "\<exists>tc. tc_add_blocks c (tc_new r0) bs =
      Some (if r0 < clock_round_spec c r0 (set bs) then Some (clock_round_spec c r0 (set bs)) else None, tc) \<and>
    tc_round tc = clock_round_spec c r0 (set bs)"
proof -
  from tc_run_inv [OF c mem] obtain tc where
    tc: "foldM (tc_add_block_header c) (tc_new r0) bs = Some tc" "tc_inv c r0 (set bs) tc" by blast
  from tc_inv_round [OF tc(2)] have "tc_round tc = clock_round_spec c r0 (set bs)" by simp
  with tc(1) show ?thesis by (simp add: tc_add_blocks_def)
qed

theorem clock_follows_spec_witness:
  "\<exists>tc. tc_add_blocks (example_committee 4) (tc_new 1) [BlockRef 1 0 7, BlockRef 1 2 8, BlockRef 1 1 9] =
      Some (if 1 < clock_round_spec (example_committee 4) 1 (set [BlockRef 1 0 7, BlockRef 1 2 8, BlockRef 1 1 9])
        then Some (clock_round_spec (example_committee 4) 1 (set [BlockRef 1 0 7, BlockRef 1 2 8, BlockRef 1 1 9])) else None, tc) \<and>
    tc_round tc = clock_round_spec (example_committee 4) 1 (set [BlockRef 1 0 7, BlockRef 1 2 8, BlockRef 1 1 9])"
  by (rule clock_follows_spec) (auto simp: example_committee_ok)

end
