(* ===== verification/Commit.thy ===== *)
theory Commit
  imports Block_Header "HOL-Library.Product_Lexorder"
begin

section \<open>Commits\<close>

text \<open>
  \<open>crates/starfish/core/src/commit.rs\<close>: the two versions of a commit, the sub-dags built
  from one, the decisions on a leader slot and the range of commit indices
  (and \<open>ReputationScores\<close> of \<open>leader_scoring.rs\<close>, which \<open>CommitInfo\<close> contains).
  A commit's digest is the hash of its serialisation: it is a parameter \<open>digest_of\<close>.
\<close>

type_synonym commit_index = nat

definition GENESIS_COMMIT_INDEX :: commit_index where
  "GENESIS_COMMIT_INDEX = 0"

definition WAVE_LENGTH :: round where
  "WAVE_LENGTH = 3"

record commit_v1 =
  c1_index :: commit_index
  c1_previous_digest :: digest
  c1_timestamp_ms :: timestamp_ms
  c1_leader :: block_ref
  c1_blocks :: "block_ref list"
  c1_committed_transactions :: "block_ref list"

record commit_v2 =
  c2_index :: commit_index
  c2_previous_digest :: digest
  c2_timestamp_ms :: timestamp_ms
  c2_leader :: block_ref
  c2_block_headers :: "block_ref list"
  c2_committed_transactions :: "transaction_ref list"
  c2_reputation_scores_desc :: "(authority_index \<times> nat) list"

datatype commit = CommitV1 commit_v1 | CommitV2 commit_v2

text \<open>
  The two matches of \<open>Commit::new\<close> on the kind of a committed transaction reference; the wrong kind panics.
\<close>

fun expect_transaction_ref :: "generic_transaction_ref \<Rightarrow> transaction_ref option" where
  "expect_transaction_ref (GTransactionRef t) = Some t"
| "expect_transaction_ref (GBlockRef b) = None"

fun expect_block_ref :: "generic_transaction_ref \<Rightarrow> block_ref option" where
  "expect_block_ref (GBlockRef b) = Some b"
| "expect_block_ref (GTransactionRef t) = None"

definition Commit_new ::
  "bool \<Rightarrow> commit_index \<Rightarrow> digest \<Rightarrow> timestamp_ms \<Rightarrow> block_ref \<Rightarrow> block_ref list
     \<Rightarrow> generic_transaction_ref list \<Rightarrow> (authority_index \<times> nat) list \<Rightarrow> commit option" where
  "Commit_new fast_commit_sync index previous_digest ts leader blocks committed scores_desc =
     (if fast_commit_sync then do {
        refs \<leftarrow> mapM expect_transaction_ref committed;
        Some (CommitV2 \<lparr> c2_index = index, c2_previous_digest = previous_digest,
          c2_timestamp_ms = ts, c2_leader = leader, c2_block_headers = blocks,
          c2_committed_transactions = refs, c2_reputation_scores_desc = scores_desc \<rparr>) }
      else do {
        refs \<leftarrow> mapM expect_block_ref committed;
        Some (CommitV1 \<lparr> c1_index = index, c1_previous_digest = previous_digest,
          c1_timestamp_ms = ts, c1_leader = leader, c1_blocks = blocks,
          c1_committed_transactions = refs \<rparr>) })"

fun commit_index_of :: "commit \<Rightarrow> commit_index" where
  "commit_index_of (CommitV1 c) = c1_index c"
| "commit_index_of (CommitV2 c) = c2_index c"

fun commit_previous_digest :: "commit \<Rightarrow> digest" where
  "commit_previous_digest (CommitV1 c) = c1_previous_digest c"
| "commit_previous_digest (CommitV2 c) = c2_previous_digest c"

fun commit_timestamp_ms :: "commit \<Rightarrow> timestamp_ms" where
  "commit_timestamp_ms (CommitV1 c) = c1_timestamp_ms c"
| "commit_timestamp_ms (CommitV2 c) = c2_timestamp_ms c"

fun commit_leader :: "commit \<Rightarrow> block_ref" where
  "commit_leader (CommitV1 c) = c1_leader c"
| "commit_leader (CommitV2 c) = c2_leader c"

definition commit_round :: "commit \<Rightarrow> round" where
  "commit_round c = br_round (commit_leader c)"

fun commit_block_headers :: "commit \<Rightarrow> block_ref list" where
  "commit_block_headers (CommitV1 c) = c1_blocks c"
| "commit_block_headers (CommitV2 c) = c2_block_headers c"

fun commit_committed_transactions :: "commit \<Rightarrow> generic_transaction_ref list" where
  "commit_committed_transactions (CommitV1 c) = map GBlockRef (c1_committed_transactions c)"
| "commit_committed_transactions (CommitV2 c) = map GTransactionRef (c2_committed_transactions c)"

fun commit_reputation_scores :: "commit \<Rightarrow> (authority_index \<times> nat) list" where
  "commit_reputation_scores (CommitV1 c) = []"
| "commit_reputation_scores (CommitV2 c) = c2_reputation_scores_desc c"

lemma expect_transaction_refs: "mapM expect_transaction_ref xs = Some ys \<Longrightarrow> map GTransactionRef ys = xs"
  by (induction xs arbitrary: ys)
    (auto simp: Option.bind_eq_Some_conv elim!: expect_transaction_ref.elims)

lemma expect_block_refs: "mapM expect_block_ref xs = Some ys \<Longrightarrow> map GBlockRef ys = xs"
  by (induction xs arbitrary: ys) (auto simp: Option.bind_eq_Some_conv elim!: expect_block_ref.elims)

lemma Commit_new_accessors:
  assumes "Commit_new fast i pd ts l bs txs rs = Some c"
  shows "commit_index_of c = i" "commit_previous_digest c = pd" "commit_timestamp_ms c = ts"
    "commit_leader c = l" "commit_block_headers c = bs" "commit_committed_transactions c = txs"
    "commit_reputation_scores c = (if fast then rs else [])"
  using assms
  by (auto simp: Commit_new_def Option.bind_eq_Some_conv expect_transaction_refs expect_block_refs
      split: if_splits)

text \<open>Under the flag every committed transaction is a \<open>TransactionRef\<close>, otherwise a \<open>BlockRef\<close>.\<close>

definition commit_ref_kind :: "bool \<Rightarrow> generic_transaction_ref \<Rightarrow> bool" where
  "commit_ref_kind fast g = (case g of GTransactionRef _ \<Rightarrow> fast | GBlockRef _ \<Rightarrow> \<not> fast)"

lemma commit_ref_kind_expect:
  "commit_ref_kind True g \<Longrightarrow> \<exists>t. expect_transaction_ref g = Some t"
  "commit_ref_kind False g \<Longrightarrow> \<exists>b. expect_block_ref g = Some b"
  by (cases g; simp add: commit_ref_kind_def)+

lemma Commit_new_total:
  assumes "\<forall>g \<in> set txs. commit_ref_kind fast g"
  shows "\<exists>c. Commit_new fast i pd ts l bs txs rs = Some c"
proof -
  have "fast \<Longrightarrow> \<exists>rs. mapM expect_transaction_ref txs = Some rs"
    using assms by (intro mapM_total) (auto intro: commit_ref_kind_expect)
  moreover have "\<not> fast \<Longrightarrow> \<exists>rs. mapM expect_block_ref txs = Some rs"
    using assms by (intro mapM_total) (auto intro: commit_ref_kind_expect)
  ultimately show ?thesis by (cases fast) (auto simp: Commit_new_def)
qed

subsection \<open>Trusted commits and sub-dags\<close>

record trusted_commit =
  tcm_inner :: commit
  tcm_digest :: digest

definition new_trusted :: "(commit \<Rightarrow> digest) \<Rightarrow> commit \<Rightarrow> trusted_commit" where
  "new_trusted digest_of c = \<lparr> tcm_inner = c, tcm_digest = digest_of c \<rparr>"

definition tcm_reference :: "trusted_commit \<Rightarrow> commit_ref" where
  "tcm_reference t = CommitRef (commit_index_of (tcm_inner t)) (tcm_digest t)"

record certified_commit =
  cc_commit :: trusted_commit
  cc_block_headers :: "verified_block_header list"
  cc_transactions :: "verified_transactions list"

record sub_dag_base =
  sd_leader :: block_ref
  sd_headers :: "verified_block_header list"
  sd_committed_header_refs :: "block_ref list"
  sd_timestamp_ms :: timestamp_ms
  sd_commit_ref :: commit_ref
  sd_reputation_scores_desc :: "(authority_index \<times> nat) list"

record committed_sub_dag = sub_dag_base +
  csd_transactions :: "verified_transactions list"

record pending_sub_dag = sub_dag_base +
  psd_committed_transaction_refs :: "generic_transaction_ref list"

definition pending_sub_dag_new ::
  "block_ref \<Rightarrow> verified_block_header list \<Rightarrow> block_ref list \<Rightarrow> generic_transaction_ref list
     \<Rightarrow> timestamp_ms \<Rightarrow> commit_ref \<Rightarrow> (authority_index \<times> nat) list \<Rightarrow> pending_sub_dag" where
  "pending_sub_dag_new leader headers refs txs ts cref scores =
     \<lparr> sd_leader = leader, sd_headers = headers, sd_committed_header_refs = refs,
       sd_timestamp_ms = ts, sd_commit_ref = cref, sd_reputation_scores_desc = scores,
       psd_committed_transaction_refs = txs \<rparr>"

text \<open>
  The acknowledgments of a sub-dag, per slot of the acknowledging header. The inner
  \<open>HashSet\<close> is a set here, and so is the vector collected from it, whose order is the
  hash set's.
\<close>

definition transaction_acknowledgments ::
  "'a sub_dag_base_scheme \<Rightarrow> (round \<times> authority_index \<Rightarrow> block_ref set option) option" where
  "transaction_acknowledgments sd =
     foldM (\<lambda>acc h. do {
         acks \<leftarrow> acknowledgments h;
         let k = (bh_round h, bh_author h);
         Some (acc(k \<mapsto> (case acc k of None \<Rightarrow> {} | Some s \<Rightarrow> s) \<union> set acks)) })
       Map.empty (sd_headers sd)"

definition sort_sub_dag_blocks :: "verified_block_header list \<Rightarrow> verified_block_header list" where
  "sort_sub_dag_blocks = sort_key (\<lambda>h. (bh_round h, bh_author h))"

text \<open>
  \<open>load_pending_subdag_from_store\<close>: \<open>read\<close> is the store's \<open>read_verified_block_headers\<close>,
  \<open>None\<close> a read error. Every header of the commit must be there, and the leader among them.
\<close>

definition load_pending_subdag_from_store ::
  "(block_ref list \<Rightarrow> verified_block_header option list option) \<Rightarrow> trusted_commit
     \<Rightarrow> (authority_index \<times> nat) list \<Rightarrow> pending_sub_dag option" where
  "load_pending_subdag_from_store read commit scores_desc = do {
     let c = tcm_inner commit;
     opts \<leftarrow> read (commit_block_headers c);
     headers \<leftarrow> mapM (\<lambda>h. h) opts;
     leader \<leftarrow> find (\<lambda>h. reference h = commit_leader c) (rev headers);
     Some (pending_sub_dag_new (reference leader) headers (commit_block_headers c)
       (commit_committed_transactions c) (commit_timestamp_ms c) (tcm_reference commit) scores_desc) }"

subsection \<open>Leader decisions\<close>

datatype decision = Direct | Indirect

datatype leader_status = Commit verified_block_header | Skip slot | Undecided slot

datatype decided_leader = DCommit verified_block_header | DSkip slot

fun ls_round :: "leader_status \<Rightarrow> round" where
  "ls_round (Commit b) = bh_round b"
| "ls_round (Skip s) = slot_round s"
| "ls_round (Undecided s) = slot_round s"

fun is_decided :: "leader_status \<Rightarrow> bool" where
  "is_decided (Commit _) = True"
| "is_decided (Skip _) = True"
| "is_decided (Undecided _) = False"

fun into_decided_leader :: "leader_status \<Rightarrow> decided_leader option" where
  "into_decided_leader (Commit b) = Some (DCommit b)"
| "into_decided_leader (Skip s) = Some (DSkip s)"
| "into_decided_leader (Undecided _) = None"

fun decided_slot :: "decided_leader \<Rightarrow> slot" where
  "decided_slot (DCommit b) = slot_of (reference b)"
| "decided_slot (DSkip s) = s"

fun into_committed_block :: "decided_leader \<Rightarrow> verified_block_header option" where
  "into_committed_block (DCommit b) = Some b"
| "into_committed_block (DSkip _) = None"

subsection \<open>Commit ranges\<close>

text \<open>The representation is the half-open range \<open>start..end\<close>; the interface is inclusive.\<close>

datatype commit_range = CommitRange (range_lo: commit_index) (range_hi: commit_index)

definition commit_range_new :: "commit_index \<Rightarrow> commit_index \<Rightarrow> commit_range" where
  "commit_range_new s e = CommitRange s (sat_add_u32 e 1)"

definition range_start :: "commit_range \<Rightarrow> commit_index" where
  "range_start r = range_lo r"

definition range_end :: "commit_range \<Rightarrow> commit_index" where
  "range_end r = range_hi r - 1"

definition extend_to :: "commit_range \<Rightarrow> commit_index \<Rightarrow> commit_range option" where
  "extend_to r other = do {
     let new_end = sat_add_u32 other 1;
     assert_that (range_hi r \<le> new_end);
     Some (CommitRange (range_lo r) new_end) }"

definition range_size :: "commit_range \<Rightarrow> nat option" where
  "range_size r = (if range_lo r \<le> range_hi r then Some (range_hi r - range_lo r) else None)"

definition is_equal_size :: "commit_range \<Rightarrow> commit_range \<Rightarrow> bool option" where
  "is_equal_size r other = do { n \<leftarrow> range_size r; m \<leftarrow> range_size other; Some (n = m) }"

definition is_next_range :: "commit_range \<Rightarrow> commit_range \<Rightarrow> bool" where
  "is_next_range r other = (range_hi r = range_lo other)"

record reputation_scores =
  scores_per_authority :: "nat list"
  rs_commit_range :: commit_range

record commit_info =
  ci_committed_rounds :: "round list"
  ci_reputation_scores :: reputation_scores

text \<open>
  A \<open>CommitRange\<close> built from inclusive bounds below the largest index gives them back;
  extending it to a later index keeps the start, moves the end there and never fails its
  assertion; its size counts the indices; and the next range starts right after its end.
\<close>

lemma commit_range_bounds:
  assumes "s \<le> e" "e \<le> e'" "e' < u32_max"
  shows "range_start (commit_range_new s e) = s \<and> range_end (commit_range_new s e) = e \<and>
    range_size (commit_range_new s e) = Some (card {s..e}) \<and>
    extend_to (commit_range_new s e) e' = Some (commit_range_new s e') \<and>
    is_next_range (commit_range_new s e) (commit_range_new (e + 1) e')"
  using assms
  by (simp add: range_start_def range_end_def range_size_def commit_range_new_def extend_to_def is_next_range_def sat_add_u32_def)

end
