(* ===== verification/Mem_Store.thy ===== *)
theory Mem_Store
  imports Commit
begin

section \<open>The store\<close>

text \<open>
  \<open>crates/starfish/core/src/storage/mod.rs\<close> (the trait \<open>Store\<close>, its batch and its provided
  methods) and \<open>storage/mem_store.rs\<close> (its in-memory implementation, whose tables are those
  of the RocksDB one). A key \<open>(round, author, digest)\<close> of a table is a \<open>BlockRef\<close> (or a
  \<open>TransactionRef\<close>), which has the same order. Serialised bytes are not kept, and
  \<open>scan_last_blocks_by_author\<close>, which only tests call, is left out.
\<close>

datatype store_error = InconsistentTransactionRefVariants

record write_batch =
  wb_transactions :: "verified_transactions list"
  wb_block_headers :: "verified_block_header list"
  wb_commits :: "trusted_commit list"
  wb_commit_info :: "(commit_ref \<times> commit_info) list"
  wb_voting_block_headers :: "verified_block_header list"
  wb_fast_commit_sync_flag :: "bool option"

record mem_store =
  ms_transactions :: "(block_ref, verified_transactions) btreemap"
  ms_transactions_by_tx_refs :: "(transaction_ref, verified_transactions) btreemap"
  ms_block_headers :: "(block_ref, verified_block_header) btreemap"
  ms_digests_by_authorities :: "(authority_index \<times> round \<times> digest) btreeset"
  ms_transaction_commitments_by_authorities :: "(authority_index \<times> round \<times> digest) btreeset"
  ms_commits :: "(commit_index \<times> digest, trusted_commit) btreemap"
  ms_commit_votes :: "(commit_index \<times> digest \<times> block_ref) btreeset"
  ms_commit_info :: "(commit_index \<times> digest, commit_info) btreemap"
  ms_voting_block_headers :: "(block_ref, verified_block_header) btreemap"
  ms_fast_sync_ongoing :: bool

definition mem_store_new :: mem_store where
  "mem_store_new = \<lparr> ms_transactions = [], ms_transactions_by_tx_refs = [], ms_block_headers = [],
     ms_digests_by_authorities = [], ms_transaction_commitments_by_authorities = [],
     ms_commits = [], ms_commit_votes = [], ms_commit_info = [], ms_voting_block_headers = [],
     ms_fast_sync_ongoing = False \<rparr>"

subsection \<open>Writing\<close>

definition add_votes ::
  "verified_block_header \<Rightarrow> (commit_index \<times> digest \<times> block_ref) btreeset
     \<Rightarrow> (commit_index \<times> digest \<times> block_ref) btreeset" where
  "add_votes h votes =
     bs_extend votes (map (\<lambda>v. (cr_index v, cr_digest v, reference h)) (bh_commit_votes h))"

definition write_block_header :: "verified_block_header \<Rightarrow> mem_store \<Rightarrow> mem_store" where
  "write_block_header h s = s\<lparr>
     ms_block_headers := bm_insert (reference h) h (ms_block_headers s),
     ms_digests_by_authorities :=
       bs_insert (bh_author h, bh_round h, vbh_digest h) (ms_digests_by_authorities s),
     ms_commit_votes := add_votes h (ms_commit_votes s) \<rparr>"

definition write_transactions :: "bool \<Rightarrow> mem_store \<Rightarrow> verified_transactions \<Rightarrow> mem_store option" where
  "write_transactions fast s t =
     (let tr = vt_transaction_ref t in
      if fast then Some (s\<lparr>
        ms_transactions_by_tx_refs := bm_insert tr t (ms_transactions_by_tx_refs s),
        ms_transaction_commitments_by_authorities :=
          bs_insert (tr_author tr, tr_round tr, tr_commitment tr)
            (ms_transaction_commitments_by_authorities s) \<rparr>)
      else do {
        br \<leftarrow> vt_block_ref t;
        Some (s\<lparr> ms_transactions := bm_insert br t (ms_transactions s) \<rparr>) })"

definition write_commit :: "trusted_commit \<Rightarrow> mem_store \<Rightarrow> mem_store" where
  "write_commit c s = s\<lparr> ms_commits :=
     bm_insert (commit_index_of (tcm_inner c), tcm_digest c) c (ms_commits s) \<rparr>"

definition write_commit_info :: "commit_ref \<times> commit_info \<Rightarrow> mem_store \<Rightarrow> mem_store" where
  "write_commit_info ci s = s\<lparr> ms_commit_info :=
     bm_insert (cr_index (fst ci), cr_digest (fst ci)) (snd ci) (ms_commit_info s) \<rparr>"

definition write_voting_header :: "verified_block_header \<Rightarrow> mem_store \<Rightarrow> mem_store" where
  "write_voting_header h s = s\<lparr>
     ms_commit_votes := add_votes h (ms_commit_votes s),
     ms_voting_block_headers := bm_insert (reference h) h (ms_voting_block_headers s) \<rparr>"

definition store_write :: "bool \<Rightarrow> write_batch \<Rightarrow> mem_store \<Rightarrow> mem_store option" where
  "store_write fast wb s = do {
     let s1 = fold write_block_header (wb_block_headers wb) s;
     s2 \<leftarrow> foldM (write_transactions fast) s1 (wb_transactions wb);
     let s3 = fold write_commit (wb_commits wb) s2;
     let s4 = fold write_commit_info (wb_commit_info wb) s3;
     let s5 = fold write_voting_header (wb_voting_block_headers wb) s4;
     Some (case wb_fast_commit_sync_flag wb of
         Some flag \<Rightarrow> s5\<lparr> ms_fast_sync_ongoing := flag \<rparr> | None \<Rightarrow> s5) }"

subsection \<open>Reading\<close>

fun same_variant :: "generic_transaction_ref \<Rightarrow> generic_transaction_ref \<Rightarrow> bool" where
  "same_variant (GBlockRef _) (GBlockRef _) = True"
| "same_variant (GTransactionRef _) (GTransactionRef _) = True"
| "same_variant _ _ = False"

definition check_ref_consistency :: "generic_transaction_ref list \<Rightarrow> bool" where
  "check_ref_consistency refs = (case refs of [] \<Rightarrow> True | r # _ \<Rightarrow> list_all (\<lambda>x. same_variant x r) refs)"

fun stored_transactions :: "mem_store \<Rightarrow> generic_transaction_ref \<Rightarrow> verified_transactions option" where
  "stored_transactions s (GBlockRef b) = bm_get (ms_transactions s) b"
| "stored_transactions s (GTransactionRef t) = bm_get (ms_transactions_by_tx_refs s) t"

definition store_read_verified_transactions ::
  "mem_store \<Rightarrow> generic_transaction_ref list \<Rightarrow> store_error + verified_transactions option list" where
  "store_read_verified_transactions s refs =
     (if check_ref_consistency refs then Inr (map (stored_transactions s) refs)
      else Inl InconsistentTransactionRefVariants)"

definition store_contains_transactions ::
  "mem_store \<Rightarrow> generic_transaction_ref list \<Rightarrow> store_error + bool list" where
  "store_contains_transactions s refs =
     (if check_ref_consistency refs then Inr (map (\<lambda>r. stored_transactions s r \<noteq> None) refs)
      else Inl InconsistentTransactionRefVariants)"

definition store_read_verified_block_headers ::
  "mem_store \<Rightarrow> block_ref list \<Rightarrow> verified_block_header option list" where
  "store_read_verified_block_headers s refs = map (bm_get (ms_block_headers s)) refs"

definition store_read_voting_block_headers ::
  "mem_store \<Rightarrow> block_ref list \<Rightarrow> verified_block_header option list" where
  "store_read_voting_block_headers s refs = map (bm_get (ms_voting_block_headers s)) refs"

definition store_contains_block_headers :: "mem_store \<Rightarrow> block_ref list \<Rightarrow> bool list" where
  "store_contains_block_headers s refs = map (bm_contains_key (ms_block_headers s)) refs"

definition store_read_blocks ::
  "bool \<Rightarrow> mem_store \<Rightarrow> block_ref list \<Rightarrow> store_error + verified_block option list" where
  "store_read_blocks fast s refs =
     (let headers = store_read_verified_block_headers s refs;
          tx_refs = (if fast
            then map (\<lambda>vh. GTransactionRef (case vh of None \<Rightarrow> TransactionRef 0 0 0
                        | Some h \<Rightarrow> header_transaction_ref h)) headers
            else map GBlockRef refs)
      in case store_read_verified_transactions s tx_refs of
           Inl e \<Rightarrow> Inl e
         | Inr txs \<Rightarrow> Inr (map2 (\<lambda>h t. case (h, t) of
               (Some hdr, Some tx) \<Rightarrow> Some \<lparr> vb_header = hdr, vb_transactions = tx \<rparr>
             | _ \<Rightarrow> None) headers txs))"

definition store_contains_block_at_slot :: "mem_store \<Rightarrow> slot \<Rightarrow> bool" where
  "store_contains_block_at_slot s sl =
     (bs_range_incl (slot_authority sl, slot_round sl, 0) (slot_authority sl, slot_round sl, -1)
        (ms_digests_by_authorities s) \<noteq> [])"

definition store_scan_block_references_by_author ::
  "mem_store \<Rightarrow> authority_index \<Rightarrow> round \<Rightarrow> block_ref list" where
  "store_scan_block_references_by_author s a start_round =
     map (\<lambda>(a, r, d). BlockRef r a d)
       (bs_range_incl (a, start_round, 0) (a, u32_max, -1) (ms_digests_by_authorities s))"

definition store_scan_transaction_references_by_author ::
  "mem_store \<Rightarrow> authority_index \<Rightarrow> round \<Rightarrow> transaction_ref list" where
  "store_scan_transaction_references_by_author s a start_round =
     map (\<lambda>(a, r, d). TransactionRef r a d)
       (bs_range_incl (a, start_round, 0) (a, u32_max, -1) (ms_transaction_commitments_by_authorities s))"

definition store_scan_transactions_by_author ::
  "bool \<Rightarrow> mem_store \<Rightarrow> authority_index \<Rightarrow> round \<Rightarrow> store_error + verified_transactions list" where
  "store_scan_transactions_by_author fast s a start_round =
     (let refs = (if fast then map GTransactionRef (store_scan_transaction_references_by_author s a start_round)
                  else map GBlockRef (store_scan_block_references_by_author s a start_round))
      in map_sum id (\<lambda>ts. List.map_filter (\<lambda>t. t) ts) (store_read_verified_transactions s refs))"

definition store_scan_block_headers_by_author ::
  "mem_store \<Rightarrow> authority_index \<Rightarrow> round \<Rightarrow> verified_block_header list option" where
  "store_scan_block_headers_by_author s a start_round =
     mapM (\<lambda>h. h) (store_read_verified_block_headers s (store_scan_block_references_by_author s a start_round))"

definition store_scan_blocks_by_author ::
  "bool \<Rightarrow> mem_store \<Rightarrow> authority_index \<Rightarrow> round \<Rightarrow> (store_error + verified_block list) option" where
  "store_scan_blocks_by_author fast s a start_round =
     (case store_read_blocks fast s (store_scan_block_references_by_author s a start_round) of
        Inl e \<Rightarrow> Some (Inl e)
      | Inr blocks \<Rightarrow> map_option Inr (mapM (\<lambda>b. b) blocks))"

definition store_read_last_commit :: "mem_store \<Rightarrow> trusted_commit option" where
  "store_read_last_commit s = (if ms_commits s = [] then None else Some (snd (last (ms_commits s))))"

definition store_scan_commits :: "mem_store \<Rightarrow> commit_range \<Rightarrow> trusted_commit list" where
  "store_scan_commits s r =
     (if range_end r < range_start r then []
      else map snd (bm_range_incl (range_start r, 0) (range_end r, -1) (ms_commits s)))"

definition block_ref_MIN :: block_ref where
  "block_ref_MIN = BlockRef 0 0 0"

definition block_ref_MAX :: block_ref where
  "block_ref_MAX = BlockRef u32_max 255 (-1)"

definition store_read_commit_votes :: "mem_store \<Rightarrow> commit_index \<Rightarrow> block_ref list" where
  "store_read_commit_votes s i =
     map (\<lambda>(i, d, b). b)
       (bs_range_incl (i, 0, block_ref_MIN) (i, -1, block_ref_MAX) (ms_commit_votes s))"

definition store_read_highest_commit_index_with_votes ::
  "mem_store \<Rightarrow> commit_index \<Rightarrow> commit_index option" where
  "store_read_highest_commit_index_with_votes s up_to =
     map_option fst (bs_last (bs_range_incl (0, 0, block_ref_MIN) (up_to, -1, block_ref_MAX) (ms_commit_votes s)))"

definition store_read_lowest_commit_index_with_votes ::
  "mem_store \<Rightarrow> commit_index \<Rightarrow> commit_index option" where
  "store_read_lowest_commit_index_with_votes s from_index =
     (case bs_split_off (from_index, 0, block_ref_MIN) (ms_commit_votes s) of
        [] \<Rightarrow> None | (i, _) # _ \<Rightarrow> Some i)"

definition store_read_last_commit_info :: "mem_store \<Rightarrow> (commit_ref \<times> commit_info) option" where
  "store_read_last_commit_info s =
     (if ms_commit_info s = [] then None
      else let ((i, d), info) = last (ms_commit_info s) in Some (CommitRef i d, info))"

definition store_read_fast_sync_ongoing :: "mem_store \<Rightarrow> bool" where
  "store_read_fast_sync_ongoing s = ms_fast_sync_ongoing s"

subsection \<open>Well-formed stores\<close>

text \<open>
  Every table is ordered, a header is stored under its own reference, and the index of
  digests by author lists exactly the stored headers. Rounds fit \<open>u32\<close>.
\<close>

definition header_fits :: "verified_block_header \<Rightarrow> bool" where
  "header_fits h = (bh_round h \<le> u32_max)"

definition digest_key :: "block_ref \<Rightarrow> authority_index \<times> round \<times> digest" where
  "digest_key r = (br_author r, br_round r, br_digest r)"

definition keyed_headers :: "(block_ref, verified_block_header) btreemap \<Rightarrow> bool" where
  "keyed_headers m = (bm_invar m \<and> (\<forall>(k, h) \<in> set m. k = reference h))"

definition store_ok :: "mem_store \<Rightarrow> bool" where
  "store_ok s =
     (keyed_headers (ms_block_headers s) \<and> (\<forall>(k, h) \<in> set (ms_block_headers s). header_fits h) \<and>
      bs_invar (ms_digests_by_authorities s) \<and>
      set (ms_digests_by_authorities s) =
        digest_key ` fst ` set (ms_block_headers s) \<and>
      bm_invar (ms_commits s) \<and>
      (\<forall>(k, c) \<in> set (ms_commits s). k = (commit_index_of (tcm_inner c), tcm_digest c)) \<and>
      bm_invar (ms_commit_info s) \<and> bm_invar (ms_transactions s) \<and>
      bm_invar (ms_transactions_by_tx_refs s) \<and> bs_invar (ms_commit_votes s) \<and>
      keyed_headers (ms_voting_block_headers s))"

lemma keyed_headers_get: "keyed_headers m \<Longrightarrow> bm_get m r = Some h \<Longrightarrow> reference h = r"
  by (auto simp: keyed_headers_def dest!: bm_get_in_set)

lemma keyed_headers_insert: "keyed_headers m \<Longrightarrow> keyed_headers (bm_insert (reference h) h m)"
  using set_bm_insert_subset [of "reference h" h m] by (auto simp: keyed_headers_def)

lemma store_ok_new: "store_ok mem_store_new"
  by (simp add: store_ok_def mem_store_new_def keyed_headers_def)

lemma store_ok_write_block_header: "store_ok s \<Longrightarrow> header_fits h \<Longrightarrow> store_ok (write_block_header h s)"
  using set_bm_insert_subset [of "reference h" h "ms_block_headers s"]
  by (auto simp: store_ok_def write_block_header_def keyed_headers_insert add_votes_def
      digest_key_def [of "reference h", simplified])

lemma store_ok_write_transactions: "store_ok s \<Longrightarrow> write_transactions fast s t = Some s' \<Longrightarrow> store_ok s'"
  by (cases fast; clarsimp simp: store_ok_def write_transactions_def Let_def Option.bind_eq_Some_conv)

lemma store_ok_write_commit: "store_ok s \<Longrightarrow> store_ok (write_commit c s)"
  using set_bm_insert_subset [of "(commit_index_of (tcm_inner c), tcm_digest c)" c "ms_commits s"]
  by (simp add: store_ok_def write_commit_def) fast

lemma store_ok_write_commit_info: "store_ok s \<Longrightarrow> store_ok (write_commit_info ci s)"
  by (simp add: store_ok_def write_commit_info_def)

lemma store_ok_write_voting_header: "store_ok s \<Longrightarrow> store_ok (write_voting_header h s)"
  by (simp add: store_ok_def write_voting_header_def keyed_headers_insert add_votes_def)

lemma store_ok_flag: "store_ok (s\<lparr> ms_fast_sync_ongoing := flag \<rparr>) = store_ok s"
  by (simp add: store_ok_def)

lemma fold_preserves: "(\<And>x s. x \<in> set xs \<Longrightarrow> P s \<Longrightarrow> P (f x s)) \<Longrightarrow> P s \<Longrightarrow> P (fold f xs s)"
  by (induction xs arbitrary: s) auto

lemma store_ok_write:
  assumes "store_ok s" "store_write fast wb s = Some s'" "\<forall>h \<in> set (wb_block_headers wb). header_fits h"
  shows "store_ok s'"
proof -
  define s1 where "s1 = fold write_block_header (wb_block_headers wb) s"
  have 1: "store_ok s1"
    unfolding s1_def using assms by (intro fold_preserves [where P = store_ok] store_ok_write_block_header) auto
  obtain s2 where s2: "foldM (write_transactions fast) s1 (wb_transactions wb) = Some s2"
    using assms(2) by (auto simp: store_write_def Option.bind_eq_Some_conv s1_def)
  have 2: "store_ok s2"
    by (rule foldM_invariant [OF s2, of store_ok]) (use 1 store_ok_write_transactions in auto)
  let ?s4 = "fold write_commit_info (wb_commit_info wb) (fold write_commit (wb_commits wb) s2)"
  have "store_ok (fold write_voting_header (wb_voting_block_headers wb) ?s4)"
    by (intro fold_preserves [where P = store_ok] store_ok_write_voting_header
        store_ok_write_commit_info store_ok_write_commit 2)
  then show ?thesis
    using assms(2) s2 by (cases "wb_fast_commit_sync_flag wb") (auto simp: store_write_def s1_def Let_def store_ok_flag)
qed

text \<open>The headers read after a write: the last one of the batch with that reference, or the old one.\<close>

lemma headers_fold_write:
  "bm_get (ms_block_headers (fold write_block_header hs s)) r =
     (case find (\<lambda>h. reference h = r) (rev hs) of Some h \<Rightarrow> Some h | None \<Rightarrow> bm_get (ms_block_headers s) r)"
proof (induction hs arbitrary: s)
  case (Cons h hs)
  show ?case
    by (simp add: Cons.IH find_append) (simp add: write_block_header_def split: option.splits)
qed simp

lemma store_write_headers:
  assumes "store_write fast wb s = Some s'"
  shows "ms_block_headers s' = ms_block_headers (fold write_block_header (wb_block_headers wb) s)"
proof -
  have tx: "write_transactions fast t x = Some u \<Longrightarrow> ms_block_headers u = ms_block_headers t" for t x u
    by (auto simp: write_transactions_def Let_def Option.bind_eq_Some_conv split: if_splits)
  have txs: "foldM (write_transactions fast) t xs = Some u \<Longrightarrow> ms_block_headers u = ms_block_headers t" for t xs u
    by (induction xs arbitrary: t) (auto simp: Option.bind_eq_Some_conv tx)
  have c: "ms_block_headers (fold write_commit xs t) = ms_block_headers t" for xs t
    by (induction xs arbitrary: t) (auto simp: write_commit_def)
  have ci: "ms_block_headers (fold write_commit_info xs t) = ms_block_headers t" for xs t
    by (induction xs arbitrary: t) (auto simp: write_commit_info_def)
  have vh: "ms_block_headers (fold write_voting_header xs t) = ms_block_headers t" for xs t
    by (induction xs arbitrary: t) (auto simp: write_voting_header_def)
  from assms show ?thesis
    by (cases "wb_fast_commit_sync_flag wb")
      (auto simp: store_write_def Option.bind_eq_Some_conv Let_def c ci vh dest!: txs)
qed

lemma store_write_lookup:
  "store_write fast wb s = Some s' \<Longrightarrow>
     bm_get (ms_block_headers s') r =
       (case find (\<lambda>h. reference h = r) (rev (wb_block_headers wb)) of
          Some h \<Rightarrow> Some h | None \<Rightarrow> bm_get (ms_block_headers s) r)"
  by (simp add: store_write_headers headers_fold_write)

text \<open>Scanning an author's headers finds exactly the stored ones, and never the missing-header panic.\<close>

lemma scan_refs_set:
  assumes "store_ok s"
  shows "set (store_scan_block_references_by_author s a r) =
    {b \<in> fst ` set (ms_block_headers s). br_author b = a \<and> r \<le> br_round b}"
proof -
  have fits: "b \<in> fst ` set (ms_block_headers s) \<Longrightarrow> br_round b \<le> u32_max" for b
    using assms by (force simp: store_ok_def keyed_headers_def header_fits_def)
  have range: "(a, r, 0) \<le> digest_key b \<and>
      digest_key b \<le> (a, u32_max, -1) \<longleftrightarrow>
      br_author b = a \<and> r \<le> br_round b \<and> br_round b \<le> u32_max" for b
    by (auto simp: digest_key_def)
  have inv: "(\<lambda>(a, r, d). BlockRef r a d) (digest_key b) = b" for b
    by (cases b) (simp add: digest_key_def)
  have "set (store_scan_block_references_by_author s a r) =
      (\<lambda>(a, r, d). BlockRef r a d) ` {x \<in> digest_key ` fst ` set (ms_block_headers s).
         (a, r, 0) \<le> x \<and> x \<le> (a, u32_max, -1)}"
    using assms unfolding store_scan_block_references_by_author_def set_map set_bs_range
    by (simp add: store_ok_def)
  also have "\<dots> = (\<lambda>b. (\<lambda>(a, r, d). BlockRef r a d) (digest_key b)) ` {b \<in> fst ` set (ms_block_headers s).
         (a, r, 0) \<le> digest_key b \<and> digest_key b \<le> (a, u32_max, -1)}"
    by blast
  also have "\<dots> = {b \<in> fst ` set (ms_block_headers s). br_author b = a \<and> r \<le> br_round b}"
    unfolding inv range using fits by auto
  finally show ?thesis .
qed

lemma scan_headers_total:
  assumes "store_ok s"
  shows "\<exists>hs. store_scan_block_headers_by_author s a r = Some hs \<and>
    set hs = {h. bm_get (ms_block_headers s) (reference h) = Some h \<and> bh_author h = a \<and> r \<le> bh_round h}"
proof -
  let ?refs = "store_scan_block_references_by_author s a r"
  have keyed: "keyed_headers (ms_block_headers s)" using assms by (simp add: store_ok_def)
  have refs: "b \<in> set ?refs \<longleftrightarrow> (\<exists>h. bm_get (ms_block_headers s) b = Some h) \<and> br_author b = a \<and> r \<le> br_round b" for b
    by (simp add: scan_refs_set [OF assms] bm_get_Some_iff)
  let ?hs = "map (\<lambda>b. the (bm_get (ms_block_headers s) b)) ?refs"
  have "mapM (bm_get (ms_block_headers s)) ?refs = Some ?hs"
    by (rule mapM_SomeI) (auto simp: refs)
  moreover have "mapM (\<lambda>h. h) (map f xs) = mapM f xs" for f :: "block_ref \<Rightarrow> verified_block_header option" and xs
    by (induction xs) auto
  moreover have "h \<in> set ?hs \<longleftrightarrow>
      bm_get (ms_block_headers s) (reference h) = Some h \<and> bh_author h = a \<and> r \<le> bh_round h" for h
  proof
    assume "h \<in> set ?hs"
    then obtain b where b: "bm_get (ms_block_headers s) b = Some h" "br_author b = a" "r \<le> br_round b"
      by (auto simp: refs)
    then show "bm_get (ms_block_headers s) (reference h) = Some h \<and> bh_author h = a \<and> r \<le> bh_round h"
      using keyed_headers_get [OF keyed b(1)] by auto
  next
    assume h: "bm_get (ms_block_headers s) (reference h) = Some h \<and> bh_author h = a \<and> r \<le> bh_round h"
    then have "reference h \<in> set ?refs" by (simp add: refs)
    with h show "h \<in> set ?hs" by (force simp: image_iff)
  qed
  ultimately have "store_scan_block_headers_by_author s a r = Some ?hs" and "set ?hs =
      {h. bm_get (ms_block_headers s) (reference h) = Some h \<and> bh_author h = a \<and> r \<le> bh_round h}"
    unfolding store_scan_block_headers_by_author_def store_read_verified_block_headers_def
    by (simp, blast)
  then show ?thesis by blast
qed

text \<open>
  C38: after a batch has been written, a well-formed store is still well-formed, and reading
  any list of references returns, in order, the last header of the batch with that
  reference, or what the store held before; \<open>contains\<close> answers agree with the reads.
\<close>

theorem read_after_write:
  assumes "store_ok s" "store_write fast wb s = Some s'" "\<forall>h \<in> set (wb_block_headers wb). header_fits h"
  shows "store_ok s' \<and>
    store_read_verified_block_headers s' refs =
      map (\<lambda>r. case find (\<lambda>h. reference h = r) (rev (wb_block_headers wb)) of
          Some h \<Rightarrow> Some h | None \<Rightarrow> bm_get (ms_block_headers s) r) refs \<and>
    store_contains_block_headers s' refs = map (\<lambda>h. h \<noteq> None) (store_read_verified_block_headers s' refs)"
  using store_ok_write [OF assms] store_write_lookup [OF assms(2)]
  by (simp add: store_read_verified_block_headers_def store_contains_block_headers_def bm_contains_key_def)

definition example_batch :: "verified_block_header list \<Rightarrow> write_batch" where
  "example_batch hs = \<lparr> wb_transactions = [], wb_block_headers = hs, wb_commits = [], wb_commit_info = [],
     wb_voting_block_headers = [], wb_fast_commit_sync_flag = None \<rparr>"

lemma example_batch_write: "store_write fast (example_batch hs) s = Some (fold write_block_header hs s)"
  by (simp add: store_write_def example_batch_def)

theorem read_after_write_witness:
  "store_read_verified_block_headers
     (fold write_block_header [example_header 1 0 5 [], example_header 1 1 6 []] mem_store_new)
     [BlockRef 1 1 6, BlockRef 2 0 1] = [Some (example_header 1 1 6 []), None]"
  using read_after_write [OF store_ok_new example_batch_write [of False "[example_header 1 0 5 [], example_header 1 1 6 []]"],
      of "[BlockRef 1 1 6, BlockRef 2 0 1]"]
  by (simp add: example_batch_def header_fits_def u32_max_def mem_store_new_def)

end
