(* ===== verification/Leader_Scoring.thy ===== *)
theory Leader_Scoring
  imports Commit Stake_Aggregator
begin

section \<open>Leader scoring\<close>

text \<open>
  \<open>crates/starfish/core/src/leader_scoring.rs\<close>: the votes for committed leaders found in
  committed sub-dags and the reputation scores computed from them. Main results: the
  duplicate-vote assertion cannot fail when committed leaders have different rounds and every
  header is scored once (\<open>add_subdags_total\<close>), and an authority's score is the stake behind
  its votes (\<open>distributed_votes_scores_sum\<close>).
\<close>

definition authorities_by_score ::
  "committee \<Rightarrow> reputation_scores \<Rightarrow> (authority_index \<times> nat) list option" where
  "authorities_by_score c rs =
     mapM (\<lambda>(i, score). do { a \<leftarrow> to_authority_index c i; Some (a, score) })
       (List.enumerate 0 (scores_per_authority rs))"

definition from_scores_desc ::
  "nat \<Rightarrow> commit_range \<Rightarrow> (authority_index \<times> nat) list \<Rightarrow> reputation_scores option" where
  "from_scores_desc num_authorities r scores_desc = do {
     scores \<leftarrow> foldM (\<lambda>acc (a, score). vec_set acc a score) (replicate num_authorities 0) scores_desc;
     Some \<lparr> scores_per_authority = scores, rs_commit_range = r \<rparr> }"

record scoring_subdag =
  ss_commit_range :: "commit_range option"
  ss_leaders :: "block_ref set"
  ss_votes :: "(block_ref, stake_aggregator) btreemap"

definition scoring_subdag_new :: scoring_subdag where
  "scoring_subdag_new = \<lparr> ss_commit_range = None, ss_leaders = {}, ss_votes = [] \<rparr>"

definition score_ancestor ::
  "committee \<Rightarrow> verified_block_header \<Rightarrow> scoring_subdag \<Rightarrow> block_ref \<Rightarrow> scoring_subdag option" where
  "score_ancestor c header ss anc =
     (if br_round anc \<noteq> bh_round header - 1 then Some ss
      else do {
        ss1 \<leftarrow> (if anc \<in> ss_leaders ss then do {
                  assert_that (bm_get (ss_votes ss) (reference header) = None);
                  Some (ss\<lparr> ss_votes := bm_insert (reference header) sa_new (ss_votes ss) \<rparr>) }
                else Some ss);
        case bm_get (ss_votes ss1) anc of
          None \<Rightarrow> Some ss1
        | Some agg \<Rightarrow> do {
            (_, agg') \<leftarrow> sa_add QuorumThreshold agg (bh_author header) c;
            Some (ss1\<lparr> ss_votes := bm_insert anc agg' (ss_votes ss1) \<rparr>) } })"

definition score_header ::
  "committee \<Rightarrow> scoring_subdag \<Rightarrow> verified_block_header \<Rightarrow> scoring_subdag option" where
  "score_header c ss header = do {
     ancs \<leftarrow> ancestors header;
     foldM (score_ancestor c header) ss ancs }"

definition update_range :: "commit_range option \<Rightarrow> commit_index \<Rightarrow> commit_range option option" where
  "update_range r i =
     (case r of None \<Rightarrow> Some (Some (commit_range_new i i))
      | Some r \<Rightarrow> map_option Some (extend_to r i))"

definition add_subdag ::
  "committee \<Rightarrow> scoring_subdag \<Rightarrow> 'a sub_dag_base_scheme \<Rightarrow> scoring_subdag option" where
  "add_subdag c ss sd = do {
     r \<leftarrow> update_range (ss_commit_range ss) (cr_index (sd_commit_ref sd));
     foldM (score_header c)
       (ss\<lparr> ss_commit_range := r, ss_leaders := insert (sd_leader sd) (ss_leaders ss) \<rparr>)
       (sd_headers sd) }"

definition add_subdags ::
  "committee \<Rightarrow> scoring_subdag \<Rightarrow> 'a sub_dag_base_scheme list \<Rightarrow> scoring_subdag option" where
  "add_subdags c ss sds = foldM (add_subdag c) ss sds"

definition distributed_votes_scores :: "committee \<Rightarrow> scoring_subdag \<Rightarrow> nat list option" where
  "distributed_votes_scores c ss =
     foldM (\<lambda>scores (vote, agg). do {
         old \<leftarrow> vec_get scores (br_author vote);
         vec_set scores (br_author vote) (wrap_u64 (old + sa_stake agg)) })
       (replicate (size_of c) 0) (ss_votes ss)"

definition calculate_distributed_vote_scores ::
  "committee \<Rightarrow> scoring_subdag \<Rightarrow> reputation_scores option" where
  "calculate_distributed_vote_scores c ss = do {
     scores \<leftarrow> distributed_votes_scores c ss;
     r \<leftarrow> ss_commit_range ss;
     Some \<lparr> scores_per_authority = scores, rs_commit_range = r \<rparr> }"

definition scored_subdags_count :: "scoring_subdag \<Rightarrow> nat option" where
  "scored_subdags_count ss = (case ss_commit_range ss of None \<Rightarrow> Some 0 | Some r \<Rightarrow> range_size r)"

definition scoring_is_empty :: "scoring_subdag \<Rightarrow> bool" where
  "scoring_is_empty ss = (ss_leaders ss = {} \<and> ss_votes ss = [] \<and> ss_commit_range ss = None)"

definition scoring_clear :: "scoring_subdag \<Rightarrow> scoring_subdag" where
  "scoring_clear ss = ss\<lparr> ss_leaders := {}, ss_votes := [], ss_commit_range := None \<rparr>"

subsection \<open>Scoring does not panic\<close>

definition scoring_ok :: "committee \<Rightarrow> scoring_subdag \<Rightarrow> bool" where
  "scoring_ok c ss =
     (bm_invar (ss_votes ss) \<and> inj_on br_round (ss_leaders ss) \<and>
      (\<forall>(v, agg) \<in> set (ss_votes ss). br_author v \<in> members c \<and> sa_ok c agg))"

definition scorable :: "committee \<Rightarrow> verified_block_header \<Rightarrow> bool" where
  "scorable c h = (bh_author h \<in> members c \<and> (\<exists>ancs. ancestors h = Some ancs \<and> distinct ancs))"

lemma scoring_ok_new: "scoring_ok c scoring_subdag_new"
  by (simp add: scoring_ok_def scoring_subdag_new_def)

lemma scoring_ok_clear: "scoring_ok c (scoring_clear ss)"
  by (simp add: scoring_ok_def scoring_clear_def)

lemma scoring_ok_get:
  "scoring_ok c ss \<Longrightarrow> bm_get (ss_votes ss) v = Some agg \<Longrightarrow> br_author v \<in> members c \<and> sa_ok c agg"
  by (auto simp: scoring_ok_def dest!: bm_get_in_set)

lemma scoring_ok_insert:
  assumes "scoring_ok c ss" "br_author v \<in> members c" "sa_ok c agg"
  shows "scoring_ok c (ss\<lparr> ss_votes := bm_insert v agg (ss_votes ss) \<rparr>)"
  using assms set_bm_insert_subset [of v agg "ss_votes ss"] by (auto simp: scoring_ok_def)

lemma disjoint_grow: "A \<inter> V = {} \<Longrightarrow> A \<inter> B = {} \<Longrightarrow> W \<subseteq> V \<union> B \<Longrightarrow> A \<inter> W = {}"
  by blast

definition vote_keys :: "scoring_subdag \<Rightarrow> block_ref set" where
  "vote_keys ss = fst ` set (ss_votes ss)"

text \<open>One ancestor: the assertion holds unless a vote of this header has been recorded before.\<close>

lemma score_ancestor_total:
  assumes c: "committee_ok c" and ok: "scoring_ok c ss" and h: "bh_author h \<in> members c"
    and fresh: "br_round anc = bh_round h - 1 \<and> anc \<in> ss_leaders ss \<longrightarrow> reference h \<notin> vote_keys ss"
  shows "\<exists>ss'. score_ancestor c h ss anc = Some ss' \<and> scoring_ok c ss' \<and>
    ss_leaders ss' = ss_leaders ss \<and> ss_commit_range ss' = ss_commit_range ss \<and>
    vote_keys ss' = vote_keys ss \<union>
      (if br_round anc = bh_round h - 1 \<and> anc \<in> ss_leaders ss then {reference h} else {})"
proof (cases "br_round anc = bh_round h - 1")
  case True
  define ss1 where "ss1 = (if anc \<in> ss_leaders ss
    then ss\<lparr> ss_votes := bm_insert (reference h) sa_new (ss_votes ss) \<rparr> else ss)"
  have ok1: "scoring_ok c ss1"
    unfolding ss1_def using ok h by (auto intro!: scoring_ok_insert)
  have keys1: "vote_keys ss1 = vote_keys ss \<union> (if anc \<in> ss_leaders ss then {reference h} else {})"
    by (simp add: ss1_def vote_keys_def)
  have none: "anc \<in> ss_leaders ss \<Longrightarrow> bm_get (ss_votes ss) (reference h) = None"
    using True fresh by (simp add: bm_get_None_iff vote_keys_def)
  have run: "score_ancestor c h ss anc =
      (case bm_get (ss_votes ss1) anc of None \<Rightarrow> Some ss1
       | Some agg \<Rightarrow> sa_add QuorumThreshold agg (bh_author h) c \<bind>
           (\<lambda>(_, agg'). Some (ss1\<lparr> ss_votes := bm_insert anc agg' (ss_votes ss1) \<rparr>)))"
    using True none by (cases "anc \<in> ss_leaders ss") (simp_all only: score_ancestor_def ss1_def if_True if_False
        not_True_eq_False bind_assert_that Option.bind.simps simp_thms)
  show ?thesis
  proof (cases "bm_get (ss_votes ss1) anc")
    case None
    with run ok1 keys1 True show ?thesis by (simp add: ss1_def)
  next
    case (Some agg)
    with scoring_ok_get [OF ok1] have agg: "br_author anc \<in> members c" "sa_ok c agg" by auto
    obtain b agg' where add: "sa_add QuorumThreshold agg (bh_author h) c = Some (b, agg')" "sa_ok c agg'"
      using sa_add_ok [OF c agg(2) h] by blast
    have "anc \<in> fst ` set (ss_votes ss1)" using Some by (auto simp: bm_get_Some_iff [symmetric])
    with run Some add agg ok1 keys1 True scoring_ok_insert [OF ok1 agg(1) add(2)] show ?thesis
      by (auto simp: vote_keys_def ss1_def)
  qed
qed (use ok in \<open>simp add: score_ancestor_def\<close>)

lemma score_header_total:
  assumes c: "committee_ok c" and ok: "scoring_ok c ss" and h: "scorable c h"
    and fresh: "reference h \<notin> vote_keys ss"
  shows "\<exists>ss'. score_header c ss h = Some ss' \<and> scoring_ok c ss' \<and> ss_leaders ss' = ss_leaders ss \<and>
    ss_commit_range ss' = ss_commit_range ss \<and> vote_keys ss' \<subseteq> insert (reference h) (vote_keys ss)"
proof -
  from h obtain ancs where ancs: "ancestors h = Some ancs" "distinct ancs" and a: "bh_author h \<in> members c"
    by (auto simp: scorable_def)
  have "\<exists>ss'. foldM (score_ancestor c h) s xs = Some ss' \<and> scoring_ok c ss' \<and>
      ss_leaders ss' = ss_leaders s \<and> ss_commit_range ss' = ss_commit_range s \<and>
      vote_keys ss' \<subseteq> insert (reference h) (vote_keys s)"
    if "scoring_ok c s" "distinct xs"
      "reference h \<in> vote_keys s \<Longrightarrow> \<exists>l \<in> ss_leaders s. br_round l = bh_round h - 1 \<and> l \<notin> set xs" for s xs
    using that
  proof (induction xs arbitrary: s)
    case (Cons x xs)
    have "reference h \<notin> vote_keys s" if x: "br_round x = bh_round h - 1" "x \<in> ss_leaders s"
    proof
      assume "reference h \<in> vote_keys s"
      with Cons.prems(3) obtain l where "l \<in> ss_leaders s" "br_round l = br_round x" "l \<noteq> x"
        using x by auto
      moreover have "inj_on br_round (ss_leaders s)" using Cons.prems(1) by (simp add: scoring_ok_def)
      ultimately show False using x by (metis inj_onD)
    qed
    with score_ancestor_total [OF c Cons.prems(1) a] obtain s1 where
      s1: "score_ancestor c h s x = Some s1" "scoring_ok c s1" "ss_leaders s1 = ss_leaders s"
        "ss_commit_range s1 = ss_commit_range s"
        "vote_keys s1 = vote_keys s \<union> (if br_round x = bh_round h - 1 \<and> x \<in> ss_leaders s then {reference h} else {})"
      by blast
    have "\<exists>l \<in> ss_leaders s1. br_round l = bh_round h - 1 \<and> l \<notin> set xs" if "reference h \<in> vote_keys s1"
      using that Cons.prems(2,3) s1(3,5) by (auto split: if_splits)
    from Cons.IH [OF s1(2) _ this] Cons.prems(2) s1 show ?case
      by (auto split: if_splits)
  qed auto
  from this [OF ok ancs(2)] fresh ancs show ?thesis by (auto simp: score_header_def)
qed

lemma score_headers_total:
  assumes "committee_ok c" "scoring_ok c ss" "\<forall>h \<in> set hs. scorable c h"
    "distinct (map reference hs)" "reference ` set hs \<inter> vote_keys ss = {}"
  shows "\<exists>ss'. foldM (score_header c) ss hs = Some ss' \<and> scoring_ok c ss' \<and> ss_leaders ss' = ss_leaders ss \<and>
    ss_commit_range ss' = ss_commit_range ss \<and> vote_keys ss' \<subseteq> vote_keys ss \<union> reference ` set hs"
  using assms(2-)
proof (induction hs arbitrary: ss)
  case (Cons h hs)
  obtain s1 where s1: "score_header c ss h = Some s1" "scoring_ok c s1" "ss_leaders s1 = ss_leaders ss"
    "ss_commit_range s1 = ss_commit_range ss" "vote_keys s1 \<subseteq> insert (reference h) (vote_keys ss)"
    using score_header_total [OF assms(1) Cons.prems(1), of h] Cons.prems(2,4) by auto
  have "reference h \<notin> reference ` set hs" "reference ` set hs \<inter> vote_keys ss = {}"
    using Cons.prems(3,4) by auto
  then have "reference ` set hs \<inter> vote_keys s1 = {}"
    using s1(5) by - (rule disjoint_grow [of _ "vote_keys ss" "{reference h}"], simp_all)
  moreover have "\<forall>h \<in> set hs. scorable c h" "distinct (map reference hs)" using Cons.prems(2,3) by auto
  ultimately obtain s2 where s2: "foldM (score_header c) s1 hs = Some s2" "scoring_ok c s2" "ss_leaders s2 = ss_leaders s1"
    "ss_commit_range s2 = ss_commit_range s1" "vote_keys s2 \<subseteq> vote_keys s1 \<union> reference ` set hs"
    using Cons.IH [OF s1(2)] by blast
  have "vote_keys s2 \<subseteq> vote_keys ss \<union> reference ` set (h # hs)"
    using s1(5) s2(5) by (simp only: list.set image_insert) blast
  with s1 s2 show ?case by (simp del: Un_insert_right)
qed auto

definition range_below :: "commit_range option \<Rightarrow> commit_index \<Rightarrow> bool" where
  "range_below r i = (case r of None \<Rightarrow> True | Some r \<Rightarrow> range_hi r \<le> sat_add_u32 i 1)"

lemma update_range_total:
  "range_below r i \<Longrightarrow>
     \<exists>r'. update_range r i = Some (Some r') \<and> range_hi r' = sat_add_u32 i 1 \<and>
       range_lo r' = (case r of None \<Rightarrow> i | Some r \<Rightarrow> range_lo r)"
  by (auto simp: update_range_def range_below_def extend_to_def commit_range_new_def split: option.splits)

definition subdag_indices :: "'a sub_dag_base_scheme list \<Rightarrow> commit_index list" where
  "subdag_indices sds = map (\<lambda>sd. cr_index (sd_commit_ref sd)) sds"

definition subdag_headers :: "'a sub_dag_base_scheme list \<Rightarrow> verified_block_header list" where
  "subdag_headers sds = concat (map sd_headers sds)"

lemma add_subdag_total:
  assumes "committee_ok c" "scoring_ok c ss" "inj_on br_round (insert (sd_leader sd) (ss_leaders ss))"
    "\<forall>h \<in> set (sd_headers sd). scorable c h" "distinct (map reference (sd_headers sd))"
    "reference ` set (sd_headers sd) \<inter> vote_keys ss = {}"
    "range_below (ss_commit_range ss) (cr_index (sd_commit_ref sd))"
  shows "\<exists>ss' r. add_subdag c ss sd = Some ss' \<and> scoring_ok c ss' \<and>
    ss_leaders ss' = insert (sd_leader sd) (ss_leaders ss) \<and>
    ss_commit_range ss' = Some r \<and> range_hi r = sat_add_u32 (cr_index (sd_commit_ref sd)) 1 \<and>
    range_lo r = (case ss_commit_range ss of None \<Rightarrow> cr_index (sd_commit_ref sd) | Some r \<Rightarrow> range_lo r) \<and>
    vote_keys ss' \<subseteq> vote_keys ss \<union> reference ` set (sd_headers sd)"
proof -
  from update_range_total [OF assms(7)] obtain r where
    r: "update_range (ss_commit_range ss) (cr_index (sd_commit_ref sd)) = Some (Some r)"
      "range_hi r = sat_add_u32 (cr_index (sd_commit_ref sd)) 1"
      "range_lo r = (case ss_commit_range ss of None \<Rightarrow> cr_index (sd_commit_ref sd) | Some r \<Rightarrow> range_lo r)"
    by blast
  let ?s = "ss\<lparr> ss_commit_range := Some r, ss_leaders := insert (sd_leader sd) (ss_leaders ss) \<rparr>"
  have "scoring_ok c ?s" using assms(2,3) by (simp add: scoring_ok_def)
  moreover have "vote_keys ?s = vote_keys ss" by (simp add: vote_keys_def)
  ultimately obtain ss' where "foldM (score_header c) ?s (sd_headers sd) = Some ss'" "scoring_ok c ss'"
    "ss_leaders ss' = ss_leaders ?s" "ss_commit_range ss' = ss_commit_range ?s"
    "vote_keys ss' \<subseteq> vote_keys ss \<union> reference ` set (sd_headers sd)"
    using score_headers_total [OF assms(1) _ assms(4,5), of ?s] assms(6) by auto
  with r show ?thesis by (simp add: add_subdag_def)
qed

lemma add_subdags_total_aux:
  assumes "committee_ok c" "scoring_ok c ss" "inj_on br_round (ss_leaders ss \<union> sd_leader ` set sds)"
    "\<forall>h \<in> set (subdag_headers sds). scorable c h" "distinct (map reference (subdag_headers sds))"
    "reference ` set (subdag_headers sds) \<inter> vote_keys ss = {}" "sorted (subdag_indices sds)"
    "\<forall>i \<in> set (subdag_indices sds). range_below (ss_commit_range ss) i"
  shows "\<exists>ss'. add_subdags c ss sds = Some ss' \<and> scoring_ok c ss' \<and>
    ss_leaders ss' = ss_leaders ss \<union> sd_leader ` set sds"
  using assms(2-)
proof (induction sds arbitrary: ss)
  case (Cons sd sds)
  let ?i = "cr_index (sd_commit_ref sd)"
  have inj: "inj_on br_round (insert (sd_leader sd) (ss_leaders ss))"
    by (rule inj_on_subset [OF Cons.prems(2)]) auto
  have hs: "subdag_headers (sd # sds) = sd_headers sd @ subdag_headers sds"
    by (simp add: subdag_headers_def)
  obtain s1 r where s1: "add_subdag c ss sd = Some s1" "scoring_ok c s1"
    "ss_leaders s1 = insert (sd_leader sd) (ss_leaders ss)" "ss_commit_range s1 = Some r"
    "range_hi r = sat_add_u32 ?i 1" "vote_keys s1 \<subseteq> vote_keys ss \<union> reference ` set (sd_headers sd)"
    using add_subdag_total [OF assms(1) Cons.prems(1) inj] Cons.prems(3-5,7)
    by (auto simp: hs subdag_indices_def image_Un Int_Un_distrib2)
  have "\<forall>i \<in> set (subdag_indices sds). range_below (ss_commit_range s1) i"
    using Cons.prems(6) s1(4,5) by (auto simp: subdag_indices_def range_below_def sat_add_u32_def)
  moreover have "reference ` set (subdag_headers sds) \<inter> vote_keys s1 = {}"
  proof -
    have "reference ` set (subdag_headers sds) \<inter> reference ` set (sd_headers sd) = {}"
      "reference ` set (subdag_headers sds) \<inter> vote_keys ss = {}"
      using Cons.prems(4,5) unfolding hs by auto
    with s1(6) show ?thesis by - (rule disjoint_grow [of _ "vote_keys ss" "reference ` set (sd_headers sd)"])
  qed
  moreover have "inj_on br_round (ss_leaders s1 \<union> sd_leader ` set sds)"
    using Cons.prems(2) s1(3) by simp
  ultimately obtain s2 where "add_subdags c s1 sds = Some s2" "scoring_ok c s2"
    "ss_leaders s2 = ss_leaders s1 \<union> sd_leader ` set sds"
    using Cons.IH [OF s1(2)] Cons.prems(3,4,6) by (auto simp: hs subdag_indices_def)
  with s1 show ?case by (auto simp: add_subdags_def)
qed (auto simp: add_subdags_def)

subsection \<open>The scores\<close>

text \<open>The stake behind the votes of one authority.\<close>

definition votes_stake :: "(block_ref, stake_aggregator) btreemap \<Rightarrow> authority_index \<Rightarrow> nat" where
  "votes_stake votes a =
     sum_list (map (\<lambda>(v, agg). sa_stake agg) (filter (\<lambda>(v, agg). br_author v = a) votes))"

lemma votes_stake_simps:
  "votes_stake [] a = 0"
  "votes_stake ((v, agg) # vs) a = (if br_author v = a then sa_stake agg else 0) + votes_stake vs a"
  by (simp_all add: votes_stake_def)

lemma distributed_scores_run:
  assumes "\<forall>(v, agg) \<in> set vs. br_author v < n" "length acc = n" "\<forall>a < n. wrap_u64 (acc ! a) = acc ! a"
  shows "foldM (\<lambda>scores (vote, agg). do {
         old \<leftarrow> vec_get scores (br_author vote);
         vec_set scores (br_author vote) (wrap_u64 (old + sa_stake agg)) }) acc vs =
    Some (map (\<lambda>a. wrap_u64 (acc ! a + votes_stake vs a)) [0..<n])"
  using assms
proof (induction vs arbitrary: acc)
  case Nil
  then show ?case by (auto simp: votes_stake_simps intro!: nth_equalityI)
next
  case (Cons x vs)
  obtain v agg where x: "x = (v, agg)" by (cases x)
  let ?acc = "acc[br_author v := wrap_u64 (acc ! br_author v + sa_stake agg)]"
  have v: "br_author v < length acc" using Cons.prems x by simp
  have wrap: "wrap_u64 (wrap_u64 m + k) = wrap_u64 (m + k)" "wrap_u64 (wrap_u64 m) = wrap_u64 m" for m k
    by (simp_all add: wrap_u64_def mod_add_left_eq)
  have "foldM (\<lambda>scores (vote, agg). do {
         old \<leftarrow> vec_get scores (br_author vote);
         vec_set scores (br_author vote) (wrap_u64 (old + sa_stake agg)) }) ?acc vs =
    Some (map (\<lambda>a. wrap_u64 (?acc ! a + votes_stake vs a)) [0..<n])"
    using Cons.prems v by (intro Cons.IH) (auto simp: nth_list_update wrap)
  then show ?case
    using v Cons.prems(2) by (auto simp: x wrap votes_stake_simps add.assoc nth_list_update)
qed

lemma distributed_votes_scores_run:
  assumes "scoring_ok c ss"
  shows "distributed_votes_scores c ss =
    Some (map (\<lambda>a. wrap_u64 (votes_stake (ss_votes ss) a)) [0..<size_of c])"
proof -
  have "\<forall>(v, agg) \<in> set (ss_votes ss). br_author v < size_of c"
    using assms by (auto simp: scoring_ok_def members_def size_of_def)
  from distributed_scores_run [OF this, of "replicate (size_of c) 0"] show ?thesis
    by (simp add: distributed_votes_scores_def cong: map_cong)
qed

lemma votes_stake_bound:
  assumes "committee_ok c" "scoring_ok c ss"
  shows "votes_stake (ss_votes ss) a \<le> length (filter (\<lambda>(v, agg). br_author v = a) (ss_votes ss)) * total_stake c"
proof -
  have "sa_stake agg \<le> total_stake c" if "(v, agg) \<in> set (ss_votes ss)" for v agg
    using assms that stake_sum_le_total [OF assms(1)] by (auto simp: scoring_ok_def sa_ok_def)
  then have "sum_list (map (\<lambda>(v, agg). sa_stake agg) xs) \<le> length xs * total_stake c"
    if "set xs \<subseteq> set (ss_votes ss)" for xs
    using that by (induction xs) (auto simp: add_mono)
  then show ?thesis by (simp add: votes_stake_def)
qed

text \<open>
  C33: scoring consecutive committed sub-dags never panics: when the leaders have different
  rounds, every header is committed once and has distinct ancestors, and the commit indices
  do not decrease, neither the duplicate-vote assertion nor the range assertion can fail, and
  the leaders and the committee invariant of the scores are as expected.
\<close>

theorem add_subdags_total:
  assumes "committee_ok c" "inj_on br_round (sd_leader ` set sds)"
    "\<forall>h \<in> set (subdag_headers sds). scorable c h" "distinct (map reference (subdag_headers sds))"
    "sorted (subdag_indices sds)"
  shows "\<exists>ss. add_subdags c scoring_subdag_new sds = Some ss \<and> scoring_ok c ss \<and> ss_leaders ss = sd_leader ` set sds"
  using add_subdags_total_aux [OF assms(1) scoring_ok_new _ assms(3,4) _ assms(5)] assms(2)
  by (simp add: scoring_subdag_new_def vote_keys_def range_below_def)

definition example_subdag :: "commit_index \<Rightarrow> verified_block_header list \<Rightarrow> sub_dag_base" where
  "example_subdag i hs = \<lparr> sd_leader = reference (last hs), sd_headers = hs, sd_committed_header_refs = map reference hs,
     sd_timestamp_ms = 0, sd_commit_ref = CommitRef i 0, sd_reputation_scores_desc = [] \<rparr>"

theorem add_subdags_total_witness:
  "\<exists>ss. add_subdags (example_committee 4) scoring_subdag_new
      [example_subdag 1 [example_header 1 0 5 []],
       example_subdag 2 [example_header 1 1 6 [], example_header 2 1 7 [BlockRef 1 0 5, BlockRef 1 1 6]]] = Some ss \<and>
    scoring_ok (example_committee 4) ss \<and>
    ss_leaders ss = sd_leader ` set [example_subdag 1 [example_header 1 0 5 []],
       example_subdag 2 [example_header 1 1 6 [], example_header 2 1 7 [BlockRef 1 0 5, BlockRef 1 1 6]]]"
  by (rule add_subdags_total)
    (auto simp: example_committee_ok example_subdag_def subdag_headers_def subdag_indices_def scorable_def)

text \<open>
  C34: the reputation score of an authority is the stake of the distinct voters behind its
  votes for committed leaders, for as long as the number of its votes times the total stake
  fits 64 bits; computing the scores never indexes out of range.
\<close>

theorem distributed_votes_scores_sum:
  assumes "committee_ok c" "scoring_ok c ss" "ss_commit_range ss = Some r"
    "length (ss_votes ss) * total_stake c < 18446744073709551616"
  shows "calculate_distributed_vote_scores c ss =
    Some \<lparr> scores_per_authority = map (votes_stake (ss_votes ss)) [0..<size_of c], rs_commit_range = r \<rparr>"
proof -
  have "votes_stake (ss_votes ss) a < 18446744073709551616" for a
  proof -
    have "length (filter (\<lambda>(v, agg). br_author v = a) (ss_votes ss)) * total_stake c \<le> length (ss_votes ss) * total_stake c"
      by (rule mult_le_mono1) (rule length_filter_le)
    with votes_stake_bound [OF assms(1,2), of a] assms(4) show ?thesis by linarith
  qed
  then have "wrap_u64 (votes_stake (ss_votes ss) a) = votes_stake (ss_votes ss) a" for a
    by (simp add: wrap_u64_def)
  with distributed_votes_scores_run [OF assms(2)] assms(3) show ?thesis
    by (simp add: calculate_distributed_vote_scores_def)
qed

definition example_scoring :: scoring_subdag where
  "example_scoring = \<lparr> ss_commit_range = Some (commit_range_new 1 2), ss_leaders = {BlockRef 1 0 5},
     ss_votes = [(BlockRef 2 1 7, \<lparr> sa_votes = [0], sa_stake = 1 \<rparr>)] \<rparr>"

lemma example_scoring_ok: "scoring_ok (example_committee 4) example_scoring"
proof -
  have "stake_sum (example_committee 4) {0} = 1" by (subst example_committee_stake) simp_all
  then show ?thesis
    by (simp add: scoring_ok_def example_scoring_def sa_ok_def bm_invar_def bs_invar_def)
qed

theorem distributed_votes_scores_sum_witness:
  "calculate_distributed_vote_scores (example_committee 4) example_scoring =
    Some \<lparr> scores_per_authority = map (votes_stake (ss_votes example_scoring)) [0..<size_of (example_committee 4)],
           rs_commit_range = commit_range_new 1 2 \<rparr>"
proof (rule distributed_votes_scores_sum)
  show "length (ss_votes example_scoring) * total_stake (example_committee 4) < 18446744073709551616"
    by (simp add: example_scoring_def example_committee_def)
qed (simp_all add: example_committee_ok example_scoring_ok, simp add: example_scoring_def)

end
