(* ===== verification/Context.thy ===== *)
theory Context
  imports Committee
begin

section \<open>Context\<close>

text \<open>
  \<open>crates/starfish/core/src/context.rs\<close>: the per-epoch configuration every component
  shares. \<open>Parameters\<close> and \<open>ProtocolConfig\<close> contribute the values the modelled code
  reads; metrics and the clock are left out.
\<close>

record consensus_context =
  epoch_start_timestamp_ms :: timestamp_ms
  own_index :: authority_index
  ctx_committee :: committee
  dag_state_cached_rounds :: round
  gc_depth :: round
  consensus_fast_commit_sync :: bool
  max_transaction_size_bytes :: nat
  max_num_transactions_in_block :: nat
  max_transactions_in_block_bytes :: nat
  consensus_commit_transactions_only_for_traversed_headers :: bool
  consensus_bad_nodes_stake_threshold :: nat
  consensus_max_acknowledgments_per_block :: nat
  min_block_delay_ms :: nat

definition context_ok :: "consensus_context \<Rightarrow> bool" where
  "context_ok ctx = (committee_ok (ctx_committee ctx) \<and> own_index ctx \<in> members (ctx_committee ctx) \<and>
     0 < dag_state_cached_rounds ctx)"

definition example_context :: "committee \<Rightarrow> consensus_context" where
  "example_context c = \<lparr> epoch_start_timestamp_ms = 0, own_index = 0, ctx_committee = c,
     dag_state_cached_rounds = 10, gc_depth = 3, consensus_fast_commit_sync = False,
     max_transaction_size_bytes = 1024, max_num_transactions_in_block = 16, max_transactions_in_block_bytes = 4096,
     consensus_commit_transactions_only_for_traversed_headers = True, consensus_bad_nodes_stake_threshold = 20,
     consensus_max_acknowledgments_per_block = 400, min_block_delay_ms = 50 \<rparr>"

lemma example_context_ok: "committee_ok c \<Longrightarrow> context_ok (example_context c)"
  by (auto simp: context_ok_def example_context_def members_def size_of_def committee_ok_def)

end
