(* ===== verification/Dag_State.thy ===== *)
theory Dag_State
  imports Mem_Store Leader_Scoring Threshold_Clock Context
begin

section \<open>The DAG state\<close>

text \<open>
  \<open>crates/starfish/core/src/dag_state.rs\<close>, first part: the struct, its reads and the
  operations that accept headers, transactions and shards. Metrics, log lines and the wall
  clock are left out; \<open>ds_cordial\<close> is the log of what has been handed to the two channels
  towards the cordial-knowledge task (\<open>None\<close> before they are set).
\<close>

datatype data_source =
  TransactionSynchronizer | ShardReconstructor | BlockBundleStream | HeaderSynchronizer
  | Recover | OwnBlock | BlockStreaming | CommitSyncer | FastCommitSyncer

datatype cordial_message =
  NewHeader verified_block_header "digest option list"
  | NewShard generic_transaction_ref
  | UsefulShardsFromPeers "(authority_index, round) btreemap"

record dag_state =
  ds_ctx :: consensus_context
  ds_genesis :: "(block_ref, verified_block) btreemap"
  recent_block_headers :: "(block_ref, verified_block_header) btreemap"
  recent_transactions_by_authority :: "(generic_transaction_ref, verified_transactions) btreemap list"
  recent_shards_by_authority :: "(generic_transaction_ref, 8 word list) btreemap list"
  recent_headers_refs_by_authority :: "block_ref btreeset list"
  tx_ref_to_block_digest_by_authority :: "(round \<times> digest, digest) btreemap list"
  ds_threshold_clock :: threshold_clock
  evicted_rounds :: "round list"
  highest_accepted_round :: round
  last_commit :: "trusted_commit option"
  last_solid_subdag_base :: "sub_dag_base option"
  last_committed_rounds :: "round list"
  ds_scoring_subdag :: scoring_subdag
  pending_commit_votes :: "commit_ref list"
  pending_acknowledgments :: "block_ref btreeset"
  transactions_to_write :: "verified_transactions list"
  block_headers_to_write :: "verified_block_header list"
  commits_to_write :: "trusted_commit list"
  voting_block_headers_to_write :: "verified_block_header list"
  fast_sync_ongoing_flag_to_write :: "bool option"
  commit_info_to_write :: "(commit_ref \<times> commit_info) list"
  ds_store :: mem_store
  ds_cached_rounds :: round
  ds_cordial :: "(cordial_message list \<times> round list list) option"

abbreviation ds_committee :: "dag_state \<Rightarrow> committee" where
  "ds_committee ds \<equiv> ctx_committee (ds_ctx ds)"

abbreviation ds_fast :: "dag_state \<Rightarrow> bool" where
  "ds_fast ds \<equiv> consensus_fast_commit_sync (ds_ctx ds)"

definition genesis_blocks :: "(block_header \<Rightarrow> digest) \<Rightarrow> consensus_context \<Rightarrow> verified_block list" where
  "genesis_blocks digest_of ctx =
     map (\<lambda>(a, _).
       let h = new_verified digest_of
             (genesis_block_header (committee_epoch (ctx_committee ctx)) (epoch_start_timestamp_ms ctx) a)
       in \<lparr> vb_header = h, vb_transactions = \<lparr> vt_transactions = [],
              vt_transaction_ref = header_transaction_ref h, vt_block_digest = Some (vbh_digest h) \<rparr> \<rparr>)
       (authorities_enum (ctx_committee ctx))"

definition genesis_block_headers ::
  "(block_header \<Rightarrow> digest) \<Rightarrow> consensus_context \<Rightarrow> verified_block_header list" where
  "genesis_block_headers digest_of ctx =
     map (\<lambda>(a, _). new_verified digest_of
         (genesis_block_header (committee_epoch (ctx_committee ctx)) (epoch_start_timestamp_ms ctx) a))
       (authorities_enum (ctx_committee ctx))"

subsection \<open>Batched reads\<close>

text \<open>
  The reads first answer what they can from memory (\<open>Some\<close>) and collect the remaining
  references, then ask the store for those in one call and put the answers back at their
  indices; what the store does not answer keeps the initial value.
\<close>

fun batch_fill :: "'b \<Rightarrow> 'b option list \<Rightarrow> 'b list \<Rightarrow> 'b list" where
  "batch_fill d [] rs = []"
| "batch_fill d (Some x # ps) rs = x # batch_fill d ps rs"
| "batch_fill d (None # ps) [] = d # batch_fill d ps []"
| "batch_fill d (None # ps) (r # rs) = r # batch_fill d ps rs"

definition missing_of :: "'a list \<Rightarrow> 'b option list \<Rightarrow> 'a list" where
  "missing_of refs probes = map fst (filter (\<lambda>(r, p). p = None) (zip refs probes))"

lemma batch_fill_map:
  "batch_fill d (map probe refs) (map f (missing_of refs (map probe refs))) =
     map (\<lambda>r. case probe r of Some x \<Rightarrow> x | None \<Rightarrow> f r) refs"
  by (induction refs) (auto simp: missing_of_def split: option.splits)

subsection \<open>Reading headers\<close>

definition probe_header :: "dag_state \<Rightarrow> block_ref \<Rightarrow> verified_block_header option option" where
  "probe_header ds r =
     (if br_round r = GENESIS_ROUND then Some (map_option vb_header (bm_get (ds_genesis ds) r))
      else map_option Some (bm_get (recent_block_headers ds) r))"

definition get_verified_block_headers ::
  "dag_state \<Rightarrow> block_ref list \<Rightarrow> verified_block_header option list" where
  "get_verified_block_headers ds refs =
     (let probes = map (probe_header ds) refs
      in batch_fill None probes
           (store_read_verified_block_headers (ds_store ds) (missing_of refs probes)))"

definition get_verified_block_header :: "dag_state \<Rightarrow> block_ref \<Rightarrow> verified_block_header option" where
  "get_verified_block_header ds r = last (get_verified_block_headers ds [r])"

definition get_cached_block_headers ::
  "dag_state \<Rightarrow> block_ref list \<Rightarrow> verified_block_header option list" where
  "get_cached_block_headers ds refs =
     map (\<lambda>r. case probe_header ds r of Some x \<Rightarrow> x | None \<Rightarrow> None) refs"

definition get_transactions_commitments_batch :: "dag_state \<Rightarrow> block_ref list \<Rightarrow> digest option list" where
  "get_transactions_commitments_batch ds refs =
     (let probes = map (\<lambda>r. if br_round r = GENESIS_ROUND then Some None
              else map_option (\<lambda>h. Some (bh_transactions_commitment h)) (bm_get (recent_block_headers ds) r)) refs
      in batch_fill None probes
           (map (map_option bh_transactions_commitment)
             (store_read_verified_block_headers (ds_store ds) (missing_of refs probes))))"

definition get_uncommitted_block_headers_at_slot :: "dag_state \<Rightarrow> slot \<Rightarrow> verified_block_header list" where
  "get_uncommitted_block_headers_at_slot ds sl =
     map snd (bm_range_incl (BlockRef (slot_round sl) (slot_authority sl) 0)
       (BlockRef (slot_round sl) (slot_authority sl) (-1)) (recent_block_headers ds))"

definition last_commit_round :: "dag_state \<Rightarrow> round" where
  "last_commit_round ds = (case last_commit ds of Some c \<Rightarrow> br_round (commit_leader (tcm_inner c)) | None \<Rightarrow> 0)"

definition get_uncommitted_block_headers_at_round ::
  "dag_state \<Rightarrow> round \<Rightarrow> verified_block_header list option" where
  "get_uncommitted_block_headers_at_round ds r =
     (if r \<le> last_commit_round ds then None
      else Some (map snd (bm_range_excl (BlockRef r 0 0) (BlockRef (r + 1) 0 0) (recent_block_headers ds))))"

text \<open>
  The loop of \<open>ancestors_at_round\<close>: it replaces the greatest linked reference by the
  ancestors of its header until no reference above \<open>earlier_round\<close> is left.
\<close>

partial_function (option) ancestors_loop ::
  "(block_ref \<Rightarrow> verified_block_header option) \<Rightarrow> round \<Rightarrow> block_ref btreeset \<Rightarrow> block_ref btreeset option"
where
  "ancestors_loop get earlier_round linked =
     (case bs_last linked of
        None \<Rightarrow> Some linked
      | Some r \<Rightarrow>
          if br_round r \<le> earlier_round then Some linked
          else do {
            h \<leftarrow> get r;
            ancs \<leftarrow> ancestors h;
            ancestors_loop get earlier_round
              (bs_extend (butlast linked) (filter (\<lambda>a. earlier_round \<le> br_round a) ancs)) })"

definition ancestors_at_round ::
  "dag_state \<Rightarrow> verified_block_header \<Rightarrow> round \<Rightarrow> verified_block_header list option" where
  "ancestors_at_round ds later_block earlier_round = do {
     ancs \<leftarrow> ancestors later_block;
     linked \<leftarrow> ancestors_loop (get_verified_block_header ds) earlier_round (bs_from_list ancs);
     mapM (\<lambda>h. h) (get_verified_block_headers ds linked) }"

text \<open>Existence checks: the per-authority index first, then the store.\<close>

definition probe_contains :: "dag_state \<Rightarrow> block_ref \<Rightarrow> bool option option" where
  "probe_contains ds r = do {
     refs \<leftarrow> vec_get (recent_headers_refs_by_authority ds) (br_author r);
     Some (if r \<in> set refs \<or> bm_contains_key (ds_genesis ds) r then Some True
           else case bs_last refs of
                  None \<Rightarrow> Some False
                | Some l \<Rightarrow> if br_round l < br_round r then Some False else None) }"

definition contains_block_headers :: "dag_state \<Rightarrow> block_ref list \<Rightarrow> bool list option" where
  "contains_block_headers ds refs = do {
     probes \<leftarrow> mapM (probe_contains ds) refs;
     Some (batch_fill False probes
       (store_contains_block_headers (ds_store ds) (missing_of refs probes))) }"

definition contains_block_header :: "dag_state \<Rightarrow> block_ref \<Rightarrow> bool option" where
  "contains_block_header ds r = map_option hd (contains_block_headers ds [r])"

definition contains_cached_block_header_at_slot :: "dag_state \<Rightarrow> slot \<Rightarrow> bool option" where
  "contains_cached_block_header_at_slot ds sl =
     (if slot_round sl = GENESIS_ROUND then Some True
      else do {
        eviction \<leftarrow> vec_get (evicted_rounds ds) (slot_authority sl);
        assert_that (eviction < slot_round sl);
        refs \<leftarrow> vec_get (recent_headers_refs_by_authority ds) (slot_authority sl);
        Some (bs_range_incl (BlockRef (slot_round sl) (slot_authority sl) 0)
                (BlockRef (slot_round sl) (slot_authority sl) (-1)) refs \<noteq> []) })"

definition get_last_block_header_for_authority ::
  "dag_state \<Rightarrow> authority_index \<Rightarrow> verified_block_header option" where
  "get_last_block_header_for_authority ds a = do {
     refs \<leftarrow> vec_get (recent_headers_refs_by_authority ds) a;
     case bs_last refs of
       Some l \<Rightarrow> bm_get (recent_block_headers ds) l
     | None \<Rightarrow> map_option (\<lambda>(_, b). vb_header b) (find (\<lambda>(r, _). br_author r = a) (ds_genesis ds)) }"

definition get_last_proposed_block_header :: "dag_state \<Rightarrow> verified_block_header option" where
  "get_last_proposed_block_header ds = get_last_block_header_for_authority ds (own_index (ds_ctx ds))"

definition header_gtr :: "bool \<Rightarrow> verified_block_header \<Rightarrow> generic_transaction_ref" where
  "header_gtr fast h =
     (if fast then GTransactionRef (header_transaction_ref h) else GBlockRef (reference h))"

definition get_last_own_non_genesis_block :: "dag_state \<Rightarrow> verified_block option option" where
  "get_last_own_non_genesis_block ds = do {
     refs \<leftarrow> vec_get (recent_headers_refs_by_authority ds) (own_index (ds_ctx ds));
     case bs_last refs of
       None \<Rightarrow> Some None
     | Some l \<Rightarrow>
         if br_round l \<le> GENESIS_ROUND then Some None
         else case bm_get (recent_block_headers ds) l of
           None \<Rightarrow> Some None
         | Some h \<Rightarrow> do {
             let tx_ref = (if ds_fast ds
               then GTransactionRef (TransactionRef (br_round l) (br_author l) (bh_transactions_commitment h))
               else GBlockRef l);
             txs \<leftarrow> vec_get (recent_transactions_by_authority ds) (br_author l);
             Some (map_option (\<lambda>t. \<lparr> vb_header = h, vb_transactions = t \<rparr>) (bm_get txs tx_ref)) } }"

definition get_own_cached_blocks :: "dag_state \<Rightarrow> round \<Rightarrow> verified_block list option" where
  "get_own_cached_blocks ds start = do {
     let a = own_index (ds_ctx ds);
     refs \<leftarrow> vec_get (recent_headers_refs_by_authority ds) a;
     bs \<leftarrow> mapM (\<lambda>r. case bm_get (recent_block_headers ds) r of
           None \<Rightarrow> Some None
         | Some h \<Rightarrow> do {
             let tx_ref = (if ds_fast ds
               then GTransactionRef (TransactionRef (br_round r) (br_author r) (bh_transactions_commitment h))
               else GBlockRef r);
             txs \<leftarrow> vec_get (recent_transactions_by_authority ds) (br_author r);
             Some (map_option (\<lambda>t. \<lparr> vb_header = h, vb_transactions = t \<rparr>) (bm_get txs tx_ref)) })
       (bs_split_off (BlockRef start a 0) refs);
     Some (List.map_filter (\<lambda>b. b) bs) }"

definition get_cached_block_headers_in_range ::
  "dag_state \<Rightarrow> authority_index \<Rightarrow> round \<Rightarrow> round \<Rightarrow> nat \<Rightarrow> verified_block_header list option" where
  "get_cached_block_headers_in_range ds a start_round end_round limit =
     (if end_round \<le> start_round \<or> limit = 0 then Some []
      else do {
        refs \<leftarrow> vec_get (recent_headers_refs_by_authority ds) a;
        mapM (bm_get (recent_block_headers ds))
          (take limit (bs_range_excl (BlockRef start_round a 0) (BlockRef end_round 0 0) refs)) })"

text \<open>
  The last cached header of every authority before \<open>end_round\<close>, with the references of the
  other headers in the same slot (equivocations).
\<close>

definition last_in_slot ::
  "dag_state \<Rightarrow> round \<Rightarrow> verified_block_header list \<times> block_ref list list
     \<Rightarrow> authority_index \<times> block_ref btreeset \<Rightarrow> (verified_block_header list \<times> block_ref list list) option"
where
  "last_in_slot ds end_round acc entry = do {
     let (headers, equivocating) = acc;
     let (i, block_refs) = entry;
     a \<leftarrow> to_authority_index (ds_committee ds) i;
     last_evicted_round \<leftarrow> vec_get (evicted_rounds ds) a;
     assert_that (last_evicted_round < end_round - 1);
     case rev (bs_range_excl (BlockRef (last_evicted_round + 1) a 0) (BlockRef end_round a 0) block_refs) of
       [] \<Rightarrow> Some (headers, equivocating)
     | r # rs \<Rightarrow> do {
         h \<leftarrow> bm_get (recent_block_headers ds) r;
         headers' \<leftarrow> vec_set headers a h;
         equivocating' \<leftarrow> vec_set equivocating a (takeWhile (\<lambda>x. br_round r \<le> br_round x) rs);
         Some (headers', equivocating') } }"

definition get_last_cached_block_header_per_authority ::
  "dag_state \<Rightarrow> round \<Rightarrow> (verified_block_header \<times> block_ref list) list option" where
  "get_last_cached_block_header_per_authority ds end_round = do {
     let headers = map (vb_header \<circ> snd) (ds_genesis ds);
     assert_that (end_round \<noteq> GENESIS_ROUND);
     if end_round = GENESIS_ROUND + 1 then Some (map (\<lambda>h. (h, [])) headers)
     else do {
       (headers', equivocating) \<leftarrow> foldM (last_in_slot ds end_round)
         (headers, replicate (size_of (ds_committee ds)) [])
         (List.enumerate 0 (recent_headers_refs_by_authority ds));
       Some (zip headers' equivocating) } }"

subsection \<open>Reading transactions\<close>

definition resolve_block_ref :: "dag_state \<Rightarrow> transaction_ref \<Rightarrow> block_ref option option" where
  "resolve_block_ref ds t = do {
     m \<leftarrow> vec_get (tx_ref_to_block_digest_by_authority ds) (tr_author t);
     Some (map_option (BlockRef (tr_round t) (tr_author t)) (bm_get m (tr_round t, tr_commitment t))) }"

definition find_genesis_by_transaction_ref :: "dag_state \<Rightarrow> transaction_ref \<Rightarrow> verified_block option" where
  "find_genesis_by_transaction_ref ds t =
     (case filter (\<lambda>(_, b). bh_transactions_commitment (vb_header b) = tr_commitment t)
             (bm_range_incl (BlockRef (tr_round t) (tr_author t) 0) (BlockRef (tr_round t) (tr_author t) (-1))
               (ds_genesis ds)) of
        [(_, b)] \<Rightarrow> Some b | _ \<Rightarrow> None)"

fun get_genesis_block :: "dag_state \<Rightarrow> generic_transaction_ref \<Rightarrow> verified_block option" where
  "get_genesis_block ds (GBlockRef b) = bm_get (ds_genesis ds) b"
| "get_genesis_block ds (GTransactionRef t) = find_genesis_by_transaction_ref ds t"

definition probe_transactions ::
  "dag_state \<Rightarrow> generic_transaction_ref \<Rightarrow> verified_transactions option option option" where
  "probe_transactions ds g =
     (if gtr_round g = GENESIS_ROUND then Some (Some (map_option vb_transactions (get_genesis_block ds g)))
      else do {
        m \<leftarrow> vec_get (recent_transactions_by_authority ds) (gtr_author g);
        Some (map_option Some (bm_get m g)) })"

text \<open>
  The store is asked only when something is missing; a read error is a panic.
\<close>

definition get_verified_transactions ::
  "dag_state \<Rightarrow> generic_transaction_ref list \<Rightarrow> verified_transactions option list option" where
  "get_verified_transactions ds refs = do {
     probes \<leftarrow> mapM (probe_transactions ds) refs;
     case store_read_verified_transactions (ds_store ds) (missing_of refs probes) of
       Inl _ \<Rightarrow> None
     | Inr results \<Rightarrow> Some (batch_fill None probes results) }"

definition try_get_all_verified_transactions ::
  "dag_state \<Rightarrow> generic_transaction_ref list
     \<Rightarrow> (generic_transaction_ref list + verified_transactions list) option" where
  "try_get_all_verified_transactions ds refs = do {
     results \<leftarrow> get_verified_transactions ds refs;
     let missing = map fst (filter (\<lambda>(r, t). t = None) (zip refs results));
     if missing = [] then map_option Inr (mapM (\<lambda>t. t) results) else Some (Inl missing) }"

definition contains_transactions :: "dag_state \<Rightarrow> generic_transaction_ref list \<Rightarrow> bool list option" where
  "contains_transactions ds refs = do {
     probes \<leftarrow> mapM (\<lambda>g. if gtr_round g = GENESIS_ROUND then Some (Some (get_genesis_block ds g \<noteq> None))
         else do {
           m \<leftarrow> vec_get (recent_transactions_by_authority ds) (gtr_author g);
           Some (if bm_contains_key m g then Some True else None) }) refs;
     case store_contains_transactions (ds_store ds) (missing_of refs probes) of
       Inl _ \<Rightarrow> None
     | Inr results \<Rightarrow> Some (batch_fill False probes results) }"

definition get_cached_block_headers_for_transaction_refs ::
  "dag_state \<Rightarrow> transaction_ref list \<Rightarrow> verified_block_header option list option" where
  "get_cached_block_headers_for_transaction_refs ds refs =
     mapM (\<lambda>t. if tr_round t = GENESIS_ROUND
         then Some (map_option vb_header (find_genesis_by_transaction_ref ds t))
         else do {
           b \<leftarrow> resolve_block_ref ds t;
           Some (b \<bind> bm_get (recent_block_headers ds)) }) refs"

definition get_cached_shards ::
  "dag_state \<Rightarrow> generic_transaction_ref list \<Rightarrow> 8 word list option list option" where
  "get_cached_shards ds refs =
     mapM (\<lambda>g. do { m \<leftarrow> vec_get (recent_shards_by_authority ds) (gtr_author g); Some (bm_get m g) }) refs"

subsection \<open>Accepting headers\<close>

definition update_vec :: "'a list \<Rightarrow> nat \<Rightarrow> ('a \<Rightarrow> 'a) \<Rightarrow> 'a list option" where
  "update_vec xs i f = do { x \<leftarrow> vec_get xs i; Some (xs[i := f x]) }"

text \<open>
  The message to the cordial knowledge. \<open>ds_cordial\<close> lists every message passed to \<open>try_send\<close>, in order;
  the channel is bounded and drops a message silently when it is full, which is on the receiver's side.
  Reading the acknowledgments can panic.
\<close>

definition notify_header :: "dag_state \<Rightarrow> verified_block_header \<Rightarrow> data_source \<Rightarrow> dag_state option" where
  "notify_header ds h source =
     (if source \<noteq> CommitSyncer \<and> source \<noteq> Recover then
        case ds_cordial ds of
          None \<Rightarrow> Some ds
        | Some (msgs, evictions) \<Rightarrow> do {
            acks \<leftarrow> acknowledgments h;
            let commitments = (if ds_fast ds then get_transactions_commitments_batch ds acks
                               else replicate (length acks) None);
            Some (ds\<lparr> ds_cordial := Some (msgs @ [NewHeader h commitments], evictions) \<rparr>) }
      else Some ds)"

definition update_block_header_metadata ::
  "dag_state \<Rightarrow> verified_block_header \<Rightarrow> data_source \<Rightarrow> dag_state option" where
  "update_block_header_metadata ds h source = do {
     let r = reference h;
     refs \<leftarrow> update_vec (recent_headers_refs_by_authority ds) (br_author r) (bs_insert r);
     digests \<leftarrow> update_vec (tx_ref_to_block_digest_by_authority ds) (br_author r)
       (bm_insert (br_round r, bh_transactions_commitment h) (br_digest r));
     clock \<leftarrow> tc_add_block_header (ds_committee ds) (ds_threshold_clock ds) r;
     authority_at (ds_committee ds) (br_author r);
     notify_header (ds\<lparr>
         recent_block_headers := bm_insert r h (recent_block_headers ds),
         recent_headers_refs_by_authority := refs,
         tx_ref_to_block_digest_by_authority := digests,
         ds_threshold_clock := clock,
         highest_accepted_round := max (highest_accepted_round ds) (bh_round h) \<rparr>) h source }"

definition accept_block_header ::
  "dag_state \<Rightarrow> verified_block_header \<Rightarrow> data_source \<Rightarrow> dag_state option" where
  "accept_block_header ds h source = do {
     assert_that (bh_round h \<noteq> GENESIS_ROUND);
     let r = reference h;
     known \<leftarrow> contains_block_header ds r;
     if known then do { authority_at (ds_committee ds) (br_author r); Some ds }
     else do {
       authority_at (ds_committee ds) (br_author r);
       assert_that (br_author r = own_index (ds_ctx ds) \<longrightarrow>
         get_uncommitted_block_headers_at_slot ds (slot_of r) = []);
       ds' \<leftarrow> update_block_header_metadata ds h source;
       Some (ds'\<lparr> block_headers_to_write := block_headers_to_write ds' @ [h] \<rparr>) } }"

definition accept_block_headers ::
  "dag_state \<Rightarrow> verified_block_header list \<Rightarrow> data_source \<Rightarrow> dag_state option" where
  "accept_block_headers ds hs source = foldM (\<lambda>ds h. accept_block_header ds h source) ds hs"

subsection \<open>Transactions, shards and acknowledgments\<close>

definition threshold_clock_round :: "dag_state \<Rightarrow> round" where
  "threshold_clock_round ds = tc_round (ds_threshold_clock ds)"

definition add_pending_acknowledgment ::
  "dag_state \<Rightarrow> transaction_ref \<Rightarrow> digest option \<Rightarrow> dag_state option" where
  "add_pending_acknowledgment ds t block_digest = do {
     br \<leftarrow> (case block_digest of
               Some d \<Rightarrow> Some (Some (BlockRef (tr_round t) (tr_author t) d))
             | None \<Rightarrow> resolve_block_ref ds t);
     Some (case br of
             None \<Rightarrow> ds
           | Some r \<Rightarrow> ds\<lparr> pending_acknowledgments := bs_insert r (pending_acknowledgments ds) \<rparr>) }"

definition transactions_gtr :: "bool \<Rightarrow> verified_transactions \<Rightarrow> generic_transaction_ref option" where
  "transactions_gtr fast t =
     (if fast then Some (GTransactionRef (vt_transaction_ref t)) else map_option GBlockRef (vt_block_ref t))"

definition update_transaction_metadata ::
  "dag_state \<Rightarrow> verified_transactions \<Rightarrow> data_source \<Rightarrow> dag_state option" where
  "update_transaction_metadata ds t source =
     (case transactions_gtr (ds_fast ds) t of
        None \<Rightarrow> Some ds
      | Some g \<Rightarrow> do {
          let tr = vt_transaction_ref t;
          txs \<leftarrow> update_vec (recent_transactions_by_authority ds) (tr_author tr) (bm_insert g t);
          let ds' = ds\<lparr> recent_transactions_by_authority := txs \<rparr>;
          let min_round = threshold_clock_round ds' - gc_depth (ds_ctx ds');
          authority_at (ds_committee ds') (tr_author tr);
          if has_transactions t \<and> min_round \<le> tr_round tr \<and>
             source \<notin> {FastCommitSyncer, CommitSyncer, Recover}
          then add_pending_acknowledgment ds' tr (map_option br_digest (vt_block_ref t))
          else Some ds' })"

definition add_transactions ::
  "dag_state \<Rightarrow> verified_transactions \<Rightarrow> data_source \<Rightarrow> dag_state option" where
  "add_transactions ds t source =
     (case transactions_gtr (ds_fast ds) t of
        None \<Rightarrow> Some ds
      | Some g \<Rightarrow> do {
          m \<leftarrow> vec_get (recent_transactions_by_authority ds) (tr_author (vt_transaction_ref t));
          if bm_contains_key m g then do {
            (if has_transactions t then map_option (\<lambda>_. ()) (authority_at (ds_committee ds) (tr_author (vt_transaction_ref t)))
             else Some ());
            Some ds }
          else do {
            ds' \<leftarrow> update_transaction_metadata ds t source;
            Some (ds'\<lparr> transactions_to_write := transactions_to_write ds' @ [t] \<rparr>) } })"

definition add_shard :: "dag_state \<Rightarrow> generic_transaction_ref \<Rightarrow> 8 word list \<Rightarrow> dag_state option" where
  "add_shard ds g shard = do {
     m \<leftarrow> vec_get (recent_shards_by_authority ds) (gtr_author g);
     let ds' = ds\<lparr> recent_shards_by_authority :=
       (recent_shards_by_authority ds)[gtr_author g := bm_insert g shard m] \<rparr>;
     Some (if bm_get m g = None then
             case ds_cordial ds' of
               None \<Rightarrow> ds'
             | Some (msgs, evictions) \<Rightarrow> ds'\<lparr> ds_cordial := Some (msgs @ [NewShard g], evictions) \<rparr>
           else ds') }"

definition add_voting_block_headers :: "dag_state \<Rightarrow> verified_block_header list \<Rightarrow> dag_state" where
  "add_voting_block_headers ds hs =
     ds\<lparr> voting_block_headers_to_write := voting_block_headers_to_write ds @ hs \<rparr>"

definition set_fast_sync_ongoing_flag :: "dag_state \<Rightarrow> bool \<Rightarrow> dag_state" where
  "set_fast_sync_ongoing_flag ds flag = ds\<lparr> fast_sync_ongoing_flag_to_write := Some flag \<rparr>"

definition fast_sync_ongoing :: "dag_state \<Rightarrow> bool" where
  "fast_sync_ongoing ds = store_read_fast_sync_ongoing (ds_store ds)"

definition last_solid_commit_index :: "dag_state \<Rightarrow> commit_index" where
  "last_solid_commit_index ds =
     (case last_solid_subdag_base ds of None \<Rightarrow> 0 | Some sd \<Rightarrow> cr_index (sd_commit_ref sd))"

definition update_last_solid_subdag_base :: "dag_state \<Rightarrow> sub_dag_base \<Rightarrow> dag_state option" where
  "update_last_solid_subdag_base ds sd = do {
     assert_that (last_committed_rounds ds \<noteq> []);
     Some (ds\<lparr> last_solid_subdag_base := Some sd \<rparr>) }"

definition update_pending_commit_votes :: "dag_state \<Rightarrow> commit_ref list \<Rightarrow> dag_state" where
  "update_pending_commit_votes ds refs =
     ds\<lparr> pending_commit_votes := pending_commit_votes ds @ refs \<rparr>"

subsection \<open>What the reads return\<close>

text \<open>The header a reference denotes: genesis, memory, then storage.\<close>

definition header_of :: "dag_state \<Rightarrow> block_ref \<Rightarrow> verified_block_header option" where
  "header_of ds r =
     (if br_round r = GENESIS_ROUND then map_option vb_header (bm_get (ds_genesis ds) r)
      else case bm_get (recent_block_headers ds) r of
             Some h \<Rightarrow> Some h | None \<Rightarrow> bm_get (ms_block_headers (ds_store ds)) r)"

lemma get_verified_block_headers_map [dag_simps]:
  "get_verified_block_headers ds refs = map (header_of ds) refs"
proof -
  have "(case probe_header ds r of Some x \<Rightarrow> x | None \<Rightarrow> bm_get (ms_block_headers (ds_store ds)) r) = header_of ds r" for r
    by (simp add: probe_header_def header_of_def split: option.splits)
  then show ?thesis
    by (simp add: get_verified_block_headers_def Let_def store_read_verified_block_headers_def batch_fill_map)
qed

lemma get_verified_block_header_eq [dag_simps]: "get_verified_block_header ds = header_of ds"
  by (simp add: fun_eq_iff get_verified_block_header_def get_verified_block_headers_map)

definition genesis_ok :: "committee \<Rightarrow> (block_ref, verified_block) btreemap \<Rightarrow> bool" where
  "genesis_ok c m =
     (bm_invar m \<and> (\<forall>(r, b) \<in> set m. r = reference (vb_header b) \<and> br_round r = GENESIS_ROUND \<and> br_author r \<in> members c))"

definition headers_ok :: "committee \<Rightarrow> (block_ref, verified_block_header) btreemap \<Rightarrow> bool" where
  "headers_ok c m =
     (keyed_headers m \<and>
      (\<forall>(r, h) \<in> set m. br_round r \<noteq> GENESIS_ROUND \<and> br_author r \<in> members c \<and> header_fits h))"

definition index_ok ::
  "committee \<Rightarrow> (block_ref, verified_block_header) btreemap \<Rightarrow> block_ref btreeset list \<Rightarrow> bool" where
  "index_ok c m refs =
     (length refs = size_of c \<and>
      (\<forall>a < size_of c. bs_invar (refs ! a) \<and> set (refs ! a) = {r \<in> fst ` set m. br_author r = a}))"

text \<open>
  Memory and storage: what memory holds is stored or waits to be, they agree where both
  have a header, and storage has nothing above an authority's eviction round that memory
  has not.
\<close>

definition persisted_ok ::
  "(block_ref, verified_block_header) btreemap \<Rightarrow> verified_block_header list
     \<Rightarrow> (block_ref, verified_block_header) btreemap \<Rightarrow> bool" where
  "persisted_ok recent to_write stored =
     ((\<forall>r h. bm_get recent r = Some h \<longrightarrow> bm_get stored r = Some h \<or> bm_get stored r = None \<and> h \<in> set to_write) \<and>
      (\<forall>h \<in> set to_write. bm_get recent (reference h) = Some h))"

definition complete_above ::
  "round list \<Rightarrow> (block_ref, verified_block_header) btreemap \<Rightarrow> (block_ref, verified_block_header) btreemap \<Rightarrow> bool"
where
  "complete_above evicted recent stored =
     (\<forall>r \<in> fst ` set stored. evicted ! br_author r < br_round r \<longrightarrow> r \<in> fst ` set recent)"

definition rounds_ok ::
  "committee \<Rightarrow> round \<Rightarrow> round list \<Rightarrow> round list \<Rightarrow> round \<Rightarrow> (block_ref, verified_block_header) btreemap \<Rightarrow> bool"
where
  "rounds_ok c cached evicted committed leader_round recent =
     (0 < cached \<and> length evicted = size_of c \<and> length committed = size_of c \<and>
      (\<forall>a < size_of c. evicted ! a \<le> committed ! a - cached \<and> committed ! a \<le> leader_round \<and>
         (0 < committed ! a \<longrightarrow> (\<exists>r \<in> fst ` set recent. br_author r = a \<and> committed ! a \<le> br_round r))))"

definition dag_ok :: "dag_state \<Rightarrow> bool" where
  "dag_ok ds =
     (context_ok (ds_ctx ds) \<and> genesis_ok (ds_committee ds) (ds_genesis ds) \<and>
      headers_ok (ds_committee ds) (recent_block_headers ds) \<and>
      index_ok (ds_committee ds) (recent_block_headers ds) (recent_headers_refs_by_authority ds) \<and>
      length (tx_ref_to_block_digest_by_authority ds) = size_of (ds_committee ds) \<and>
      length (recent_transactions_by_authority ds) = size_of (ds_committee ds) \<and>
      length (recent_shards_by_authority ds) = size_of (ds_committee ds) \<and>
      store_ok (ds_store ds) \<and> headers_ok (ds_committee ds) (ms_block_headers (ds_store ds)) \<and>
      persisted_ok (recent_block_headers ds) (block_headers_to_write ds) (ms_block_headers (ds_store ds)) \<and>
      complete_above (evicted_rounds ds) (recent_block_headers ds) (ms_block_headers (ds_store ds)) \<and>
      rounds_ok (ds_committee ds) (ds_cached_rounds ds) (evicted_rounds ds) (last_committed_rounds ds)
        (last_commit_round ds) (recent_block_headers ds) \<and>
      (\<forall>t \<in> set (transactions_to_write ds). transactions_gtr (ds_fast ds) t \<noteq> None))"

lemma headers_ok_get:
  "headers_ok c m \<Longrightarrow> bm_get m r = Some h \<Longrightarrow>
     reference h = r \<and> br_round r \<noteq> 0 \<and> br_author r \<in> members c \<and> header_fits h"
  using keyed_headers_get [of m r h]
  by (auto simp: headers_ok_def GENESIS_ROUND_def dest!: bm_get_in_set)

lemma genesis_ok_get:
  "genesis_ok c m \<Longrightarrow> bm_get m r = Some b \<Longrightarrow> reference (vb_header b) = r \<and> br_round r = 0 \<and> br_author r \<in> members c"
  by (auto simp: genesis_ok_def GENESIS_ROUND_def dest!: bm_get_in_set)

lemma dag_ok_parts:
  assumes "dag_ok ds"
  shows dag_ok_context: "context_ok (ds_ctx ds)"
    and dag_ok_genesis: "genesis_ok (ds_committee ds) (ds_genesis ds)"
    and dag_ok_recent: "headers_ok (ds_committee ds) (recent_block_headers ds)"
    and dag_ok_stored: "headers_ok (ds_committee ds) (ms_block_headers (ds_store ds))"
    and dag_ok_index: "index_ok (ds_committee ds) (recent_block_headers ds) (recent_headers_refs_by_authority ds)"
    and dag_ok_persisted: "persisted_ok (recent_block_headers ds) (block_headers_to_write ds) (ms_block_headers (ds_store ds))"
    and dag_ok_complete: "complete_above (evicted_rounds ds) (recent_block_headers ds) (ms_block_headers (ds_store ds))"
    and dag_ok_rounds: "rounds_ok (ds_committee ds) (ds_cached_rounds ds) (evicted_rounds ds) (last_committed_rounds ds)
        (last_commit_round ds) (recent_block_headers ds)"
    and dag_ok_store: "store_ok (ds_store ds)"
  using assms by (simp_all add: dag_ok_def)

lemma dag_ok_committee: "dag_ok ds \<Longrightarrow> committee_ok (ds_committee ds)"
  using dag_ok_context by (simp add: context_ok_def)

lemma header_of_cases:
  assumes "dag_ok ds" "header_of ds r = Some h"
  shows "reference h = r \<and> br_author r \<in> members (ds_committee ds)"
proof (cases "br_round r = GENESIS_ROUND")
  case True
  with assms(2) obtain b where "bm_get (ds_genesis ds) r = Some b" "h = vb_header b"
    by (auto simp: header_of_def)
  then show ?thesis using genesis_ok_get [OF dag_ok_genesis [OF assms(1)]] by auto
next
  case False
  with assms(2) consider "bm_get (recent_block_headers ds) r = Some h" | "bm_get (ms_block_headers (ds_store ds)) r = Some h"
    by (auto simp: header_of_def split: option.splits)
  then show ?thesis
    using headers_ok_get [OF dag_ok_recent [OF assms(1)]] headers_ok_get [OF dag_ok_stored [OF assms(1)]]
    by cases blast+
qed

lemma header_of_reference: "dag_ok ds \<Longrightarrow> header_of ds r = Some h \<Longrightarrow> reference h = r"
  using header_of_cases by blast

lemma header_of_author: "dag_ok ds \<Longrightarrow> header_of ds r = Some h \<Longrightarrow> bh_author h \<in> members (ds_committee ds)"
  using header_of_cases reference_simps(2) by metis

text \<open>The optimised existence check agrees with the lookup.\<close>

lemma stored_below_recent:
  assumes "dag_ok ds" "bm_get (ms_block_headers (ds_store ds)) r = Some h" "bm_get (recent_block_headers ds) r = None"
  shows "\<exists>r' \<in> fst ` set (recent_block_headers ds). br_author r' = br_author r \<and> br_round r \<le> br_round r'"
proof -
  have r: "br_author r < size_of (ds_committee ds)" "br_round r \<noteq> 0"
    using headers_ok_get [OF dag_ok_stored [OF assms(1)] assms(2)] by (auto simp: members_def)
  have "r \<in> fst ` set (ms_block_headers (ds_store ds))" "r \<notin> fst ` set (recent_block_headers ds)"
    using assms(2,3) by (auto simp: bm_get_Some_iff [symmetric] bm_get_None_iff [symmetric])
  then have "br_round r \<le> evicted_rounds ds ! br_author r"
    using dag_ok_complete [OF assms(1)] unfolding complete_above_def by (meson not_le_imp_less)
  moreover have "evicted_rounds ds ! br_author r \<le> last_committed_rounds ds ! br_author r - ds_cached_rounds ds"
    "0 < last_committed_rounds ds ! br_author r \<longrightarrow> (\<exists>r' \<in> fst ` set (recent_block_headers ds).
       br_author r' = br_author r \<and> last_committed_rounds ds ! br_author r \<le> br_round r')"
    using dag_ok_rounds [OF assms(1)] r(1) unfolding rounds_ok_def by blast+
  ultimately show ?thesis using r(2) by fastforce
qed

lemma probe_contains_exact:
  assumes ok: "dag_ok ds" and a: "br_author r \<in> members (ds_committee ds)"
  shows "\<exists>p. probe_contains ds r = Some p \<and>
    (case p of Some b \<Rightarrow> b | None \<Rightarrow> bm_contains_key (ms_block_headers (ds_store ds)) r) = (header_of ds r \<noteq> None)"
proof -
  let ?refs = "recent_headers_refs_by_authority ds ! br_author r"
  have idx: "vec_get (recent_headers_refs_by_authority ds) (br_author r) = Some ?refs"
    "set ?refs = {x \<in> fst ` set (recent_block_headers ds). br_author x = br_author r}" "bs_invar ?refs"
    using dag_ok_index [OF ok] a by (auto simp: index_ok_def members_def)
  have gen: "bm_get (ds_genesis ds) r = Some b \<Longrightarrow> br_round r = 0" for b
    using genesis_ok_get [OF dag_ok_genesis [OF ok]] by blast
  have stored: "bm_get (ms_block_headers (ds_store ds)) r = Some h \<Longrightarrow> br_round r \<noteq> 0" for h
    using headers_ok_get [OF dag_ok_stored [OF ok]] by blast
  have rec: "r \<in> set ?refs \<longleftrightarrow> bm_get (recent_block_headers ds) r \<noteq> None"
    by (auto simp: idx(2) bm_get_None_iff)
  have rec0: "bm_get (recent_block_headers ds) r = Some h \<Longrightarrow> br_round r \<noteq> 0" for h
    using headers_ok_get [OF dag_ok_recent [OF ok]] by blast
  have absent: "bm_get (ms_block_headers (ds_store ds)) r = None"
    if "r \<notin> set ?refs" "bs_last ?refs = None \<or> (\<exists>l. bs_last ?refs = Some l \<and> br_round l < br_round r)"
  proof (rule ccontr)
    assume "bm_get (ms_block_headers (ds_store ds)) r \<noteq> None"
    then obtain h where h: "bm_get (ms_block_headers (ds_store ds)) r = Some h" by blast
    have "bm_get (recent_block_headers ds) r = None" using that(1) rec by blast
    from stored_below_recent [OF ok h this] obtain r' where
      "r' \<in> set ?refs" "br_round r \<le> br_round r'" unfolding idx(2) by blast
    with that(2) bs_last_greatest [OF idx(3)] show False
      by (force dest: block_ref_le_round)
  qed
  show ?thesis
    using idx(1) gen stored rec rec0 absent
    by (auto simp: probe_contains_def bm_contains_key_def header_of_def GENESIS_ROUND_def split: option.splits)
qed

lemma contains_block_headers_exact:
  assumes "dag_ok ds" "\<forall>r \<in> set refs. br_author r \<in> members (ds_committee ds)"
  shows "contains_block_headers ds refs = Some (map (\<lambda>r. header_of ds r \<noteq> None) refs)"
proof -
  from probe_contains_exact [OF assms(1)] obtain p where
    p: "\<And>r. br_author r \<in> members (ds_committee ds) \<Longrightarrow> probe_contains ds r = Some (p r) \<and>
      (case p r of Some b \<Rightarrow> b | None \<Rightarrow> bm_contains_key (ms_block_headers (ds_store ds)) r) = (header_of ds r \<noteq> None)"
    by metis
  then have "mapM (probe_contains ds) refs = Some (map p refs)"
    using assms(2) by (intro mapM_SomeI) auto
  then show ?thesis
    using p assms(2) by (simp add: contains_block_headers_def store_contains_block_headers_def batch_fill_map)
qed

lemma contains_block_header_exact:
  assumes "dag_ok ds" "br_author r \<in> members (ds_committee ds)"
  shows "contains_block_header ds r = Some (header_of ds r \<noteq> None)"
  using contains_block_headers_exact [of ds "[r]"] assms by (simp add: contains_block_header_def)

subsection \<open>Accepting a header\<close>

lemma update_vec_eq_Some [simp]: "i < length xs \<Longrightarrow> update_vec xs i f = Some (xs[i := f (xs ! i)])"
  by (simp add: update_vec_def)

lemma tc_add_block_header_total:
  assumes "br_author b \<in> members c"
  shows "\<exists>tc'. tc_add_block_header c tc b = Some tc'"
proof -
  have add: "\<exists>x agg. sa_add QuorumThreshold sa (br_author b) c = Some (x, agg)" for sa
    using assms by (simp add: sa_add_def stake_at_Some)
  from add [of "sa_clear (tc_aggregator tc)"] add [of "tc_aggregator tc"] show ?thesis
    unfolding tc_add_block_header_def by (cases "br_round b < tc_round tc"; cases "tc_round tc < br_round b") auto
qed

lemma notify_header_total:
  "acknowledgments h \<noteq> None \<Longrightarrow>
     \<exists>log. notify_header ds h source = Some (ds\<lparr> ds_cordial := log \<rparr>)"
  by (auto simp: notify_header_def Let_def split: option.splits intro: exI [of _ "ds_cordial ds"])

lemma update_block_header_metadata_total:
  assumes "dag_ok ds" "bh_author h \<in> members (ds_committee ds)" "acknowledgments h \<noteq> None"
  shows "\<exists>refs digests clock log.
    refs = (recent_headers_refs_by_authority ds)[bh_author h :=
       bs_insert (reference h) (recent_headers_refs_by_authority ds ! bh_author h)] \<and>
    length digests = size_of (ds_committee ds) \<and>
    update_block_header_metadata ds h source = Some (ds\<lparr>
         recent_block_headers := bm_insert (reference h) h (recent_block_headers ds),
         recent_headers_refs_by_authority := refs,
         tx_ref_to_block_digest_by_authority := digests,
         ds_threshold_clock := clock,
         highest_accepted_round := max (highest_accepted_round ds) (bh_round h),
         ds_cordial := log \<rparr>)"
proof -
  have len: "bh_author h < length (recent_headers_refs_by_authority ds)"
    "bh_author h < length (tx_ref_to_block_digest_by_authority ds)"
    "length (tx_ref_to_block_digest_by_authority ds) = size_of (ds_committee ds)"
    using assms(1,2) dag_ok_index [OF assms(1)] by (auto simp: dag_ok_def index_ok_def members_def)
  have auth: "\<exists>x. authority_at (ds_committee ds) (bh_author h) = Some x"
    using assms(2) by (simp add: authority_at_def members_def size_of_def)
  obtain clock where clock: "tc_add_block_header (ds_committee ds) (ds_threshold_clock ds) (reference h) = Some clock"
    using tc_add_block_header_total [of "reference h"] assms(2) by (metis reference_simps(2))
  let ?refs = "(recent_headers_refs_by_authority ds)[bh_author h :=
       bs_insert (reference h) (recent_headers_refs_by_authority ds ! bh_author h)]"
  let ?digests = "(tx_ref_to_block_digest_by_authority ds)[bh_author h :=
       bm_insert (bh_round h, bh_transactions_commitment h) (vbh_digest h) (tx_ref_to_block_digest_by_authority ds ! bh_author h)]"
  let ?ds1 = "ds\<lparr> recent_block_headers := bm_insert (reference h) h (recent_block_headers ds),
         recent_headers_refs_by_authority := ?refs, tx_ref_to_block_digest_by_authority := ?digests,
         ds_threshold_clock := clock, highest_accepted_round := max (highest_accepted_round ds) (bh_round h) \<rparr>"
  obtain log where log: "notify_header ?ds1 h source = Some (?ds1\<lparr> ds_cordial := log \<rparr>)"
    using notify_header_total [OF assms(3)] by blast
  have "update_block_header_metadata ds h source = notify_header ?ds1 h source"
    using len(1,2) auth clock by (auto simp: update_block_header_metadata_def Let_def)
  with log len(3) show ?thesis
    by (intro exI [of _ ?refs] exI [of _ ?digests] exI [of _ clock] exI [of _ log]) simp
qed

lemma headers_ok_insert:
  assumes "headers_ok c m" "bh_round h \<noteq> 0" "bh_author h \<in> members c" "header_fits h"
  shows "headers_ok c (bm_insert (reference h) h m)"
  using assms set_bm_insert_subset [of "reference h" h m] keyed_headers_insert [of m h]
  by (auto simp: headers_ok_def GENESIS_ROUND_def)

lemma index_ok_insert:
  assumes "index_ok c m refs"
  shows "index_ok c (bm_insert (reference h) h m)
    (refs[bh_author h := bs_insert (reference h) (refs ! bh_author h)])"
proof -
  have "bs_invar (refs[bh_author h := bs_insert (reference h) (refs ! bh_author h)] ! a) \<and>
      set (refs[bh_author h := bs_insert (reference h) (refs ! bh_author h)] ! a) =
        {r \<in> insert (reference h) (fst ` set m). br_author r = a}" if "a < size_of c" for a
    using assms that by (cases "a = bh_author h") (auto simp: index_ok_def)
  then show ?thesis using assms by (simp add: index_ok_def)
qed

lemma rounds_ok_insert:
  "rounds_ok c k ev co l m \<Longrightarrow> rounds_ok c k ev co l (bm_insert r h m)"
  unfolding rounds_ok_def by (simp only: fst_image_bm_insert) blast

lemma complete_above_insert: "complete_above ev m st \<Longrightarrow> complete_above ev (bm_insert r h m) st"
  unfolding complete_above_def by (simp only: fst_image_bm_insert) blast

lemma persisted_ok_insert:
  assumes "persisted_ok m ws st" "bm_get m (reference h) = None" "bm_get st (reference h) = None"
  shows "persisted_ok (bm_insert (reference h) h m) (ws @ [h]) st"
  using assms by (auto simp: persisted_ok_def)

lemma accept_block_header_ok:
  assumes ok: "dag_ok ds" and h: "bh_author h \<in> members (ds_committee ds)" "bh_round h \<noteq> 0" "header_fits h"
      "acknowledgments h \<noteq> None"
    and own: "bh_author h = own_index (ds_ctx ds) \<Longrightarrow> header_of ds (reference h) = None \<Longrightarrow>
      get_uncommitted_block_headers_at_slot ds (header_slot h) = []"
  shows "\<exists>ds'. accept_block_header ds h source = Some ds' \<and> dag_ok ds' \<and> ds_ctx ds' = ds_ctx ds \<and>
    last_commit ds' = last_commit ds \<and>
    highest_accepted_round ds' = (if header_of ds (reference h) = None then max (highest_accepted_round ds) (bh_round h)
      else highest_accepted_round ds) \<and>
    header_of ds' = (if header_of ds (reference h) = None then (header_of ds)(reference h \<mapsto> h) else header_of ds)"
proof -
  have known: "contains_block_header ds (reference h) = Some (header_of ds (reference h) \<noteq> None)"
    using contains_block_header_exact [OF ok] h by simp
  have auth: "\<exists>x. authority_at (ds_committee ds) (bh_author h) = Some x"
    using h by (simp add: authority_at_def members_def size_of_def)
  show ?thesis
  proof (cases "header_of ds (reference h)")
    case (Some g)
    with known auth h ok show ?thesis by (auto simp: accept_block_header_def GENESIS_ROUND_def Let_def)
  next
    case None
    then have fresh: "bm_get (recent_block_headers ds) (reference h) = None"
      "bm_get (ms_block_headers (ds_store ds)) (reference h) = None"
      using h by (auto simp: header_of_def GENESIS_ROUND_def split: option.splits)
    obtain refs digests clock log where upd:
      "refs = (recent_headers_refs_by_authority ds)[bh_author h :=
         bs_insert (reference h) (recent_headers_refs_by_authority ds ! bh_author h)]"
      "length digests = size_of (ds_committee ds)"
      "update_block_header_metadata ds h source = Some (ds\<lparr>
         recent_block_headers := bm_insert (reference h) h (recent_block_headers ds),
         recent_headers_refs_by_authority := refs, tx_ref_to_block_digest_by_authority := digests,
         ds_threshold_clock := clock, highest_accepted_round := max (highest_accepted_round ds) (bh_round h),
         ds_cordial := log \<rparr>)" (is "_ = Some ?ds1")
      using update_block_header_metadata_total [OF ok h(1,4)] by blast
    let ?ds2 = "?ds1\<lparr> block_headers_to_write := block_headers_to_write ds @ [h] \<rparr>"
    have "accept_block_header ds h source = Some ?ds2"
      using known None auth h own upd(3)
      by (auto simp: accept_block_header_def GENESIS_ROUND_def slot_of_reference Let_def)
    moreover have "dag_ok ?ds2"
      using ok h upd(1,2) headers_ok_insert [OF dag_ok_recent [OF ok] h(2,1,3)]
        index_ok_insert [OF dag_ok_index [OF ok]] rounds_ok_insert [OF dag_ok_rounds [OF ok]]
        complete_above_insert [OF dag_ok_complete [OF ok]] persisted_ok_insert [OF dag_ok_persisted [OF ok] fresh]
      by (simp add: dag_ok_def last_commit_round_def)
    moreover have "header_of ?ds2 = (header_of ds)(reference h \<mapsto> h)"
      using h by (auto simp: header_of_def fun_eq_iff GENESIS_ROUND_def split: option.splits)
    ultimately show ?thesis using None by auto
  qed
qed

text \<open>
  C23: the existence check that consults the per-authority index of recent references first
  and the store only for references below the index's last round answers, for every list of
  references by committee members, exactly whether a lookup of the header would succeed.
\<close>

theorem contains_block_headers_correct:
  assumes "dag_ok ds" "\<forall>r \<in> set refs. br_author r \<in> members (ds_committee ds)"
  shows "contains_block_headers ds refs = Some (map (\<lambda>h. h \<noteq> None) (get_verified_block_headers ds refs))"
  using contains_block_headers_exact [OF assms] by (simp add: get_verified_block_headers_map o_def)

text \<open>
  C19: accepting a header of a committee member that is not from genesis and whose acknowledgments can be
  read does not panic in a well-formed state (an own header only when the slot is still empty), keeps the state's
  invariant, makes the header readable, and changes no other lookup; a known header changes
  no lookup at all.
\<close>

theorem accept_block_header_correct:
  assumes "dag_ok ds" "bh_author h \<in> members (ds_committee ds)" "bh_round h \<noteq> 0" "header_fits h" "acknowledgments h \<noteq> None"
    and "bh_author h = own_index (ds_ctx ds) \<Longrightarrow> get_uncommitted_block_headers_at_slot ds (header_slot h) = []"
  shows "\<exists>ds'. accept_block_header ds h source = Some ds' \<and> dag_ok ds' \<and>
    (\<forall>r. get_verified_block_header ds' r =
       (if r = reference h \<and> get_verified_block_header ds r = None then Some h else get_verified_block_header ds r))"
  using accept_block_header_ok [OF assms(1-5), of source] assms(6) by (auto simp: dag_simps)

text \<open>
  The batched read, which answers from memory and fetches the misses from the store in
  one call, is pointwise the lookup of the single references, in order, for every batch.
\<close>

lemma batched_read_pointwise:
  "get_verified_block_headers ds refs = map (get_verified_block_header ds) refs"
  by (simp add: dag_simps)

end
