(* ===== verification/Dag_State_Commits.thy ===== *)
theory Dag_State_Commits
  imports Dag_State
begin

section \<open>The DAG state: commits, eviction, flushing, recovery\<close>

text \<open>
  \<open>crates/starfish/core/src/dag_state.rs\<close>, second part: recording commits and their
  reputation scores, taking votes and acknowledgments for the next block, evicting old data,
  writing the buffered data to the store, and rebuilding the state from the store after a
  restart or a fast sync. Main results: \<open>add_commit\<close> and \<open>flush\<close> keep the invariant \<open>dag_ok\<close>,
  a flush loses no header, and a state created on an empty store holds the genesis headers.
\<close>

subsection \<open>Commits\<close>

definition raise_committed_rounds :: "round list \<Rightarrow> block_ref list \<Rightarrow> round list option" where
  "raise_committed_rounds rounds refs =
     foldM (\<lambda>rs r. update_vec rs (br_author r) (\<lambda>old. max old (br_round r))) rounds refs"

definition add_commit :: "dag_state \<Rightarrow> trusted_commit \<Rightarrow> dag_state option" where
  "add_commit ds commit = do {
     let c = tcm_inner commit;
     stale \<leftarrow> (case last_commit ds of
         Some prev \<Rightarrow>
           if commit_index_of c \<le> commit_index_of (tcm_inner prev) then Some True
           else do {
             assert_that (commit_index_of c = commit_index_of (tcm_inner prev) + 1);
             assert_that (commit_timestamp_ms (tcm_inner prev) \<le> commit_timestamp_ms c);
             Some False }
       | None \<Rightarrow> do { assert_that (commit_index_of c = 1); Some False });
     if stale then Some ds
     else do {
       assert_that (case last_commit ds of None \<Rightarrow> True | Some prev \<Rightarrow> commit_round (tcm_inner prev) < commit_round c);
       rounds \<leftarrow> raise_committed_rounds (last_committed_rounds ds) (commit_block_headers c);
       mapM (\<lambda>(i, _). do { a \<leftarrow> to_authority_index (ds_committee ds) i; authority_at (ds_committee ds) a })
         (List.enumerate 0 rounds);
       Some (ds\<lparr> last_commit := Some commit, last_committed_rounds := rounds,
                 commits_to_write := commits_to_write ds @ [commit] \<rparr>) } }"

definition add_commit_info :: "dag_state \<Rightarrow> reputation_scores \<Rightarrow> dag_state option" where
  "add_commit_info ds scores = do {
     assert_that (scoring_is_empty (ds_scoring_subdag ds));
     let info = \<lparr> ci_committed_rounds = last_committed_rounds ds, ci_reputation_scores = scores \<rparr>;
     lc \<leftarrow> last_commit ds;
     Some (ds\<lparr> commit_info_to_write := commit_info_to_write ds @ [(tcm_reference lc, info)] \<rparr>) }"

definition take_commit_votes :: "dag_state \<Rightarrow> nat \<Rightarrow> commit_ref list \<times> dag_state" where
  "take_commit_votes ds limit =
     (take limit (pending_commit_votes ds), ds\<lparr> pending_commit_votes := drop limit (pending_commit_votes ds) \<rparr>)"

definition last_commit_index :: "dag_state \<Rightarrow> commit_index" where
  "last_commit_index ds = (case last_commit ds of Some c \<Rightarrow> commit_index_of (tcm_inner c) | None \<Rightarrow> 0)"

definition last_commit_digest :: "dag_state \<Rightarrow> digest" where
  "last_commit_digest ds = (case last_commit ds of Some c \<Rightarrow> tcm_digest c | None \<Rightarrow> 0)"

definition last_commit_timestamp_ms :: "dag_state \<Rightarrow> timestamp_ms" where
  "last_commit_timestamp_ms ds =
     (case last_commit ds of Some c \<Rightarrow> commit_timestamp_ms (tcm_inner c) | None \<Rightarrow> 0)"

definition last_commit_leader :: "dag_state \<Rightarrow> slot option" where
  "last_commit_leader ds =
     (case last_commit ds of
        Some c \<Rightarrow> Some (slot_of (commit_leader (tcm_inner c)))
      | None \<Rightarrow> (case ds_genesis ds of [] \<Rightarrow> None | (r, _) # _ \<Rightarrow> Some (slot_of r)))"

definition gc_round :: "dag_state \<Rightarrow> round \<Rightarrow> round" where
  "gc_round ds r = r - gc_depth (ds_ctx ds) * 2"

definition gc_round_for_last_commit :: "dag_state \<Rightarrow> round" where
  "gc_round_for_last_commit ds = gc_round ds (last_commit_round ds)"

definition gc_round_for_last_solid_commit :: "dag_state \<Rightarrow> round" where
  "gc_round_for_last_solid_commit ds =
     (case last_solid_subdag_base ds of Some sd \<Rightarrow> gc_round ds (br_round (sd_leader sd)) | None \<Rightarrow> GENESIS_ROUND)"

definition get_block_refs_for_recent_commits :: "dag_state \<Rightarrow> nat \<Rightarrow> block_ref list" where
  "get_block_refs_for_recent_commits ds num_commits =
     (if last_commit_index ds = 0 then []
      else let start_index = max (last_commit_index ds - num_commits) 1;
               commits = store_scan_commits (ds_store ds) (commit_range_new start_index (last_commit_index ds))
           in bs_from_list (concat (map (\<lambda>c. commit_block_headers (tcm_inner c)) commits)))"

subsection \<open>Eviction\<close>

definition eviction_round :: "round \<Rightarrow> round \<Rightarrow> round" where
  "eviction_round committed cached = committed - cached"

definition calculate_authority_eviction_round :: "dag_state \<Rightarrow> authority_index \<Rightarrow> round option" where
  "calculate_authority_eviction_round ds a = do {
     r \<leftarrow> vec_get (last_committed_rounds ds) a;
     Some (eviction_round r (ds_cached_rounds ds)) }"

definition evict_headers_of :: "dag_state \<Rightarrow> authority_index \<Rightarrow> dag_state option" where
  "evict_headers_of ds a = do {
     er \<leftarrow> calculate_authority_eviction_round ds a;
     refs \<leftarrow> vec_get (recent_headers_refs_by_authority ds) a;
     let split_key = BlockRef (er + 1) a 0;
     let to_keep = bs_split_off split_key refs;
     let evicted = filter (\<lambda>r. r < split_key) refs;
     evs \<leftarrow> vec_set (evicted_rounds ds) a er;
     Some (ds\<lparr> recent_headers_refs_by_authority := (recent_headers_refs_by_authority ds)[a := to_keep],
               recent_block_headers := fold bm_remove evicted (recent_block_headers ds),
               evicted_rounds := evs \<rparr>) }"

definition evict_headers :: "dag_state \<Rightarrow> dag_state option" where
  "evict_headers ds = foldM evict_headers_of ds (map fst (authorities_enum (ds_committee ds)))"

definition split_ref :: "bool \<Rightarrow> round \<Rightarrow> authority_index \<Rightarrow> generic_transaction_ref" where
  "split_ref fast r a = (if fast then GTransactionRef (TransactionRef r a 0) else GBlockRef (BlockRef r a 0))"

definition evict_shards_of :: "dag_state \<Rightarrow> authority_index \<Rightarrow> dag_state option" where
  "evict_shards_of ds a = do {
     er \<leftarrow> calculate_authority_eviction_round ds a;
     shards \<leftarrow> update_vec (recent_shards_by_authority ds) a (bm_split_off (split_ref (ds_fast ds) (er + 1) a));
     Some (ds\<lparr> recent_shards_by_authority := shards \<rparr>) }"

definition evict_shards :: "dag_state \<Rightarrow> dag_state option" where
  "evict_shards ds = foldM evict_shards_of ds (map fst (authorities_enum (ds_committee ds)))"

definition evict_transactions_of :: "round \<Rightarrow> dag_state \<Rightarrow> authority_index \<Rightarrow> dag_state option" where
  "evict_transactions_of gc ds a = do {
     er \<leftarrow> calculate_authority_eviction_round ds a;
     txs \<leftarrow> update_vec (recent_transactions_by_authority ds) a
       (bm_split_off (split_ref (ds_fast ds) (min gc (er + 1)) a));
     Some (ds\<lparr> recent_transactions_by_authority := txs \<rparr>) }"

definition evict_transactions :: "dag_state \<Rightarrow> dag_state option" where
  "evict_transactions ds =
     foldM (evict_transactions_of (gc_round_for_last_solid_commit ds)) ds (map fst (authorities_enum (ds_committee ds)))"

definition evict_tx_ref_to_block_digests_of :: "round \<Rightarrow> dag_state \<Rightarrow> authority_index \<Rightarrow> dag_state option" where
  "evict_tx_ref_to_block_digests_of gc ds a = do {
     er \<leftarrow> calculate_authority_eviction_round ds a;
     digests \<leftarrow> update_vec (tx_ref_to_block_digest_by_authority ds) a (bm_split_off (min gc (er + 1), 0));
     Some (ds\<lparr> tx_ref_to_block_digest_by_authority := digests \<rparr>) }"

definition evict_tx_ref_to_block_digests :: "dag_state \<Rightarrow> dag_state option" where
  "evict_tx_ref_to_block_digests ds =
     foldM (evict_tx_ref_to_block_digests_of (gc_round_for_last_solid_commit ds)) ds
       (map fst (authorities_enum (ds_committee ds)))"

definition evict_pending_acknowledgments :: "dag_state \<Rightarrow> dag_state" where
  "evict_pending_acknowledgments ds =
     (let min_round = threshold_clock_round ds - gc_depth (ds_ctx ds)
      in ds\<lparr> pending_acknowledgments := bs_split_off (BlockRef min_round 0 0) (pending_acknowledgments ds) \<rparr>)"

definition evict_cordial_knowledge :: "dag_state \<Rightarrow> dag_state option" where
  "evict_cordial_knowledge ds =
     (case ds_cordial ds of
        None \<Rightarrow> Some ds
      | Some (msgs, evictions) \<Rightarrow> do {
          rounds \<leftarrow> mapM (calculate_authority_eviction_round ds) (map fst (authorities_enum (ds_committee ds)));
          Some (ds\<lparr> ds_cordial := Some (msgs, evictions @ [rounds]) \<rparr>) })"

text \<open>
  \<open>take_acknowledgments\<close>: the references below the clock's round, at most \<open>limit\<close> of them;
  the set is then split off at the last one taken, which stays in it.
\<close>

definition take_acknowledgments :: "dag_state \<Rightarrow> nat \<Rightarrow> block_ref list \<times> dag_state" where
  "take_acknowledgments ds limit =
     (let ds1 = evict_pending_acknowledgments ds;
          taken = take limit (takeWhile (\<lambda>a. br_round a < threshold_clock_round ds1) (pending_acknowledgments ds1))
      in (taken, if taken = [] then ds1
                 else ds1\<lparr> pending_acknowledgments := bs_split_off (last taken) (pending_acknowledgments ds1) \<rparr>))"

subsection \<open>Flushing\<close>

definition pending_batch :: "dag_state \<Rightarrow> write_batch" where
  "pending_batch ds = \<lparr> wb_transactions = transactions_to_write ds, wb_block_headers = block_headers_to_write ds,
     wb_commits = commits_to_write ds, wb_commit_info = commit_info_to_write ds,
     wb_voting_block_headers = voting_block_headers_to_write ds,
     wb_fast_commit_sync_flag = fast_sync_ongoing_flag_to_write ds \<rparr>"

definition nothing_pending :: "dag_state \<Rightarrow> bool" where
  "nothing_pending ds =
     (transactions_to_write ds = [] \<and> block_headers_to_write ds = [] \<and> commits_to_write ds = [] \<and>
      commit_info_to_write ds = [] \<and> voting_block_headers_to_write ds = [] \<and> fast_sync_ongoing_flag_to_write ds = None)"

definition clear_pending :: "dag_state \<Rightarrow> dag_state" where
  "clear_pending ds = ds\<lparr> transactions_to_write := [], block_headers_to_write := [], commits_to_write := [],
     commit_info_to_write := [], voting_block_headers_to_write := [], fast_sync_ongoing_flag_to_write := None \<rparr>"

definition flush :: "dag_state \<Rightarrow> dag_state option" where
  "flush ds =
     (if nothing_pending ds then Some ds
      else do {
        store \<leftarrow> store_write (ds_fast ds) (pending_batch ds) (ds_store ds);
        ds1 \<leftarrow> evict_headers ((clear_pending ds)\<lparr> ds_store := store \<rparr>);
        ds2 \<leftarrow> evict_shards ds1;
        ds3 \<leftarrow> evict_transactions ds2;
        ds4 \<leftarrow> evict_tx_ref_to_block_digests ds3;
        evict_cordial_knowledge (evict_pending_acknowledgments ds4) })"

subsection \<open>Scoring\<close>

definition recover_last_commit_info :: "dag_state \<Rightarrow> (commit_ref \<times> commit_info) option" where
  "recover_last_commit_info ds = store_read_last_commit_info (ds_store ds)"

definition info_index :: "commit_ref \<times> commit_info \<Rightarrow> commit_index" where
  "info_index ci =
     (let e = range_end (rs_commit_range (ci_reputation_scores (snd ci)))
      in if e = GENESIS_COMMIT_INDEX then cr_index (fst ci) else e)"

definition last_commit_info_index :: "dag_state \<Rightarrow> commit_index" where
  "last_commit_info_index ds =
     (case recover_last_commit_info ds of None \<Rightarrow> GENESIS_COMMIT_INDEX | Some ci \<Rightarrow> info_index ci)"

definition add_scoring_subdags :: "dag_state \<Rightarrow> 'a sub_dag_base_scheme list \<Rightarrow> dag_state option" where
  "add_scoring_subdags ds sds = do {
     ss \<leftarrow> add_subdags (ds_committee ds) (ds_scoring_subdag ds) sds;
     Some (ds\<lparr> ds_scoring_subdag := ss \<rparr>) }"

definition clear_scoring_subdag :: "dag_state \<Rightarrow> dag_state" where
  "clear_scoring_subdag ds = ds\<lparr> ds_scoring_subdag := scoring_clear (ds_scoring_subdag ds) \<rparr>"

definition scoring_subdags_count :: "dag_state \<Rightarrow> nat option" where
  "scoring_subdags_count ds = scored_subdags_count (ds_scoring_subdag ds)"

definition is_scoring_subdag_empty :: "dag_state \<Rightarrow> bool" where
  "is_scoring_subdag_empty ds = scoring_is_empty (ds_scoring_subdag ds)"

definition calculate_scoring_subdag_scores :: "dag_state \<Rightarrow> reputation_scores option" where
  "calculate_scoring_subdag_scores ds = calculate_distributed_vote_scores (ds_committee ds) (ds_scoring_subdag ds)"

definition scoring_subdag_commit_range :: "dag_state \<Rightarrow> commit_index option" where
  "scoring_subdag_commit_range ds = map_option range_end (ss_commit_range (ds_scoring_subdag ds))"

subsection \<open>Recovery\<close>

definition load_cached_data_for_authority ::
  "data_source \<Rightarrow> dag_state \<Rightarrow> authority_index \<times> round \<Rightarrow> dag_state option" where
  "load_cached_data_for_authority source ds ac = do {
     let (a, committed) = ac;
     let er = eviction_round committed (ds_cached_rounds ds);
     evs \<leftarrow> vec_set (evicted_rounds ds) a er;
     let ds1 = ds\<lparr> evicted_rounds := evs \<rparr>;
     headers \<leftarrow> store_scan_block_headers_by_author (ds_store ds1) a (er + 1);
     ds2 \<leftarrow> foldM (\<lambda>s h. update_block_header_metadata s h source) ds1 headers;
     case store_scan_transactions_by_author (ds_fast ds2) (ds_store ds2) a (er + 1) of
       Inl _ \<Rightarrow> None
     | Inr txs \<Rightarrow> foldM (\<lambda>s t. update_transaction_metadata s t source) ds2 txs }"

definition load_all ::
  "data_source \<Rightarrow> dag_state \<Rightarrow> dag_state option" where
  "load_all source ds =
     foldM (\<lambda>s (i, r). do { a \<leftarrow> to_authority_index (ds_committee ds) i; load_cached_data_for_authority source s (a, r) })
       ds (List.enumerate 0 (last_committed_rounds ds))"

definition read_headers :: "mem_store \<Rightarrow> block_ref list \<Rightarrow> verified_block_header option list option" where
  "read_headers s refs = Some (store_read_verified_block_headers s refs)"

definition recover_commits ::
  "mem_store \<Rightarrow> trusted_commit list \<Rightarrow> round list \<Rightarrow> (round list \<times> pending_sub_dag list) option" where
  "recover_commits s commits rounds =
     foldM (\<lambda>(rs, sds) c. do {
         rs' \<leftarrow> raise_committed_rounds rs (commit_block_headers (tcm_inner c));
         sd \<leftarrow> load_pending_subdag_from_store (read_headers s) c [];
         Some (rs', sds @ [sd]) }) (rounds, []) commits"

definition recovery_start :: "consensus_context \<Rightarrow> mem_store \<Rightarrow> round list \<times> commit_index" where
  "recovery_start ctx s =
     (case store_read_last_commit_info s of
        Some ci \<Rightarrow> (ci_committed_rounds (snd ci), sat_add_u32 (info_index ci) 1)
      | None \<Rightarrow> (replicate (size_of (ctx_committee ctx)) 0, GENESIS_COMMIT_INDEX + 1))"

definition initial_state ::
  "(block_header \<Rightarrow> digest) \<Rightarrow> consensus_context \<Rightarrow> mem_store \<Rightarrow> trusted_commit option \<Rightarrow> round list \<Rightarrow> scoring_subdag
     \<Rightarrow> dag_state" where
  "initial_state digest_of ctx s lc rounds ss =
     (let n = size_of (ctx_committee ctx)
      in \<lparr> ds_ctx = ctx,
           ds_genesis = fold (\<lambda>b m. bm_insert (reference (vb_header b)) b m) (genesis_blocks digest_of ctx) [],
           recent_block_headers = [], recent_transactions_by_authority = replicate n [],
           recent_shards_by_authority = replicate n [], recent_headers_refs_by_authority = replicate n [],
           tx_ref_to_block_digest_by_authority = replicate n [], ds_threshold_clock = tc_new 1,
           evicted_rounds = replicate n 0, highest_accepted_round = 0, last_commit = lc,
           last_solid_subdag_base = None, last_committed_rounds = rounds, ds_scoring_subdag = ss,
           pending_commit_votes = [], pending_acknowledgments = [], transactions_to_write = [],
           block_headers_to_write = [], commits_to_write = [], voting_block_headers_to_write = [],
           fast_sync_ongoing_flag_to_write = None, commit_info_to_write = [], ds_store = s,
           ds_cached_rounds = dag_state_cached_rounds ctx, ds_cordial = None \<rparr>)"

definition dag_state_new ::
  "(block_header \<Rightarrow> digest) \<Rightarrow> consensus_context \<Rightarrow> mem_store \<Rightarrow> dag_state option" where
  "dag_state_new digest_of ctx s = do {
     let lc = store_read_last_commit s;
     let (rounds, start) = recovery_start ctx s;
     (rounds', ss) \<leftarrow>
       (if store_read_fast_sync_ongoing s then Some (rounds, scoring_subdag_new)
        else do {
          (rounds', sds) \<leftarrow> (case lc of
              None \<Rightarrow> Some (rounds, [])
            | Some c \<Rightarrow> recover_commits s
                (store_scan_commits s (commit_range_new start (commit_index_of (tcm_inner c)))) rounds);
          ss \<leftarrow> add_subdags (ctx_committee ctx) scoring_subdag_new sds;
          Some (rounds', ss) });
     load_all Recover (initial_state digest_of ctx s lc rounds' ss) }"

definition set_cordial_knowledge_senders :: "dag_state \<Rightarrow> dag_state" where
  "set_cordial_knowledge_senders ds = ds\<lparr> ds_cordial := Some ([], []) \<rparr>"

definition rebuild_scoring_subdag_from_store :: "dag_state \<Rightarrow> dag_state option" where
  "rebuild_scoring_subdag_from_store ds =
     (case last_commit ds of
        None \<Rightarrow> Some ds
      | Some lc \<Rightarrow>
          let start = sat_add_u32 (last_commit_info_index ds) 1; e = commit_index_of (tcm_inner lc)
          in if e < start then Some ds
             else do {
               sds \<leftarrow> mapM (\<lambda>c. load_pending_subdag_from_store (read_headers (ds_store ds)) c [])
                 (store_scan_commits (ds_store ds) (commit_range_new start e));
               if sds = [] then Some ds else add_scoring_subdags ds sds })"

definition reinitialize :: "dag_state \<Rightarrow> dag_state option" where
  "reinitialize ds = do {
     let n = size_of (ds_committee ds);
     let ds1 = ds\<lparr> ds_scoring_subdag := scoring_clear (ds_scoring_subdag ds), recent_block_headers := [],
       recent_transactions_by_authority := replicate n [], recent_shards_by_authority := replicate n [],
       recent_headers_refs_by_authority := replicate n [], tx_ref_to_block_digest_by_authority := replicate n [],
       pending_commit_votes := [], pending_acknowledgments := [],
       ds_threshold_clock := tc_new (tc_round (ds_threshold_clock ds)) \<rparr>;
     ds2 \<leftarrow> load_all FastCommitSyncer ds1;
     rebuild_scoring_subdag_from_store ds2 }"

subsection \<open>Recording a commit\<close>

lemma header_of_cong:
  "ds_genesis ds' = ds_genesis ds \<Longrightarrow> recent_block_headers ds' = recent_block_headers ds \<Longrightarrow>
     ms_block_headers (ds_store ds') = ms_block_headers (ds_store ds) \<Longrightarrow> header_of ds' = header_of ds"
  by (rule ext) (simp add: header_of_def split: option.splits)

lemma raise_committed_rounds_total:
  assumes "\<forall>r \<in> set refs. br_author r < length rounds"
  shows "\<exists>rs. raise_committed_rounds rounds refs = Some rs \<and> length rs = length rounds \<and>
    (\<forall>a < length rounds. rounds ! a \<le> rs ! a \<and>
       (rs ! a = rounds ! a \<or> (\<exists>r \<in> set refs. br_author r = a \<and> rs ! a = br_round r)))"
  using assms
proof (induction refs arbitrary: rounds)
  case (Cons r refs)
  let ?rounds = "rounds[br_author r := max (rounds ! br_author r) (br_round r)]"
  from Cons.IH [of ?rounds] Cons.prems obtain rs where rs: "raise_committed_rounds ?rounds refs = Some rs"
    "length rs = length rounds" "\<forall>a < length rounds. ?rounds ! a \<le> rs ! a \<and>
       (rs ! a = ?rounds ! a \<or> (\<exists>r \<in> set refs. br_author r = a \<and> rs ! a = br_round r))" by auto
  have "raise_committed_rounds rounds (r # refs) = Some rs"
    using rs(1) Cons.prems by (simp add: raise_committed_rounds_def)
  moreover have "rounds ! a \<le> rs ! a \<and> (rs ! a = rounds ! a \<or> (\<exists>x \<in> set (r # refs). br_author x = a \<and> rs ! a = br_round x))"
    if "a < length rounds" for a
  proof (cases "a = br_author r")
    case True
    with that rs(3) have *: "max (rounds ! a) (br_round r) \<le> rs ! a"
      "rs ! a = max (rounds ! a) (br_round r) \<or> (\<exists>x \<in> set refs. br_author x = a \<and> rs ! a = br_round x)" by auto
    then show ?thesis using True by (auto simp: max_def split: if_splits)
  next
    case False
    with that rs(3) show ?thesis by auto
  qed
  ultimately show ?case using rs(2) by blast
qed (simp add: raise_committed_rounds_def)

lemma header_of_updates [dag_simps]:
  "header_of (ds\<lparr> recent_shards_by_authority := shards \<rparr>) = header_of ds"
  "header_of (ds\<lparr> recent_transactions_by_authority := txs \<rparr>) = header_of ds"
  "header_of (ds\<lparr> tx_ref_to_block_digest_by_authority := digests \<rparr>) = header_of ds"
  "header_of (ds\<lparr> pending_acknowledgments := acks \<rparr>) = header_of ds"
  "header_of (ds\<lparr> ds_cordial := log \<rparr>) = header_of ds"
  by (rule header_of_cong; simp)+

text \<open>What the linearizer hands over: the next commit, all of whose headers are in memory.\<close>

definition next_commit :: "dag_state \<Rightarrow> trusted_commit \<Rightarrow> bool" where
  "next_commit ds commit =
     (commit_index_of (tcm_inner commit) = last_commit_index ds + 1 \<and>
      last_commit_timestamp_ms ds \<le> commit_timestamp_ms (tcm_inner commit) \<and>
      last_commit_round ds < commit_round (tcm_inner commit) \<and>
      (\<forall>r \<in> set (commit_block_headers (tcm_inner commit)).
         bm_get (recent_block_headers ds) r \<noteq> None \<and> br_round r \<le> commit_round (tcm_inner commit)))"

lemma committee_indices_total:
  "length xs = size_of c \<Longrightarrow> committee_ok c \<Longrightarrow>
     \<exists>ys. mapM (\<lambda>(i, _). do { a \<leftarrow> to_authority_index c i; authority_at c a }) (List.enumerate 0 xs) = Some ys"
  by (rule mapM_total)
    (auto simp: to_authority_index_def authority_at_def size_of_def in_set_enumerate_eq committee_ok_def)

lemma add_commit_fresh:
  assumes "next_commit ds commit"
  shows "add_commit ds commit = do {
       rounds \<leftarrow> raise_committed_rounds (last_committed_rounds ds) (commit_block_headers (tcm_inner commit));
       mapM (\<lambda>(i, _). do { a \<leftarrow> to_authority_index (ds_committee ds) i; authority_at (ds_committee ds) a })
         (List.enumerate 0 rounds);
       Some (ds\<lparr> last_commit := Some commit, last_committed_rounds := rounds,
                 commits_to_write := commits_to_write ds @ [commit] \<rparr>) }"
  using assms
  by (cases "last_commit ds")
    (auto simp: add_commit_def Let_def next_commit_def last_commit_index_def last_commit_timestamp_ms_def
      last_commit_round_def commit_round_def)

lemma add_commit_ok:
  assumes ok: "dag_ok ds" and next_c: "next_commit ds commit"
  shows "\<exists>ds'. add_commit ds commit = Some ds' \<and> dag_ok ds' \<and> header_of ds' = header_of ds \<and>
    last_commit ds' = Some commit \<and> ds_ctx ds' = ds_ctx ds"
proof -
  let ?refs = "commit_block_headers (tcm_inner commit)" and ?lcr = "last_committed_rounds ds"
  have len: "length ?lcr = size_of (ds_committee ds)" using dag_ok_rounds [OF ok] by (simp add: rounds_ok_def)
  have rec: "br_author r < size_of (ds_committee ds)" "r \<in> fst ` set (recent_block_headers ds)"
    "br_round r \<le> commit_round (tcm_inner commit)" if "r \<in> set ?refs" for r
    using next_c that headers_ok_get [OF dag_ok_recent [OF ok]]
    by (auto simp: next_commit_def members_def bm_get_Some_iff [symmetric])
  from raise_committed_rounds_total [of ?refs ?lcr] rec(1) len obtain rs where
    rs: "raise_committed_rounds ?lcr ?refs = Some rs" "length rs = length ?lcr"
      "\<And>a. a < length ?lcr \<Longrightarrow> ?lcr ! a \<le> rs ! a \<and>
        (rs ! a = ?lcr ! a \<or> (\<exists>r \<in> set ?refs. br_author r = a \<and> rs ! a = br_round r))" by auto
  let ?ds = "ds\<lparr> last_commit := Some commit, last_committed_rounds := rs, commits_to_write := commits_to_write ds @ [commit] \<rparr>"
  have "add_commit ds commit = Some ?ds"
    using add_commit_fresh [OF next_c] rs(1,2) committee_indices_total [of rs "ds_committee ds"] len dag_ok_committee [OF ok]
    by auto
  moreover have "rounds_ok (ds_committee ds) (ds_cached_rounds ds) (evicted_rounds ds) rs (commit_round (tcm_inner commit)) (recent_block_headers ds)"
    unfolding rounds_ok_def
  proof (intro conjI allI impI)
    fix a assume a: "a < size_of (ds_committee ds)"
    have old: "evicted_rounds ds ! a \<le> ?lcr ! a - ds_cached_rounds ds" "?lcr ! a \<le> last_commit_round ds"
      "0 < ?lcr ! a \<longrightarrow> (\<exists>r \<in> fst ` set (recent_block_headers ds). br_author r = a \<and> ?lcr ! a \<le> br_round r)"
      using dag_ok_rounds [OF ok] a unfolding rounds_ok_def by blast+
    have new: "?lcr ! a \<le> rs ! a" "rs ! a = ?lcr ! a \<or> (\<exists>r \<in> set ?refs. br_author r = a \<and> rs ! a = br_round r)"
      using rs(3) [of a] a len by auto
    show "evicted_rounds ds ! a \<le> rs ! a - ds_cached_rounds ds" using old(1) new(1) by linarith
    show "rs ! a \<le> commit_round (tcm_inner commit)"
      using new(2) old(2) next_c rec(3) by (auto simp: next_commit_def)
    show "\<exists>r \<in> fst ` set (recent_block_headers ds). br_author r = a \<and> rs ! a \<le> br_round r" if "0 < rs ! a"
      using new(2) old(3) that rec(2) by (metis order_refl)
  qed (use dag_ok_rounds [OF ok] rs(2) len in \<open>simp_all add: rounds_ok_def\<close>)
  then have "dag_ok ?ds" using ok by (simp add: dag_ok_def last_commit_round_def commit_round_def)
  moreover have "header_of ?ds = header_of ds" by (rule header_of_cong) simp_all
  ultimately show ?thesis by auto
qed

subsection \<open>Flushing\<close>

definition all_stored :: "dag_state \<Rightarrow> bool" where
  "all_stored ds = (\<forall>r h. bm_get (recent_block_headers ds) r = Some h \<longrightarrow> bm_get (ms_block_headers (ds_store ds)) r = Some h)"

lemma write_transactions_total:
  "\<forall>t \<in> set ts. transactions_gtr fast t \<noteq> None \<Longrightarrow> \<exists>s'. foldM (write_transactions fast) s ts = Some s'"
  by (induction ts arbitrary: s)
    (auto simp: write_transactions_def Let_def transactions_gtr_def split: if_splits)

lemma store_write_pending_total:
  assumes "dag_ok ds"
  shows "\<exists>s. store_write (ds_fast ds) (pending_batch ds) (ds_store ds) = Some s"
proof -
  have "\<forall>t \<in> set (wb_transactions (pending_batch ds)). transactions_gtr (ds_fast ds) t \<noteq> None"
    using assms by (simp add: dag_ok_def pending_batch_def)
  from write_transactions_total [OF this] obtain s' where
    "foldM (write_transactions (ds_fast ds)) (fold write_block_header (wb_block_headers (pending_batch ds)) (ds_store ds))
       (wb_transactions (pending_batch ds)) = Some s'" by blast
  then show ?thesis by (simp add: store_write_def Let_def)
qed

lemma find_in_list: "find P xs = Some x \<Longrightarrow> x \<in> set xs \<and> P x"
  by (induction xs) (auto split: if_splits)

lemma pending_header:
  assumes "dag_ok ds" "find (\<lambda>h. reference h = r) (rev (block_headers_to_write ds)) = Some h"
  shows "bm_get (recent_block_headers ds) r = Some h"
proof -
  have "h \<in> set (block_headers_to_write ds)" "reference h = r" using find_in_list [OF assms(2)] by simp_all
  then show ?thesis using dag_ok_persisted [OF assms(1)] unfolding persisted_ok_def by blast
qed

lemma written_lookup:
  assumes ok: "dag_ok ds" and w: "store_write (ds_fast ds) (pending_batch ds) (ds_store ds) = Some s"
  shows "bm_get (ms_block_headers s) r =
    (case bm_get (recent_block_headers ds) r of Some h \<Rightarrow> Some h | None \<Rightarrow> bm_get (ms_block_headers (ds_store ds)) r)"
proof -
  have lookup: "bm_get (ms_block_headers s) r = (case find (\<lambda>h. reference h = r) (rev (block_headers_to_write ds)) of
      Some h \<Rightarrow> Some h | None \<Rightarrow> bm_get (ms_block_headers (ds_store ds)) r)"
    using store_write_lookup [OF w] by (simp add: pending_batch_def)
  show ?thesis
  proof (cases "find (\<lambda>h. reference h = r) (rev (block_headers_to_write ds))")
    case (Some h)
    with lookup pending_header [OF ok Some] show ?thesis by simp
  next
    case None
    have "bm_get (ms_block_headers (ds_store ds)) r = Some h" if "bm_get (recent_block_headers ds) r = Some h" for h
    proof -
      have "reference h = r" using headers_ok_get [OF dag_ok_recent [OF ok] that] by blast
      with None have "h \<notin> set (block_headers_to_write ds)" by (auto simp: find_None_iff)
      with dag_ok_persisted [OF ok] that show ?thesis unfolding persisted_ok_def by metis
    qed
    with lookup None show ?thesis by (auto split: option.splits)
  qed
qed

lemma headers_ok_lookup:
  assumes "keyed_headers m" "\<And>r h. bm_get m r = Some h \<Longrightarrow> br_round r \<noteq> 0 \<and> br_author r \<in> members c \<and> header_fits h"
  shows "headers_ok c m"
  using assms by (auto simp: headers_ok_def keyed_headers_def in_set_bm_get GENESIS_ROUND_def)

lemma write_pending_ok:
  assumes ok: "dag_ok ds" and w: "store_write (ds_fast ds) (pending_batch ds) (ds_store ds) = Some s"
  defines "ds' \<equiv> (clear_pending ds)\<lparr> ds_store := s \<rparr>"
  shows "dag_ok ds'" "header_of ds' = header_of ds" "all_stored ds'"
proof -
  note lookup = written_lookup [OF ok w] and rec = headers_ok_get [OF dag_ok_recent [OF ok]]
  have "\<forall>h \<in> set (wb_block_headers (pending_batch ds)). header_fits h"
    using dag_ok_persisted [OF ok] rec by (auto simp: pending_batch_def persisted_ok_def)
  then have store: "store_ok s" using store_ok_write [OF dag_ok_store [OF ok] w] by blast
  have "headers_ok (ds_committee ds) (ms_block_headers s)"
    using store rec headers_ok_get [OF dag_ok_stored [OF ok]]
    by (intro headers_ok_lookup) (auto simp: store_ok_def lookup split: option.splits)
  moreover have "persisted_ok (recent_block_headers ds) [] (ms_block_headers s)"
    by (simp add: persisted_ok_def lookup)
  moreover have "complete_above (evicted_rounds ds) (recent_block_headers ds) (ms_block_headers s)"
    unfolding complete_above_def
  proof (intro ballI impI)
    fix r assume "r \<in> fst ` set (ms_block_headers s)" and r: "evicted_rounds ds ! br_author r < br_round r"
    then have "r \<in> fst ` set (recent_block_headers ds) \<or> r \<in> fst ` set (ms_block_headers (ds_store ds))"
      unfolding bm_get_Some_iff [symmetric] lookup by (auto split: option.splits)
    with r dag_ok_complete [OF ok] show "r \<in> fst ` set (recent_block_headers ds)" unfolding complete_above_def by blast
  qed
  ultimately show "dag_ok ds'"
    using ok store by (simp add: ds'_def clear_pending_def dag_ok_def last_commit_round_def)
  show "header_of ds' = header_of ds"
    by (auto simp: ds'_def clear_pending_def header_of_def fun_eq_iff lookup split: option.splits)
  show "all_stored ds'" by (simp add: all_stored_def ds'_def clear_pending_def lookup)
qed

text \<open>What the evictions keep of the state right after the write.\<close>

definition flushed :: "dag_state \<Rightarrow> dag_state \<Rightarrow> bool" where
  "flushed ds0 ds =
     (dag_ok ds \<and> all_stored ds \<and> nothing_pending ds \<and> header_of ds = header_of ds0 \<and> ds_ctx ds = ds_ctx ds0 \<and>
      last_commit ds = last_commit ds0 \<and> last_committed_rounds ds = last_committed_rounds ds0 \<and>
      highest_accepted_round ds = highest_accepted_round ds0 \<and> ds_threshold_clock ds = ds_threshold_clock ds0)"

lemma eviction_round_total:
  assumes "dag_ok ds" "a < size_of (ds_committee ds)"
  shows "calculate_authority_eviction_round ds a = Some (last_committed_rounds ds ! a - ds_cached_rounds ds)"
  using assms dag_ok_rounds [OF assms(1)] by (simp add: calculate_authority_eviction_round_def eviction_round_def rounds_ok_def)

lemma split_key_le: "BlockRef (Suc er) a 0 \<le> r \<longleftrightarrow> er < br_round r \<and> (br_round r = Suc er \<longrightarrow> a \<le> br_author r)"
  by (auto simp: less_eq_block_ref_def)

text \<open>Removing the references of one author up to a round, from the index and from the map.\<close>

lemma evict_index_ok:
  fixes er :: round
  assumes idx: "index_ok c m refs" and a: "a < size_of c" and m: "bm_invar m"
  defines "m' \<equiv> fold bm_remove (filter (\<lambda>r. r < BlockRef (Suc er) a 0) (refs ! a)) m"
  shows "index_ok c m' (refs[a := bs_split_off (BlockRef (Suc er) a 0) (refs ! a)])"
    and "bm_get m' r = (if br_author r = a \<and> br_round r \<le> er then None else bm_get m r)"
proof -
  have refs: "set (refs ! b) = {r \<in> fst ` set m. br_author r = b}" "bs_invar (refs ! b)" if "b < size_of c" for b
    using idx that by (auto simp: index_ok_def)
  have split: "r < BlockRef (Suc er) a 0 \<longleftrightarrow> br_round r \<le> er" if "br_author r = a" for r
    using that split_key_le [of er a r] by auto
  show get: "bm_get m' r = (if br_author r = a \<and> br_round r \<le> er then None else bm_get m r)" for r
    unfolding m'_def bm.get_fold_del using refs(1) [OF a] split by (auto simp: bm_get_None_iff)
  have "r \<in> fst ` set m' \<longleftrightarrow> r \<in> fst ` set m \<and> \<not> (br_author r = a \<and> br_round r \<le> er)" for r
    unfolding bm_get_Some_iff [symmetric] get by simp
  then have dom: "fst ` set m' = {r \<in> fst ` set m. \<not> (br_author r = a \<and> br_round r \<le> er)}" by blast
  show "index_ok c m' (refs[a := bs_split_off (BlockRef (Suc er) a 0) (refs ! a)])"
    unfolding index_ok_def
  proof (intro conjI allI impI)
    fix b assume b: "b < size_of c"
    have len: "length refs = size_of c" using idx by (simp add: index_ok_def)
    show "bs_invar (refs[a := bs_split_off (BlockRef (Suc er) a 0) (refs ! a)] ! b)"
      using refs(2) [OF b] b a len by (cases "a = b") auto
    show "set (refs[a := bs_split_off (BlockRef (Suc er) a 0) (refs ! a)] ! b) = {r \<in> fst ` set m'. br_author r = b}"
      using refs(1) [OF b] b a len unfolding dom by (cases "a = b") (auto simp: split_key_le)
  qed (use idx in \<open>simp add: index_ok_def\<close>)
qed

lemma evict_headers_of_flushed:
  assumes fl: "flushed ds0 ds" and a: "a < size_of (ds_committee ds)"
  shows "\<exists>ds'. evict_headers_of ds a = Some ds' \<and> flushed ds0 ds'"
proof -
  have ok: "dag_ok ds" and st: "all_stored ds" and np: "nothing_pending ds" using fl by (auto simp: flushed_def)
  let ?refs = "recent_headers_refs_by_authority ds" and ?m = "recent_block_headers ds"
  let ?er = "last_committed_rounds ds ! a - ds_cached_rounds ds"
  let ?m' = "fold bm_remove (filter (\<lambda>r. r < BlockRef (Suc ?er) a 0) (?refs ! a)) ?m"
  let ?ds = "ds\<lparr> recent_headers_refs_by_authority := ?refs[a := bs_split_off (BlockRef (Suc ?er) a 0) (?refs ! a)],
      recent_block_headers := ?m', evicted_rounds := (evicted_rounds ds)[a := ?er] \<rparr>"
  note rounds = dag_ok_rounds [OF ok, unfolded rounds_ok_def] and rec = dag_ok_recent [OF ok]
  have inv: "bm_invar ?m" using rec by (simp add: headers_ok_def keyed_headers_def)
  note index = evict_index_ok [OF dag_ok_index [OF ok] a inv, where er = ?er]
  have run: "evict_headers_of ds a = Some ?ds"
    using a dag_ok_index [OF ok] rounds
    by (simp add: evict_headers_of_def eviction_round_total [OF ok a] Let_def index_ok_def vec_set_def)
  have inv': "bm_invar ?m'" by (rule bm.invar_fold_del [OF inv])
  have recent: "headers_ok (ds_committee ds) ?m'"
  proof (rule headers_ok_lookup)
    show "keyed_headers ?m'"
      using inv' headers_ok_get [OF rec] by (auto simp: keyed_headers_def in_set_bm_get index(2) split: if_splits)
    show "br_round r \<noteq> 0 \<and> br_author r \<in> members (ds_committee ds) \<and> header_fits h" if "bm_get ?m' r = Some h" for r h
      using that headers_ok_get [OF rec] by (auto simp: index(2) split: if_splits)
  qed
  have kept: "r \<in> fst ` set ?m'" if "r \<in> fst ` set ?m" "br_author r = a \<longrightarrow> ?er < br_round r" for r
    using that unfolding bm_get_Some_iff [symmetric] index(2) by auto
  have complete: "complete_above ((evicted_rounds ds)[a := ?er]) ?m' (ms_block_headers (ds_store ds))"
    unfolding complete_above_def
  proof (intro ballI impI)
    fix r assume r: "r \<in> fst ` set (ms_block_headers (ds_store ds))" "(evicted_rounds ds)[a := ?er] ! br_author r < br_round r"
    have "evicted_rounds ds ! br_author r < br_round r"
      using r(2) a rounds by (cases "br_author r = a") auto
    then have "r \<in> fst ` set ?m" using dag_ok_complete [OF ok] r(1) unfolding complete_above_def by blast
    then show "r \<in> fst ` set ?m'" using r(2) a rounds by (intro kept) auto
  qed
  have rounds': "rounds_ok (ds_committee ds) (ds_cached_rounds ds) ((evicted_rounds ds)[a := ?er])
    (last_committed_rounds ds) (last_commit_round ds) ?m'"
    unfolding rounds_ok_def
  proof (intro conjI allI impI)
    fix b assume b: "b < size_of (ds_committee ds)"
    show "(evicted_rounds ds)[a := ?er] ! b \<le> last_committed_rounds ds ! b - ds_cached_rounds ds"
      using b a rounds by (cases "a = b") auto
    assume pos: "0 < last_committed_rounds ds ! b"
    then obtain r where r: "r \<in> fst ` set ?m" "br_author r = b" "last_committed_rounds ds ! b \<le> br_round r"
      using rounds b by blast
    then have "r \<in> fst ` set ?m'" using pos rounds by (intro kept) auto
    with r show "\<exists>r \<in> fst ` set ?m'. br_author r = b \<and> last_committed_rounds ds ! b \<le> br_round r" by blast
  qed (use rounds in auto)
  have "dag_ok ?ds"
    using ok recent index(1) complete rounds' st np
    by (simp add: dag_ok_def last_commit_round_def persisted_ok_def all_stored_def index(2) nothing_pending_def)
  moreover have "header_of ?ds = header_of ds"
    using st by (auto simp: header_of_def fun_eq_iff index(2) all_stored_def split: option.splits)
  moreover have "all_stored ?ds" using st by (simp add: all_stored_def index(2))
  moreover have "nothing_pending ?ds" using np by (simp add: nothing_pending_def)
  ultimately have "flushed ds0 ?ds" using fl unfolding flushed_def by simp
  with run show ?thesis by blast
qed

lemma authorities_enum_indices: "committee_ok c \<Longrightarrow> map fst (authorities_enum c) = [0..<size_of c]"
  by (rule nth_equalityI) (auto simp: authorities_enum_def size_of_def committee_ok_def nth_enumerate_eq split: prod.splits)

text \<open>A step per authority that keeps \<open>flushed\<close>, run for all authorities.\<close>

lemma evict_all_flushed:
  assumes fl: "flushed ds0 ds"
    and step: "\<And>ds a. flushed ds0 ds \<Longrightarrow> a < size_of (ds_committee ds) \<Longrightarrow> \<exists>ds'. f ds a = Some ds' \<and> flushed ds0 ds'"
  shows "\<exists>ds'. foldM f ds (map fst (authorities_enum (ds_committee ds))) = Some ds' \<and> flushed ds0 ds'"
proof -
  have c: "committee_ok (ds_committee ds)" using fl unfolding flushed_def by (blast intro: dag_ok_committee)
  have "flushed ds0 s \<Longrightarrow> ds_committee s = ds_committee ds" for s using fl by (simp add: flushed_def)
  then show ?thesis
    unfolding authorities_enum_indices [OF c] by (intro foldM_total_invariant fl step) auto
qed

lemma evict_shards_of_flushed:
  assumes "flushed ds0 ds" "a < size_of (ds_committee ds)"
  shows "\<exists>ds'. evict_shards_of ds a = Some ds' \<and> flushed ds0 ds'"
  using assms eviction_round_total [of ds a]
  by (auto simp: flushed_def evict_shards_of_def dag_ok_def all_stored_def nothing_pending_def last_commit_round_def
      dag_simps)

lemma evict_transactions_of_flushed:
  assumes "flushed ds0 ds" "a < size_of (ds_committee ds)"
  shows "\<exists>ds'. evict_transactions_of gc ds a = Some ds' \<and> flushed ds0 ds'"
  using assms eviction_round_total [of ds a]
  by (auto simp: flushed_def evict_transactions_of_def dag_ok_def all_stored_def nothing_pending_def last_commit_round_def
      dag_simps)

lemma evict_digests_of_flushed:
  assumes "flushed ds0 ds" "a < size_of (ds_committee ds)"
  shows "\<exists>ds'. evict_tx_ref_to_block_digests_of gc ds a = Some ds' \<and> flushed ds0 ds'"
  using assms eviction_round_total [of ds a]
  by (auto simp: flushed_def evict_tx_ref_to_block_digests_of_def dag_ok_def all_stored_def nothing_pending_def last_commit_round_def
      dag_simps)

lemma evict_rest_flushed:
  assumes "flushed ds0 ds"
  shows "\<exists>ds'. evict_cordial_knowledge (evict_pending_acknowledgments ds) = Some ds' \<and> flushed ds0 ds'"
proof -
  let ?ds = "evict_pending_acknowledgments ds"
  have fl: "flushed ds0 ?ds" "\<And>log. flushed ds0 (?ds\<lparr> ds_cordial := log \<rparr>)"
    using assms
    by (auto simp: flushed_def dag_ok_def all_stored_def nothing_pending_def last_commit_round_def
        evict_pending_acknowledgments_def Let_def dag_simps)
  have ok: "dag_ok ?ds" using fl(1) by (simp add: flushed_def)
  have "\<exists>rs. mapM (calculate_authority_eviction_round ?ds) (map fst (authorities_enum (ds_committee ?ds))) = Some rs"
    unfolding authorities_enum_indices [OF dag_ok_committee [OF ok]]
    by (rule mapM_total) (simp add: eviction_round_total [OF ok])
  with fl show ?thesis by (auto simp: evict_cordial_knowledge_def split: option.splits)
qed

lemma flush_run:
  assumes ok: "dag_ok ds"
  shows "\<exists>ds'. flush ds = Some ds' \<and> flushed ds ds'"
proof (cases "nothing_pending ds")
  case True
  have "all_stored ds"
    using dag_ok_persisted [OF ok] True by (auto simp: all_stored_def persisted_ok_def nothing_pending_def)
  with ok True show ?thesis by (simp add: flush_def flushed_def)
next
  case False
  from store_write_pending_total [OF ok] obtain s where
    s: "store_write (ds_fast ds) (pending_batch ds) (ds_store ds) = Some s" by blast
  let ?ds = "(clear_pending ds)\<lparr> ds_store := s \<rparr>"
  have "flushed ds ?ds"
    using write_pending_ok [OF ok s] by (simp add: flushed_def) (simp add: clear_pending_def nothing_pending_def)
  from evict_all_flushed [OF this, of evict_headers_of] evict_headers_of_flushed obtain ds1 where
    ds1: "evict_headers ?ds = Some ds1" "flushed ds ds1" unfolding evict_headers_def by blast
  from evict_all_flushed [OF ds1(2), of evict_shards_of] evict_shards_of_flushed obtain ds2 where
    ds2: "evict_shards ds1 = Some ds2" "flushed ds ds2" unfolding evict_shards_def by blast
  from evict_all_flushed [OF ds2(2), of "evict_transactions_of (gc_round_for_last_solid_commit ds2)"]
    evict_transactions_of_flushed obtain ds3 where
    ds3: "evict_transactions ds2 = Some ds3" "flushed ds ds3" unfolding evict_transactions_def by blast
  from evict_all_flushed [OF ds3(2), of "evict_tx_ref_to_block_digests_of (gc_round_for_last_solid_commit ds3)"]
    evict_digests_of_flushed obtain ds4 where
    ds4: "evict_tx_ref_to_block_digests ds3 = Some ds4" "flushed ds ds4" unfolding evict_tx_ref_to_block_digests_def by blast
  from evict_rest_flushed [OF ds4(2)] show ?thesis
    using False s ds1(1) ds2(1) ds3(1) ds4(1) by (simp add: flush_def)
qed

lemma flushed_stored:
  assumes "flushed ds0 ds" "header_of ds0 r = Some h" "br_round r \<noteq> 0"
  shows "bm_get (ms_block_headers (ds_store ds)) r = Some h"
proof -
  from assms(1,2) have "header_of ds r = Some h" "all_stored ds" by (auto simp: flushed_def)
  with assms(3) show ?thesis
    by (auto simp: header_of_def all_stored_def GENESIS_ROUND_def split: option.splits)
qed

subsection \<open>A state on an empty store\<close>

lemma genesis_fold_ok:
  assumes "\<forall>b \<in> set bs. bh_round (vb_header b) = GENESIS_ROUND \<and> bh_author (vb_header b) \<in> members c" "genesis_ok c m"
  shows "genesis_ok c (fold (\<lambda>b m. bm_insert (reference (vb_header b)) b m) bs m)"
  using assms
proof (induction bs arbitrary: m)
  case (Cons b bs)
  have "genesis_ok c (bm_insert (reference (vb_header b)) b m)"
    using Cons.prems set_bm_insert_subset [of "reference (vb_header b)" b m] by (auto simp: genesis_ok_def)
  with Cons show ?case by simp
qed simp

lemma genesis_blocks_ok:
  assumes "committee_ok (ctx_committee ctx)" "b \<in> set (genesis_blocks digest_of ctx)"
  shows "bh_round (vb_header b) = GENESIS_ROUND \<and> bh_author (vb_header b) \<in> members (ctx_committee ctx)"
proof -
  from assms(2) obtain a x where a: "(a, x) \<in> set (authorities_enum (ctx_committee ctx))"
    "vb_header b = new_verified digest_of
       (genesis_block_header (committee_epoch (ctx_committee ctx)) (epoch_start_timestamp_ms ctx) a)"
    by (auto simp: genesis_blocks_def Let_def)
  have "a \<in> set (map fst (authorities_enum (ctx_committee ctx)))" using a(1) by force
  then have "a \<in> members (ctx_committee ctx)"
    unfolding authorities_enum_indices [OF assms(1)] by (simp add: members_def)
  with a(2) show ?thesis by (simp add: genesis_block_header_def)
qed

lemma initial_state_ok:
  assumes "context_ok ctx"
  shows "dag_ok (initial_state digest_of ctx mem_store_new None (replicate (size_of (ctx_committee ctx)) 0) ss)"
proof -
  have "genesis_ok (ctx_committee ctx)
      (fold (\<lambda>b m. bm_insert (reference (vb_header b)) b m) (genesis_blocks digest_of ctx) [])"
    using assms by (intro genesis_fold_ok) (auto simp: context_ok_def genesis_ok_def dest: genesis_blocks_ok)
  then show ?thesis
    using assms store_ok_new
    by (simp add: dag_ok_def initial_state_def Let_def context_ok_def headers_ok_def keyed_headers_def index_ok_def
        persisted_ok_def complete_above_def rounds_ok_def mem_store_new_def last_commit_round_def)
qed

lemma load_all_empty:
  assumes ctx: "context_ok ctx" and ds: "ds_store ds = mem_store_new" "ds_ctx ds = ctx" "evicted_rounds ds = replicate (size_of (ctx_committee ctx)) 0"
    "last_committed_rounds ds = replicate (size_of (ctx_committee ctx)) 0"
  shows "load_all source ds = Some ds"
proof -
  have c: "committee_ok (ctx_committee ctx)" using ctx by (simp add: context_ok_def)
  have same: "(replicate n (0 :: nat))[a := 0] = replicate n 0" for n a
    by (metis list_update_beyond list_update_id nth_replicate length_replicate not_le)
  have "load_cached_data_for_authority source ds (a, 0) = Some ds" if "a < size_of (ctx_committee ctx)" for a
    using ds that same
    by (cases ds) (auto simp: load_cached_data_for_authority_def eviction_round_def Let_def vec_set_def
        store_scan_block_headers_by_author_def store_read_verified_block_headers_def store_scan_block_references_by_author_def
        store_scan_transactions_by_author_def store_scan_transaction_references_by_author_def
        store_read_verified_transactions_def check_ref_consistency_def bs_range_incl_def mem_store_new_def map_filter_def)
  moreover have "to_authority_index (ctx_committee ctx) i = Some i" if "i < size_of (ctx_committee ctx)" for i
    using that c by (simp add: to_authority_index_def size_of_def committee_ok_def)
  ultimately have "foldM (\<lambda>s (i, r). do { a \<leftarrow> to_authority_index (ds_committee ds) i; load_cached_data_for_authority source s (a, r) }) ds xs = Some ds"
    if "\<forall>(i, r) \<in> set xs. i < size_of (ctx_committee ctx) \<and> r = 0" for xs
    using that ds(2) by (induction xs) auto
  moreover have "\<forall>(i, r) \<in> set (List.enumerate 0 (last_committed_rounds ds)). i < size_of (ctx_committee ctx) \<and> r = 0"
    by (auto simp: ds in_set_enumerate_eq)
  ultimately show ?thesis unfolding load_all_def by blast
qed

lemma dag_state_new_empty:
  assumes "context_ok ctx"
  shows "\<exists>ds. dag_state_new digest_of ctx mem_store_new = Some ds \<and> dag_ok ds \<and> ds_ctx ds = ctx \<and> last_commit ds = None \<and>
    ds = initial_state digest_of ctx mem_store_new None (replicate (size_of (ctx_committee ctx)) 0) scoring_subdag_new"
proof -
  let ?ds = "initial_state digest_of ctx mem_store_new None (replicate (size_of (ctx_committee ctx)) 0) scoring_subdag_new"
  have "load_all Recover ?ds = Some ?ds"
    by (rule load_all_empty [OF assms]) (simp_all add: initial_state_def Let_def)
  then have "dag_state_new digest_of ctx mem_store_new = Some ?ds"
    by (simp add: dag_state_new_def store_read_last_commit_def recovery_start_def store_read_last_commit_info_def
        store_read_fast_sync_ongoing_def mem_store_new_def add_subdags_def)
  moreover have "dag_ok ?ds" by (rule initial_state_ok [OF assms])
  ultimately show ?thesis by (simp add: initial_state_def Let_def)
qed

text \<open>
  C15: a flush of a well-formed state never panics, keeps the invariant, leaves nothing
  buffered, and loses no header: every lookup answers as before although old headers have
  been evicted from memory, and every header that is not from genesis is in the store.
\<close>

theorem flush_keeps_headers:
  assumes "dag_ok ds"
  shows "\<exists>ds'. flush ds = Some ds' \<and> dag_ok ds' \<and> nothing_pending ds' \<and> last_commit ds' = last_commit ds \<and>
    (\<forall>r. get_verified_block_header ds' r = get_verified_block_header ds r) \<and>
    (\<forall>r h. get_verified_block_header ds r = Some h \<and> br_round r \<noteq> 0 \<longrightarrow> bm_get (ms_block_headers (ds_store ds')) r = Some h)"
proof -
  from flush_run [OF assms] obtain ds' where ds': "flush ds = Some ds'" "flushed ds ds'" by blast
  then have "\<forall>r h. header_of ds r = Some h \<and> br_round r \<noteq> 0 \<longrightarrow> bm_get (ms_block_headers (ds_store ds')) r = Some h"
    using flushed_stored by blast
  with ds' show ?thesis by (auto simp: flushed_def dag_simps)
qed

text \<open>
  C25: recording the next commit (index one more, timestamp not smaller, higher leader round,
  headers in memory) passes all assertions of \<open>add_commit\<close>, keeps the invariant and every
  header lookup, and makes it the last commit; a commit whose index is not new is ignored.
\<close>

theorem add_commit_correct:
  assumes "dag_ok ds"
  shows "(next_commit ds commit \<longrightarrow> (\<exists>ds'. add_commit ds commit = Some ds' \<and> dag_ok ds' \<and>
      last_commit_index ds' = last_commit_index ds + 1 \<and> last_commit ds' = Some commit \<and>
      commits_to_write ds' = commits_to_write ds @ [commit] \<and>
      (\<forall>r. get_verified_block_header ds' r = get_verified_block_header ds r))) \<and>
    (last_commit ds \<noteq> None \<and> commit_index_of (tcm_inner commit) \<le> last_commit_index ds \<longrightarrow> add_commit ds commit = Some ds)"
proof (intro conjI impI)
  assume nc: "next_commit ds commit"
  from add_commit_ok [OF assms nc] obtain ds' where ds': "add_commit ds commit = Some ds'" "dag_ok ds'"
    "header_of ds' = header_of ds" "last_commit ds' = Some commit" by blast
  have "commits_to_write ds' = commits_to_write ds @ [commit]"
    using ds'(1) add_commit_fresh [OF nc] by (auto simp: Option.bind_eq_Some_conv)
  moreover have "last_commit_index ds' = last_commit_index ds + 1"
    using nc ds'(4) by (simp add: next_commit_def last_commit_index_def)
  ultimately show "\<exists>ds'. add_commit ds commit = Some ds' \<and> dag_ok ds' \<and> last_commit_index ds' = last_commit_index ds + 1 \<and>
      last_commit ds' = Some commit \<and> commits_to_write ds' = commits_to_write ds @ [commit] \<and>
      (\<forall>r. get_verified_block_header ds' r = get_verified_block_header ds r)"
    using ds' by (auto simp: dag_simps)
qed (auto simp: add_commit_def last_commit_index_def split: option.splits)

text \<open>
  C40: taking acknowledgments for a new block returns at most \<open>limit\<close> references, all from
  the window between the garbage-collection bound and the clock's round and without
  repetition, but the last one taken stays pending: if anything was taken, the next call
  with a positive limit and the same clock returns that reference again.
\<close>

theorem take_acknowledgments_repeats_last:
  assumes "bs_invar (pending_acknowledgments ds)" "take_acknowledgments ds limit = (taken, ds')" "taken \<noteq> []" "0 < limit'"
  shows "length taken \<le> limit \<and> distinct taken \<and>
    (\<forall>r \<in> set taken. threshold_clock_round ds - gc_depth (ds_ctx ds) \<le> br_round r \<and> br_round r < threshold_clock_round ds) \<and>
    hd (fst (take_acknowledgments ds' limit')) = last taken"
proof -
  let ?cl = "threshold_clock_round ds"
  define P where "P = bs_split_off (BlockRef (?cl - gc_depth (ds_ctx ds)) 0 0) (pending_acknowledgments ds)"
  define W where "W = takeWhile (\<lambda>a. br_round a < ?cl) P"
  have P: "bs_invar P" "\<forall>r \<in> set P. ?cl - gc_depth (ds_ctx ds) \<le> br_round r"
    using assms(1) by (auto simp: P_def block_ref_from_round)
  have tk: "taken = take limit W" and ds': "ds' = ds\<lparr> pending_acknowledgments := bs_split_off (last taken) P \<rparr>"
    using assms(2,3) by (auto simp: take_acknowledgments_def evict_pending_acknowledgments_def Let_def P_def W_def
        threshold_clock_round_def split: if_splits)
  have sub: "set taken \<subseteq> set W" "set W \<subseteq> set P" unfolding tk W_def by (auto dest: in_set_takeD set_takeWhileD)
  have low: "br_round r < ?cl" if "r \<in> set taken" for r using sub that unfolding W_def by (auto dest: set_takeWhileD)
  have last_in: "last taken \<in> set P" using sub last_in_set [OF assms(3)] by blast
  let ?Q = "bs_split_off (last taken) P"
  have Q: "set ?Q = {x \<in> set P. last taken \<le> x}" "bs_invar ?Q" using P(1) by simp_all
  then obtain q qs where q: "?Q = q # qs" using last_in by (cases ?Q) auto
  have "q = last taken"
  proof (rule antisym)
    show "last taken \<le> q" using Q(1) q by (metis (mono_tags, lifting) list.set_intros(1) mem_Collect_eq)
    have "last taken \<in> set (q # qs)" using Q(1) last_in q by auto
    then show "q \<le> last taken" using Q(2) q by (auto simp: bs_invar_def less_imp_le)
  qed
  moreover have "bs_split_off (BlockRef (?cl - gc_depth (ds_ctx ds)) 0 0) ?Q = ?Q"
    using P(2) by (auto simp: bs_split_off_def filter_filter block_ref_from_round intro!: filter_cong)
  moreover have "br_round (last taken) < ?cl" using low assms(3) by simp
  ultimately have "hd (fst (take_acknowledgments ds' limit')) = last taken"
    using q assms(4) by (cases limit')
      (auto simp: ds' take_acknowledgments_def evict_pending_acknowledgments_def Let_def threshold_clock_round_def)
  moreover have "distinct taken" using bs_invar_distinct [OF P(1)] by (simp add: tk W_def distinct_takeWhile)
  ultimately show ?thesis using sub low P(2) tk by auto
qed

text \<open>
  C39: a state created on an empty store satisfies the invariant, has no commit, and reads
  exactly the genesis headers.
\<close>

theorem dag_state_new_correct:
  assumes "context_ok ctx"
  shows "\<exists>ds. dag_state_new digest_of ctx mem_store_new = Some ds \<and> dag_ok ds \<and> last_commit_index ds = 0 \<and>
    (\<forall>r. get_verified_block_header ds r =
       (if br_round r = 0 then map_option vb_header (find (\<lambda>b. reference (vb_header b) = r) (rev (genesis_blocks digest_of ctx)))
        else None))"
proof -
  have lookup: "bm_get (fold (\<lambda>b m. bm_insert (reference (vb_header b)) b m) bs m) r =
      (case find (\<lambda>b. reference (vb_header b) = r) (rev bs) of Some b \<Rightarrow> Some b | None \<Rightarrow> bm_get m r)" for bs m r
    by (induction bs arbitrary: m) (auto simp: find_append split: option.splits)
  from dag_state_new_empty [OF assms, of digest_of] obtain ds where
    ds: "dag_state_new digest_of ctx mem_store_new = Some ds" "dag_ok ds" "last_commit ds = None"
      "ds = initial_state digest_of ctx mem_store_new None (replicate (size_of (ctx_committee ctx)) 0) scoring_subdag_new"
    by blast
  have "header_of ds r = (if br_round r = 0 then map_option vb_header (find (\<lambda>b. reference (vb_header b) = r) (rev (genesis_blocks digest_of ctx)))
      else None)" for r
    unfolding ds(4) by (simp add: header_of_def initial_state_def Let_def lookup GENESIS_ROUND_def mem_store_new_def split: option.splits)
  with ds(1-3) show ?thesis by (auto simp: dag_simps last_commit_index_def)
qed

end
