(* ===== verification/Dag_Traversal.thy ===== *)
theory Dag_Traversal
  imports Dag_State "HOL-Library.Multiset_Order"
begin

section \<open>Reading slots, rounds and histories\<close>

text \<open>
  What the slot and round reads of \<open>dag_state.rs\<close> return, and that \<open>ancestors_at_round\<close>
  terminates on a causally complete DAG and finds exactly the blocks of a round in the
  history of a block (plus the direct ancestors of the block below that round).
\<close>

subsection \<open>Slots and rounds\<close>

lemma headers_ok_in_set:
  assumes "headers_ok c m"
  shows "(r, h) \<in> set m \<longleftrightarrow> r = reference h \<and> bm_get m r = Some h"
  using assms in_set_bm_get [of m r h] headers_ok_get [OF assms, of r h]
  by (simp add: headers_ok_def keyed_headers_def) blast

lemma set_map_snd_filter: "h \<in> set (map snd (filter (\<lambda>e. P (fst e)) m)) \<longleftrightarrow> (\<exists>r. (r, h) \<in> set m \<and> P r)"
  by force

lemma at_slot_set:
  assumes "headers_ok c (recent_block_headers ds)"
  shows "set (get_uncommitted_block_headers_at_slot ds sl) =
    {h. bm_get (recent_block_headers ds) (reference h) = Some h \<and> header_slot h = sl}"
proof -
  note keyed = headers_ok_in_set [OF assms]
  have "header_slot h = sl \<longleftrightarrow> BlockRef (slot_round sl) (slot_authority sl) 0 \<le> reference h \<and>
      reference h \<le> BlockRef (slot_round sl) (slot_authority sl) (-1)" for h
    by (simp only: block_ref_slot_range) (cases sl, simp add: header_slot_def)
  then show ?thesis
    unfolding get_uncommitted_block_headers_at_slot_def bm_range_incl_def
    by (intro set_eqI, subst set_map_snd_filter) (simp add: keyed)
qed

lemma at_round_set:
  assumes "headers_ok c (recent_block_headers ds)" "last_commit_round ds < r"
  shows "\<exists>hs. get_uncommitted_block_headers_at_round ds r = Some hs \<and>
    set hs = {h. bm_get (recent_block_headers ds) (reference h) = Some h \<and> bh_round h = r}"
proof -
  note keyed = headers_ok_in_set [OF assms(1)]
  have "bh_round h = r \<longleftrightarrow> BlockRef r 0 0 \<le> reference h \<and> reference h < BlockRef (Suc r) 0 0" for h
    by (simp add: block_ref_round_range)
  then have "set (map snd (bm_range_excl (BlockRef r 0 0) (BlockRef (r + 1) 0 0) (recent_block_headers ds))) =
      {h. bm_get (recent_block_headers ds) (reference h) = Some h \<and> bh_round h = r}"
    unfolding bm_range_excl_def by (intro set_eqI, subst set_map_snd_filter) (simp add: keyed)
  then show ?thesis using assms(2) by (simp add: get_uncommitted_block_headers_at_round_def)
qed

lemma keyed_values_distinct:
  assumes "headers_ok c m"
  shows "distinct (map snd (filter P m))"
proof -
  have "distinct (map fst (filter P m))"
    using assms by (intro bm_invar_distinct bm_invar_filter) (simp add: headers_ok_def keyed_headers_def)
  moreover have "map fst (filter P m) = map reference (map snd (filter P m))"
    using assms by (auto simp: headers_ok_def keyed_headers_def)
  ultimately show ?thesis by (metis distinct_map)
qed

lemma at_slot_distinct:
  "headers_ok c (recent_block_headers ds) \<Longrightarrow> distinct (get_uncommitted_block_headers_at_slot ds sl)"
  by (simp add: get_uncommitted_block_headers_at_slot_def bm_range_incl_def keyed_values_distinct)

lemma at_round_distinct:
  "get_uncommitted_block_headers_at_round ds r = Some hs \<Longrightarrow> headers_ok c (recent_block_headers ds) \<Longrightarrow> distinct hs"
  by (auto simp: get_uncommitted_block_headers_at_round_def bm_range_excl_def keyed_values_distinct split: if_splits)

subsection \<open>Histories\<close>

text \<open>
  A causally complete set of headers: a header is found under its reference, its ancestor
  list can be read, and its ancestors are of lower rounds and present too.
\<close>

definition wf_dag :: "(block_ref \<Rightarrow> verified_block_header option) \<Rightarrow> bool" where
  "wf_dag get =
     (\<forall>r h. get r = Some h \<longrightarrow> reference h = r \<and>
        (\<exists>ancs. ancestors h = Some ancs \<and> (\<forall>a \<in> set ancs. br_round a < br_round r \<and> get a \<noteq> None)))"

text \<open>\<open>reaches get r a\<close>: the block \<open>a\<close> is in the history of \<open>r\<close>.\<close>

inductive reaches :: "(block_ref \<Rightarrow> verified_block_header option) \<Rightarrow> block_ref \<Rightarrow> block_ref \<Rightarrow> bool"
  for get r where
  reaches_refl: "reaches get r r"
| reaches_step: "reaches get r x \<Longrightarrow> get x = Some h \<Longrightarrow> ancestors h = Some ancs \<Longrightarrow> a \<in> set ancs \<Longrightarrow> reaches get r a"

inductive_cases reaches_cases: "reaches get r a"

lemma wf_dag_ancestors:
  "wf_dag get \<Longrightarrow> get r = Some h \<Longrightarrow>
     \<exists>ancs. ancestors h = Some ancs \<and> (\<forall>a \<in> set ancs. br_round a < br_round r) \<and> (\<forall>a \<in> set ancs. get a \<noteq> None)"
  unfolding wf_dag_def by blast

lemma wf_dag_reference: "wf_dag get \<Longrightarrow> get r = Some h \<Longrightarrow> reference h = r"
  unfolding wf_dag_def by blast

lemma wf_dag_ancestor:
  "wf_dag get \<Longrightarrow> get x = Some h \<Longrightarrow> ancestors h = Some ancs \<Longrightarrow> a \<in> set ancs \<Longrightarrow>
     br_round a < br_round x \<and> get a \<noteq> None"
  unfolding wf_dag_def by (metis option.inject)

lemma reaches_trans: "reaches get y z \<Longrightarrow> reaches get x y \<Longrightarrow> reaches get x z"
  by (induction rule: reaches.induct) (auto intro: reaches_step)

lemma reaches_round:
  assumes "wf_dag get"
  shows "reaches get r a \<Longrightarrow> a = r \<or> br_round a < br_round r"
proof (induction rule: reaches.induct)
  case (reaches_step x h ancs a)
  then have "br_round a < br_round x" using wf_dag_ancestor [OF assms] by blast
  with reaches_step.IH show ?case by auto
qed simp

lemma reaches_present:
  assumes "wf_dag get"
  shows "reaches get r a \<Longrightarrow> get r \<noteq> None \<Longrightarrow> get a \<noteq> None"
proof (induction rule: reaches.induct)
  case (reaches_step x h ancs a)
  then show ?case using wf_dag_ancestor [OF assms] by blast
qed simp

lemma reaches_decompose:
  assumes "reaches get r a" "a \<noteq> r"
  shows "\<exists>h ancs b. get r = Some h \<and> ancestors h = Some ancs \<and> b \<in> set ancs \<and> reaches get b a"
  using assms
proof (induction rule: reaches.induct)
  case (reaches_step x h ancs a)
  show ?case
  proof (cases "x = r")
    case True
    with reaches_step show ?thesis by (blast intro: reaches_refl)
  next
    case False
    with reaches_step obtain h' ancs' b where "get r = Some h'" "ancestors h' = Some ancs'" "b \<in> set ancs'" "reaches get b x"
      by blast
    with reaches_step(2-4) show ?thesis by (blast intro: reaches.reaches_step)
  qed
qed simp

subsection \<open>The traversal\<close>

text \<open>The references the loop collects.\<close>

inductive_set linked_refs ::
  "(block_ref \<Rightarrow> verified_block_header option) \<Rightarrow> round \<Rightarrow> block_ref set \<Rightarrow> block_ref set" for get e S where
  linked_init: "r \<in> S \<Longrightarrow> r \<in> linked_refs get e S"
| linked_step: "x \<in> linked_refs get e S \<Longrightarrow> e < br_round x \<Longrightarrow> get x = Some h \<Longrightarrow> ancestors h = Some ancs \<Longrightarrow>
     a \<in> set ancs \<Longrightarrow> e \<le> br_round a \<Longrightarrow> a \<in> linked_refs get e S"

lemma linked_refs_expand:
  assumes "m \<in> S" "e < br_round m" "get m = Some h" "ancestors h = Some ancs"
    "S' = S - {m} \<union> {a \<in> set ancs. e \<le> br_round a}"
  shows "{r \<in> linked_refs get e S. br_round r \<le> e} = {r \<in> linked_refs get e S'. br_round r \<le> e}"
proof -
  have "r \<in> linked_refs get e S \<Longrightarrow> r = m \<or> r \<in> linked_refs get e S'" for r
  proof (induction rule: linked_refs.induct)
    case (linked_init r)
    then show ?case using assms(5) by (auto intro: linked_refs.linked_init)
  next
    case (linked_step x h' ancs' a)
    then show ?case using assms(3-5) by (auto intro: linked_refs.intros)
  qed
  moreover have "r \<in> linked_refs get e S' \<Longrightarrow> r \<in> linked_refs get e S" for r
  proof (induction rule: linked_refs.induct)
    case (linked_init r)
    then show ?case using assms by (auto intro: linked_refs.intros)
  next
    case (linked_step x h' ancs' a)
    then show ?case by (auto intro: linked_refs.intros)
  qed
  ultimately show ?thesis using assms(2) by fastforce
qed

lemma linked_refs_below:
  assumes "\<forall>r \<in> S. br_round r \<le> e"
  shows "linked_refs get e S = S"
proof -
  have "r \<in> linked_refs get e S \<Longrightarrow> r \<in> S" for r
    by (induction rule: linked_refs.induct) (use assms in force)+
  then show ?thesis by (auto intro: linked_init)
qed

text \<open>Each step replaces a reference by finitely many of lower rounds: a multiset descent.\<close>

lemma loop_descends:
  assumes "bs_invar linked" "bs_last linked = Some m" "\<forall>a \<in> set as. br_round a < br_round m"
  shows "(mset (bs_extend (butlast linked) as), mset linked) \<in> mult (measure br_round)"
proof -
  let ?new = "bs_extend (butlast linked) as"
  have ne: "linked \<noteq> []" and m: "m = last linked" using assms(2) by (auto simp: bs_last_def split: if_splits)
  have lk: "mset linked = mset (butlast linked) + {#m#}"
    using ne m by (metis append_butlast_last_id mset.simps(2) mset_append add_mset_add_single mset_single_iff)
  have inv: "bs_invar ?new" using assms(1) by (simp add: bs_invar_butlast)
  have sub: "mset (butlast linked) \<subseteq># mset ?new"
  proof (rule mset_subset_eqI)
    fix x
    show "count (mset (butlast linked)) x \<le> count (mset ?new) x"
      using bs_invar_distinct [OF bs_invar_butlast [OF assms(1)]] bs_invar_distinct [OF inv]
      by (auto simp: distinct_count_atmost_1)
  qed
  then obtain K where K: "mset ?new = mset (butlast linked) + K" by (metis subset_mset.le_iff_add)
  have "\<forall>k \<in># K. br_round k < br_round m"
  proof
    fix k assume k: "k \<in># K"
    have "k \<notin> set (butlast linked)"
    proof
      assume "k \<in> set (butlast linked)"
      then have "0 < count (mset (butlast linked)) k" "0 < count K k" using k by simp_all
      then have "2 \<le> count (mset ?new) k" unfolding K count_union by linarith
      moreover have "count (mset ?new) k \<le> 1"
        using bs_invar_distinct [OF inv] by (simp add: distinct_count_atmost_1)
      ultimately show False by simp
    qed
    moreover have "k \<in> set ?new" using k K by (metis set_mset_mset union_iff)
    ultimately show "br_round k < br_round m" using assms(3) by auto
  qed
  then show ?thesis
    unfolding lk K by (intro one_step_implies_mult) auto
qed

lemma ancestors_loop_total:
  assumes wf: "wf_dag get" and inv: "bs_invar linked" and present: "\<forall>r \<in> set linked. get r \<noteq> None"
  shows "\<exists>res. ancestors_loop get e linked = Some res \<and> bs_invar res \<and>
    set res = {r \<in> linked_refs get e (set linked). br_round r \<le> e} \<and> (\<forall>r \<in> set res. get r \<noteq> None)"
  using inv present
proof (induction "mset linked" arbitrary: linked rule: wf_induct_rule [OF wf_mult [OF wf_measure [of br_round]]])
  case 1
  show ?case
  proof (cases "\<exists>m. bs_last linked = Some m \<and> e < br_round m")
    case False
    then have stop: "ancestors_loop get e linked = Some linked"
      by (subst ancestors_loop.simps) (auto split: option.splits)
    have "\<forall>r \<in> set linked. br_round r \<le> e"
    proof (cases "bs_last linked")
      case (Some m)
      with False bs_last_greatest [OF 1(2) Some] show ?thesis by (meson block_ref_le_round le_trans not_le)
    qed simp
    then show ?thesis using stop 1(2,3) linked_refs_below [of "set linked" e get] by auto
  next
    case True
    then obtain m where m: "bs_last linked = Some m" "e < br_round m" by blast
    then have ne: "linked \<noteq> []" "m \<in> set linked" "m = last linked" by (auto simp: bs_last_def split: if_splits)
    with 1(3) obtain h where h: "get m = Some h" by blast
    from wf_dag_ancestors [OF wf h] obtain ancs where ancs: "ancestors h = Some ancs"
      "\<forall>a \<in> set ancs. br_round a < br_round m" "\<forall>a \<in> set ancs. get a \<noteq> None"
      by blast
    let ?as = "filter (\<lambda>a. e \<le> br_round a) ancs"
    let ?new = "bs_extend (butlast linked) ?as"
    have step: "ancestors_loop get e linked = ancestors_loop get e ?new"
      using m h ancs(1) by (subst ancestors_loop.simps) simp
    have new: "set ?new = set linked - {m} \<union> {a \<in> set ancs. e \<le> br_round a}"
      using set_butlast_bs [OF 1(2) ne(1)] ne(3) by auto
    have desc: "(mset ?new, mset linked) \<in> mult (measure br_round)"
      using loop_descends [OF 1(2) m(1), of ?as] ancs(2) by auto
    have inv: "bs_invar ?new" using 1(2) by (simp add: bs_invar_butlast)
    have "\<forall>r \<in> set ?new. get r \<noteq> None" using new 1(3) ancs(3) by auto
    from 1(1) [OF desc inv this] step linked_refs_expand [of m "set linked" e get h ancs, OF ne(2) m(2) h ancs(1) new]
    show ?thesis by simp
  qed
qed

lemma linked_refs_reaches:
  assumes wf: "wf_dag get" and S: "S = set ancs" "get r = Some h" "ancestors h = Some ancs"
    and round: "br_round a = e" "br_round a < br_round r"
  shows "a \<in> linked_refs get e S \<longleftrightarrow> reaches get r a"
proof
  have "x \<in> linked_refs get e S \<Longrightarrow> reaches get r x" for x
    by (induction rule: linked_refs.induct) (use S in \<open>auto intro: reaches.intros\<close>)
  then show "a \<in> linked_refs get e S \<Longrightarrow> reaches get r a" .
next
  have "reaches get r x \<Longrightarrow> x \<noteq> r \<Longrightarrow> e \<le> br_round x \<Longrightarrow> x \<in> linked_refs get e S" for x
  proof (induction rule: reaches.induct)
    case (reaches_step x h' ancs' a)
    have lt: "br_round a < br_round x" using wf_dag_ancestor [OF wf reaches_step(2-4)] by blast
    show ?case
    proof (cases "x = r")
      case True
      with reaches_step S show ?thesis by (auto intro: linked_init)
    next
      case False
      with reaches_step lt have "x \<in> linked_refs get e S" by simp
      with lt reaches_step show ?thesis by (intro linked_step [of x _ _ _ h' ancs' a]) auto
    qed
  qed simp
  then show "reaches get r a \<Longrightarrow> a \<in> linked_refs get e S" using round by auto
qed

text \<open>The traversal from a block of the DAG returns every block of the round in its history.\<close>

lemma ancestors_at_round_total:
  assumes wf: "wf_dag (header_of ds)" and h: "header_of ds (reference h) = Some h"
  shows "\<exists>hs. ancestors_at_round ds h e = Some hs \<and>
    (\<forall>x \<in> set hs. header_of ds (reference x) = Some x \<and> reaches (header_of ds) (reference h) (reference x) \<and> bh_round x \<le> e) \<and>
    (\<forall>x. header_of ds (reference x) = Some x \<and> bh_round x = e \<and> e < bh_round h \<and>
        reaches (header_of ds) (reference h) (reference x) \<longrightarrow> x \<in> set hs)"
proof -
  from wf_dag_ancestors [OF wf h] obtain ancs where ancs: "ancestors h = Some ancs"
    "\<forall>a \<in> set ancs. header_of ds a \<noteq> None" by blast
  from ancestors_loop_total [OF wf, of "bs_from_list ancs" e] ancs(2) obtain res where
    res: "ancestors_loop (header_of ds) e (bs_from_list ancs) = Some res"
      "set res = {r \<in> linked_refs (header_of ds) e (set ancs). br_round r \<le> e}"
      "\<forall>r \<in> set res. header_of ds r \<noteq> None"
    by auto
  let ?hs = "map (\<lambda>r. the (header_of ds r)) res"
  have "mapM (\<lambda>h. h) (map (header_of ds) xs) = Some (map (\<lambda>r. the (header_of ds r)) xs)"
    if "\<forall>r \<in> set xs. header_of ds r \<noteq> None" for xs
    using that by (induction xs) auto
  with res(1,3) ancs(1) have run: "ancestors_at_round ds h e = Some ?hs"
    by (simp add: ancestors_at_round_def dag_simps)
  have reach: "x \<in> linked_refs (header_of ds) e (set ancs) \<Longrightarrow> reaches (header_of ds) (reference h) x" for x
    by (induction rule: linked_refs.induct) (use ancs(1) h in \<open>auto intro: reaches.intros\<close>)
  have "header_of ds (reference x) = Some x \<and> reaches (header_of ds) (reference h) (reference x) \<and> bh_round x \<le> e"
    if "x \<in> set ?hs" for x
  proof -
    from that obtain r where r: "r \<in> set res" "x = the (header_of ds r)" by auto
    with res(3) have "header_of ds r = Some x" by auto
    moreover from wf_dag_reference [OF wf this] have "reference x = r" .
    ultimately show ?thesis using r(1) res(2) reach by auto
  qed
  moreover have "x \<in> set ?hs" if "header_of ds (reference x) = Some x" "bh_round x = e" "e < bh_round h"
    "reaches (header_of ds) (reference h) (reference x)" for x
  proof -
    have "reference x \<in> linked_refs (header_of ds) e (set ancs)"
      using linked_refs_reaches [OF wf refl h ancs(1), of "reference x" e] that by simp
    then have "reference x \<in> set res" using res(2) that(2) by simp
    then show ?thesis using that(1) by (force simp: image_iff)
  qed
  ultimately show ?thesis using run by blast
qed

text \<open>
  C21: on a causally complete DAG the traversal of \<open>ancestors_at_round\<close> terminates without
  panicking; everything it returns is a known header in the history of the block at or below
  the requested round, and every header of exactly that round in the history is returned.
\<close>

theorem ancestors_at_round_correct:
  assumes "wf_dag (get_verified_block_header ds)" "get_verified_block_header ds (reference h) = Some h"
  shows "\<exists>hs. ancestors_at_round ds h e = Some hs \<and>
    (\<forall>x \<in> set hs. get_verified_block_header ds (reference x) = Some x \<and>
       reaches (get_verified_block_header ds) (reference h) (reference x) \<and> bh_round x \<le> e) \<and>
    (\<forall>x. get_verified_block_header ds (reference x) = Some x \<and> bh_round x = e \<and> e < bh_round h \<and>
        reaches (get_verified_block_header ds) (reference h) (reference x) \<longrightarrow> x \<in> set hs)"
proof -
  have eq: "get_verified_block_header ds = header_of ds" by (rule ext) (simp add: dag_simps)
  show ?thesis using ancestors_at_round_total [of ds h e] assms unfolding eq by blast
qed

end
