(* ===== verification/Block_Suspender.thy ===== *)
theory Block_Suspender
  imports Dag_State_Commits Dag_Traversal
begin

section \<open>The block suspender\<close>

text \<open>
  \<open>crates/starfish/core/src/block_manager/block_suspender.rs\<close>: holds the headers some of whose
  ancestors are missing and releases them when the last one arrives. The incoming batch is a
  \<open>BTreeMap\<close> keyed by headers, here the list of its entries in order. The time of suspension only
  feeds a metric and is left out, but the lookup of an authority's hostname for a metric, which
  panics on an unknown index, is kept. The stack of the recursive release has its top first.
  Main result: \<open>accept_or_suspend_run\<close>.
\<close>

record suspended_block_header =
  sus_header :: verified_block_header
  sus_missing :: "block_ref btreeset"

record block_suspender =
  bsu_context :: consensus_context
  suspended_headers :: "(block_ref, suspended_block_header) btreemap"
  missing_ancestors :: "(block_ref, block_ref btreeset) btreemap"
  headers_to_fetch :: "(block_ref, authority_index btreeset) btreemap"

definition block_suspender_new :: "consensus_context \<Rightarrow> block_suspender" where
  "block_suspender_new ctx =
     \<lparr> bsu_context = ctx, suspended_headers = [], missing_ancestors = [], headers_to_fetch = [] \<rparr>"

definition suspender_reinitialize :: "block_suspender \<Rightarrow> block_suspender" where
  "suspender_reinitialize bs = bs\<lparr> suspended_headers := [], missing_ancestors := [], headers_to_fetch := [] \<rparr>"

definition suspended_block_header_new :: "verified_block_header \<Rightarrow> block_ref btreeset \<Rightarrow> suspended_block_header" where
  "suspended_block_header_new h missing = \<lparr> sus_header = h, sus_missing = fold bs_insert missing [] \<rparr>"

definition is_block_ref_suspended :: "block_suspender \<Rightarrow> block_ref \<Rightarrow> bool" where
  "is_block_ref_suspended bs r = bm_contains_key (suspended_headers bs) r"

definition register_suspended_block ::
  "block_suspender \<Rightarrow> verified_block_header \<Rightarrow> block_ref btreeset \<Rightarrow> block_suspender" where
  "register_suspended_block bs h missing =
     (let r = reference h in
      bs\<lparr> suspended_headers := bm_insert r
        (case bm_get (suspended_headers bs) r of
           None \<Rightarrow> suspended_block_header_new h missing
         | Some s \<Rightarrow> s\<lparr> sus_missing := bs_extend (sus_missing s) missing \<rparr>) (suspended_headers bs) \<rparr>)"

definition register_missing_ancestor :: "block_suspender \<Rightarrow> block_ref \<Rightarrow> block_ref \<Rightarrow> block_suspender" where
  "register_missing_ancestor bs r ancestor =
     bs\<lparr> missing_ancestors := bm_insert ancestor
       (bs_insert r (case bm_get (missing_ancestors bs) ancestor of None \<Rightarrow> [] | Some rs \<Rightarrow> rs)) (missing_ancestors bs) \<rparr>"

definition register_block_to_fetch :: "block_suspender \<Rightarrow> block_ref \<Rightarrow> authority_index \<Rightarrow> block_suspender" where
  "register_block_to_fetch bs missing child_author =
     bs\<lparr> headers_to_fetch := bm_insert missing
       (case bm_get (headers_to_fetch bs) missing of
          None \<Rightarrow> bs_from_list [br_author missing, child_author]
        | Some as \<Rightarrow> bs_insert child_author as) (headers_to_fetch bs) \<rparr>"

definition authority_hostname :: "block_suspender \<Rightarrow> authority_index \<Rightarrow> unit option" where
  "authority_hostname bs a = map_option (\<lambda>_. ()) (authority_at (ctx_committee (bsu_context bs)) a)"

text \<open>One missing ancestor of a header that is being suspended.\<close>

definition suspend_on ::
  "block_ref set \<Rightarrow> block_ref \<Rightarrow> block_suspender \<times> block_ref btreeset \<Rightarrow> block_ref \<Rightarrow> (block_suspender \<times> block_ref btreeset) option"
where
  "suspend_on incoming r st ancestor = (let (bs, to_fetch) = st in do {
     let bs1 = register_missing_ancestor bs r ancestor;
     authority_hostname bs1 (br_author ancestor);
     if \<not> bm_contains_key (suspended_headers bs1) ancestor \<and> ancestor \<notin> incoming
     then do {
       (if bm_contains_key (headers_to_fetch bs1) ancestor then Some () else authority_hostname bs1 (br_author ancestor));
       Some (register_block_to_fetch bs1 ancestor (br_author r), bs_insert ancestor to_fetch) }
     else Some (bs1, to_fetch) })"

definition resolve_or_suspend_header ::
  "block_ref set \<Rightarrow> block_suspender \<times> verified_block_header list \<times> block_ref btreeset
     \<Rightarrow> verified_block_header \<times> block_ref btreeset
     \<Rightarrow> (block_suspender \<times> verified_block_header list \<times> block_ref btreeset) option"
where
  "resolve_or_suspend_header incoming st hm =
     (let (bs, resolved, to_fetch) = st; (h, missing) = hm; r = reference h;
          bs1 = bs\<lparr> headers_to_fetch := bm_remove r (headers_to_fetch bs) \<rparr> in
      if missing = [] then Some (bs1, resolved @ [h], to_fetch)
      else do {
        let bs2 = register_suspended_block bs1 h missing;
        authority_hostname bs2 (br_author r);
        (bs3, to_fetch') \<leftarrow> foldM (suspend_on incoming r) (bs2, to_fetch) missing;
        Some (bs3, resolved, to_fetch') })"

definition resolve_or_suspend_headers ::
  "block_suspender \<Rightarrow> (verified_block_header \<times> block_ref btreeset) list
     \<Rightarrow> (block_suspender \<times> verified_block_header list \<times> block_ref btreeset) option" where
  "resolve_or_suspend_headers bs hm =
     foldM (resolve_or_suspend_header ((reference \<circ> fst) ` set hm)) (bs, [], []) hm"

definition unsuspend_if_ready ::
  "block_suspender \<Rightarrow> block_ref \<Rightarrow> block_ref \<Rightarrow> (block_suspender \<times> suspended_block_header option) option" where
  "unsuspend_if_ready bs r resolved = do {
     s \<leftarrow> bm_get (suspended_headers bs) r;
     assert_that (resolved \<in> set (sus_missing s));
     let s' = s\<lparr> sus_missing := bs_remove resolved (sus_missing s) \<rparr>;
     if sus_missing s' = [] then Some (bs\<lparr> suspended_headers := bm_remove r (suspended_headers bs) \<rparr>, Some s')
     else Some (bs\<lparr> suspended_headers := bm_insert r s' (suspended_headers bs) \<rparr>, None) }"

definition unsuspend_child ::
  "block_ref \<Rightarrow> block_suspender \<times> block_ref list \<times> verified_block_header list \<Rightarrow> block_ref
     \<Rightarrow> (block_suspender \<times> block_ref list \<times> verified_block_header list) option"
where
  "unsuspend_child resolved st r = (let (bs, stack, ready) = st in do {
     (bs', u) \<leftarrow> unsuspend_if_ready bs r resolved;
     case u of
       None \<Rightarrow> Some (bs', stack, ready)
     | Some s \<Rightarrow> do {
         authority_hostname bs' (bh_author (sus_header s));
         Some (bs', reference (sus_header s) # stack, ready @ [sus_header s]) } })"

definition unsuspend_children ::
  "block_suspender \<Rightarrow> block_ref \<Rightarrow> block_ref list \<Rightarrow> verified_block_header list
     \<Rightarrow> (block_suspender \<times> block_ref list \<times> verified_block_header list) option" where
  "unsuspend_children bs r stack ready =
     (case bm_get (missing_ancestors bs) r of
        None \<Rightarrow> Some (bs, stack, ready)
      | Some children \<Rightarrow>
          foldM (unsuspend_child r) (bs\<lparr> missing_ancestors := bm_remove r (missing_ancestors bs) \<rparr>, stack, ready) children)"

text \<open>Every round of the loop takes one reference off the stack, and every reference it pushes
  comes with a header that leaves the suspended ones.\<close>

definition suspended_refs :: "block_suspender \<Rightarrow> block_ref set" where
  "suspended_refs bs = fst ` set (suspended_headers bs)"

lemma fst_image_bm_remove [simp]: "fst ` set (bm_remove k m) = fst ` set m - {k}"
  by (auto simp: bm_remove_def)

lemma suspended_refs_get: "r \<in> suspended_refs bs \<longleftrightarrow> bm_get (suspended_headers bs) r \<noteq> None"
  by (simp add: suspended_refs_def bm_get_None_iff)

lemma unsuspend_child_measure:
  assumes "unsuspend_child r (bs, stack, ready) x = Some (bs', stack', ready')"
  shows "card (suspended_refs bs') + length stack' \<le> card (suspended_refs bs) + length stack"
proof -
  from assms obtain s where "bm_get (suspended_headers bs) x = Some s"
    by (auto simp: unsuspend_child_def unsuspend_if_ready_def Option.bind_eq_Some_conv)
  then have "x \<in> suspended_refs bs" by (simp add: suspended_refs_get)
  moreover have "finite (suspended_refs bs)" by (simp add: suspended_refs_def)
  ultimately have "card (suspended_refs bs - {x}) < card (suspended_refs bs)" "insert x (suspended_refs bs) = suspended_refs bs"
    by (blast intro: card_Diff1_less)+
  with assms show ?thesis
    by (auto simp: unsuspend_child_def unsuspend_if_ready_def Option.bind_eq_Some_conv Let_def suspended_refs_def
        split: if_splits)
qed

lemma unsuspend_children_measure:
  assumes "unsuspend_children bs r stack ready = Some (bs', stack', ready')"
  shows "card (suspended_refs bs') + length stack' \<le> card (suspended_refs bs) + length stack"
proof -
  have "card (suspended_refs bs') + length stack' \<le> card (suspended_refs bs) + length stack"
    if "foldM (unsuspend_child r) (bs, stack, ready) xs = Some (bs', stack', ready')" for xs bs stack ready
    using that
  proof (induction xs arbitrary: bs stack ready)
    case (Cons x xs)
    then obtain bs1 stack1 ready1 where
      1: "unsuspend_child r (bs, stack, ready) x = Some (bs1, stack1, ready1)" and
      "foldM (unsuspend_child r) (bs1, stack1, ready1) xs = Some (bs', stack', ready')"
      by (auto simp: Option.bind_eq_Some_conv)
    with Cons.IH unsuspend_child_measure [OF 1] show ?case by fastforce
  qed simp
  from this [of "bs\<lparr> missing_ancestors := bm_remove r (missing_ancestors bs) \<rparr>" stack ready] assms show ?thesis
    by (auto simp: unsuspend_children_def suspended_refs_def split: option.splits)
qed

function unsuspend_loop ::
  "block_suspender \<Rightarrow> block_ref list \<Rightarrow> verified_block_header list \<Rightarrow> (block_suspender \<times> verified_block_header list) option"
where
  "unsuspend_loop bs [] ready = Some (bs, ready)"
| "unsuspend_loop bs (r # stack) ready =
     (case unsuspend_children bs r stack ready of
        None \<Rightarrow> None
      | Some (bs', stack', ready') \<Rightarrow> unsuspend_loop bs' stack' ready')"
  by pat_completeness auto
termination
  by (relation "measure (\<lambda>(bs, stack, _). card (suspended_refs bs) + length stack)")
    (use unsuspend_children_measure in fastforce)+

definition recursively_unsuspend_dependents ::
  "block_suspender \<Rightarrow> block_ref \<Rightarrow> (block_suspender \<times> verified_block_header list) option" where
  "recursively_unsuspend_dependents bs r = unsuspend_loop bs [r] []"

definition accept_or_suspend_received_headers ::
  "block_suspender \<Rightarrow> (verified_block_header \<times> block_ref btreeset) list
     \<Rightarrow> (block_suspender \<times> verified_block_header list \<times> block_ref btreeset) option" where
  "accept_or_suspend_received_headers bs hm = do {
     (bs1, resolved, to_fetch) \<leftarrow> resolve_or_suspend_headers bs hm;
     (bs2, accepted) \<leftarrow> foldM (\<lambda>(bs, accepted) h. do {
         (bs', unsuspended) \<leftarrow> recursively_unsuspend_dependents bs (reference h);
         Some (bs', accepted @ [h] @ unsuspended) }) (bs1, []) resolved;
     Some (bs2, accepted, to_fetch) }"

subsection \<open>The invariant\<close>

text \<open>
  \<open>K\<close> is the set of known headers (in the DAG or accepted and about to be written to it). A
  suspended header misses the ancestors that are not known; while a batch is being processed it
  also still lists the known ones in \<open>P\<close>, whose dependents have not been visited yet. The map
  \<open>missing_ancestors\<close> is the converse of the missing sets.
\<close>

definition waiting :: "block_suspender \<Rightarrow> block_ref \<Rightarrow> block_ref set" where
  "waiting bs m = {r. \<exists>s. bm_get (suspended_headers bs) r = Some s \<and> m \<in> set (sus_missing s)}"

definition children_of :: "block_suspender \<Rightarrow> block_ref \<Rightarrow> block_ref list" where
  "children_of bs m = (case bm_get (missing_ancestors bs) m of None \<Rightarrow> [] | Some ch \<Rightarrow> ch)"

definition suspended_ok :: "block_ref set \<Rightarrow> (block_ref \<Rightarrow> block_ref set) \<Rightarrow> block_suspender \<Rightarrow> bool" where
  "suspended_ok K P bs = (\<forall>r s. bm_get (suspended_headers bs) r = Some s \<longrightarrow>
     reference (sus_header s) = r \<and> r \<notin> K \<and> br_author r \<in> members (ctx_committee (bsu_context bs)) \<and>
     (\<exists>ancs. ancestors (sus_header s) = Some ancs \<and> set (sus_missing s) = set ancs - (K - P r) \<and> sus_missing s \<noteq> []))"

definition children_ok :: "(block_ref \<Rightarrow> block_ref set) \<Rightarrow> block_suspender \<Rightarrow> bool" where
  "children_ok W bs = (\<forall>m. bs_invar (children_of bs m) \<and> set (children_of bs m) = W m)"

definition fetch_ok :: "block_ref set \<Rightarrow> block_ref set \<Rightarrow> block_suspender \<Rightarrow> bool" where
  "fetch_ok X K bs = (\<forall>m. m \<notin> X \<longrightarrow>
     (bm_get (headers_to_fetch bs) m \<noteq> None \<longleftrightarrow> waiting bs m \<noteq> {} \<and> m \<notin> suspended_refs bs \<and> m \<notin> K))"

definition suspender_ok :: "block_ref set \<Rightarrow> block_suspender \<Rightarrow> bool" where
  "suspender_ok K bs =
     (committee_ok (ctx_committee (bsu_context bs)) \<and> suspended_ok K (\<lambda>_. {}) bs \<and> children_ok (waiting bs) bs \<and> fetch_ok {} K bs)"

text \<open>Every header of the list has its ancestors known or before it.\<close>

primrec causal_order :: "block_ref set \<Rightarrow> verified_block_header list \<Rightarrow> bool" where
  "causal_order K [] = True"
| "causal_order K (h # hs) =
     ((\<exists>ancs. ancestors h = Some ancs \<and> set ancs \<subseteq> K) \<and> reference h \<notin> K \<and> causal_order (insert (reference h) K) hs)"

lemma causal_order_append:
  "causal_order K (hs @ hs') \<longleftrightarrow> causal_order K hs \<and> causal_order (K \<union> reference ` set hs) hs'"
  by (induction hs arbitrary: K) auto

subsection \<open>Releasing the dependents of a header\<close>

text \<open>While the children of \<open>r\<close> are visited, those in \<open>D\<close> still list \<open>r\<close>; \<open>T\<close> is on the stack.\<close>

definition releasing ::
  "block_ref set \<Rightarrow> block_ref set \<Rightarrow> block_ref \<Rightarrow> block_ref set \<Rightarrow> block_suspender \<Rightarrow> bool" where
  "releasing K T r D bs =
     (committee_ok (ctx_committee (bsu_context bs)) \<and> r \<in> K \<and> r \<notin> T \<and> T \<subseteq> K \<and> waiting bs r = D \<and>
      suspended_ok K (\<lambda>d. if d \<in> D then insert r T else T) bs \<and> children_ok ((waiting bs)(r := {})) bs \<and> fetch_ok {} K bs)"

lemma waiting_update:
  "waiting (bs\<lparr> suspended_headers := bm_insert x s (suspended_headers bs) \<rparr>) m =
     (if m \<in> set (sus_missing s) then insert x (waiting bs m) else waiting bs m - {x})"
  "waiting (bs\<lparr> suspended_headers := bm_remove x (suspended_headers bs) \<rparr>) m = waiting bs m - {x}"
  by (auto simp: waiting_def)

lemma children_of_update [simp]:
  "children_of (bs\<lparr> suspended_headers := m \<rparr>) = children_of bs" "children_of (bs\<lparr> headers_to_fetch := f \<rparr>) = children_of bs"
  by (simp_all add: children_of_def fun_eq_iff)

lemma suspended_refs_update [simp]:
  "suspended_refs (bs\<lparr> suspended_headers := bm_insert x s (suspended_headers bs) \<rparr>) = insert x (suspended_refs bs)"
  "suspended_refs (bs\<lparr> suspended_headers := bm_remove x (suspended_headers bs) \<rparr>) = suspended_refs bs - {x}"
  "suspended_refs (bs\<lparr> missing_ancestors := ma \<rparr>) = suspended_refs bs" "suspended_refs (bs\<lparr> headers_to_fetch := f \<rparr>) = suspended_refs bs"
  by (simp_all add: suspended_refs_def)

lemma authority_hostname_member:
  "a \<in> members (ctx_committee (bsu_context bs)) \<Longrightarrow> authority_hostname bs a = Some ()"
  by (simp add: authority_hostname_def authority_at_def members_def size_of_def)

definition held_headers :: "block_suspender \<Rightarrow> verified_block_header set" where
  "held_headers bs = {h. \<exists>r s. bm_get (suspended_headers bs) r = Some s \<and> sus_header s = h}"

text \<open>\<open>U\<close> are the accepted headers of the batch whose dependents are visited later.\<close>

definition released ::
  "block_ref set \<Rightarrow> block_ref set \<Rightarrow> block_suspender \<Rightarrow> block_suspender \<Rightarrow> verified_block_header list \<Rightarrow> bool" where
  "released K U bs bs' new =
     (causal_order (K - U) new \<and> reference ` set new \<inter> K = {} \<and> bsu_context bs' = bsu_context bs \<and>
      suspended_refs bs = suspended_refs bs' \<union> reference ` set new \<and>
      set new \<subseteq> held_headers bs \<and> held_headers bs' \<subseteq> held_headers bs)"

lemma released_refl: "released K U bs bs []"
  by (simp add: released_def)

lemma released_trans:
  assumes "released K U bs bs1 n1" "released (K \<union> reference ` set n1) U bs1 bs2 n2" "U \<subseteq> K"
  shows "released K U bs bs2 (n1 @ n2)"
proof -
  have "K \<union> reference ` set n1 - U = (K - U) \<union> reference ` set n1" using assms(1,3) by (auto simp: released_def)
  with assms(1,2) show ?thesis by (auto simp: released_def causal_order_append)
qed

lemma suspended_okD:
  assumes "suspended_ok K P bs" "bm_get (suspended_headers bs) x = Some s"
  shows "reference (sus_header s) = x \<and> x \<notin> K \<and> br_author x \<in> members (ctx_committee (bsu_context bs)) \<and>
    (\<exists>ancs. ancestors (sus_header s) = Some ancs \<and> set (sus_missing s) = set ancs - (K - P x) \<and> sus_missing s \<noteq> [])"
  using assms unfolding suspended_ok_def by blast

lemma children_ok_cong: "children_ok W bs \<Longrightarrow> W' = W \<Longrightarrow> children_of bs' = children_of bs \<Longrightarrow> children_ok W' bs'"
  by (simp add: children_ok_def)

lemma release_keep:
  assumes inv: "releasing K T r D bs" and s: "bm_get (suspended_headers bs) x = Some s" "r \<in> set (sus_missing s)"
    and rest: "bs_remove r (sus_missing s) \<noteq> []"
  defines "bs' \<equiv> bs\<lparr> suspended_headers := bm_insert x (s\<lparr> sus_missing := bs_remove r (sus_missing s) \<rparr>) (suspended_headers bs) \<rparr>"
  shows "releasing K T r (D - {x}) bs'" "released K U bs bs' []"
proof -
  have D: "D = waiting bs r" and x: "x \<in> D" using inv s by (auto simp: releasing_def waiting_def)
  have wait: "waiting bs' m = (if m = r then D - {x} else waiting bs m)" for m
    using s D unfolding bs'_def waiting_update by (auto simp: waiting_def)
  have refs: "suspended_refs bs' = suspended_refs bs" using s(1) by (auto simp: bs'_def suspended_refs_get)
  have ok: "suspended_ok K (\<lambda>d. if d \<in> D then insert r T else T) bs" and K: "r \<in> K" "r \<notin> T" using inv by (simp_all add: releasing_def)
  have "suspended_ok K (\<lambda>d. if d \<in> D - {x} then insert r T else T) bs'"
  proof (unfold suspended_ok_def, intro allI impI)
    fix q sq assume q: "bm_get (suspended_headers bs') q = Some sq"
    show "reference (sus_header sq) = q \<and> q \<notin> K \<and> br_author q \<in> members (ctx_committee (bsu_context bs')) \<and>
      (\<exists>ancs. ancestors (sus_header sq) = Some ancs \<and>
        set (sus_missing sq) = set ancs - (K - (if q \<in> D - {x} then insert r T else T)) \<and> sus_missing sq \<noteq> [])"
    proof (cases "q = x")
      case True
      with q have sq: "sq = s\<lparr> sus_missing := bs_remove r (sus_missing s) \<rparr>" by (simp add: bs'_def)
      from suspended_okD [OF ok s(1)] x K rest show ?thesis unfolding sq True by (auto simp: bs'_def)
    next
      case False
      with q have "bm_get (suspended_headers bs) q = Some sq" by (simp add: bs'_def)
      from suspended_okD [OF ok this] False show ?thesis by (auto simp: bs'_def)
    qed
  qed
  moreover have "children_ok ((waiting bs')(r := {})) bs'"
  proof -
    have "(waiting bs')(r := {}) = (waiting bs)(r := {})" by (simp add: fun_eq_iff wait)
    moreover have "children_of bs' = children_of bs" by (simp add: bs'_def)
    ultimately show ?thesis using inv by (auto simp: releasing_def intro: children_ok_cong)
  qed
  moreover have "fetch_ok {} K bs'"
    using inv K(1) unfolding fetch_ok_def releasing_def wait refs by (simp add: bs'_def)
  ultimately show "releasing K T r (D - {x}) bs'" using inv by (simp add: releasing_def wait) (simp add: bs'_def)
  have "held_headers bs' \<subseteq> held_headers bs" using s(1) by (auto simp: held_headers_def bs'_def split: if_splits)
  with refs show "released K U bs bs' []" by (simp add: released_def bs'_def)
qed

lemma release_free:
  assumes inv: "releasing K T r D bs" and s: "bm_get (suspended_headers bs) x = Some s" "r \<in> set (sus_missing s)"
    and rest: "bs_remove r (sus_missing s) = []" and U: "U \<subseteq> T"
  defines "bs' \<equiv> bs\<lparr> suspended_headers := bm_remove x (suspended_headers bs) \<rparr>"
  shows "releasing (insert x K) (insert x T) r (D - {x}) bs'" "released K U bs bs' [sus_header s]"
proof -
  have D: "D = waiting bs r" and x: "x \<in> D" using inv s by (auto simp: releasing_def waiting_def)
  have ok: "suspended_ok K (\<lambda>d. if d \<in> D then insert r T else T) bs" and K: "r \<in> K" "r \<notin> T" using inv by (simp_all add: releasing_def)
  from rest have only: "set (sus_missing s) = {r}" using s(2) by (metis Diff_eq_empty_iff empty_set set_bs_remove subset_singletonD empty_iff)
  have wait: "waiting bs' m = (if m = r then D - {x} else waiting bs m)" for m
    using s D only unfolding bs'_def waiting_update by (auto simp: waiting_def)
  obtain ancs where ancs: "reference (sus_header s) = x" "x \<notin> K" "ancestors (sus_header s) = Some ancs"
    "set (sus_missing s) = set ancs - (K - insert r T)" using suspended_okD [OF ok s(1)] x by auto
  have "suspended_ok (insert x K) (\<lambda>d. if d \<in> D - {x} then insert r (insert x T) else insert x T) bs'"
  proof (unfold suspended_ok_def, intro allI impI)
    fix q sq assume q: "bm_get (suspended_headers bs') q = Some sq"
    then have "q \<noteq> x" "bm_get (suspended_headers bs) q = Some sq" by (simp_all add: bs'_def split: if_splits)
    with suspended_okD [OF ok this(2)] ancs(2)
    show "reference (sus_header sq) = q \<and> q \<notin> insert x K \<and> br_author q \<in> members (ctx_committee (bsu_context bs')) \<and>
      (\<exists>ancs. ancestors (sus_header sq) = Some ancs \<and>
        set (sus_missing sq) = set ancs - (insert x K - (if q \<in> D - {x} then insert r (insert x T) else insert x T)) \<and> sus_missing sq \<noteq> [])"
      by (auto simp: bs'_def)
  qed
  moreover have "children_ok ((waiting bs')(r := {})) bs'"
  proof -
    have "(waiting bs')(r := {}) = (waiting bs)(r := {})" by (simp add: fun_eq_iff wait)
    moreover have "children_of bs' = children_of bs" by (simp add: bs'_def)
    ultimately show ?thesis using inv by (auto simp: releasing_def intro: children_ok_cong)
  qed
  moreover have refs: "suspended_refs bs' = suspended_refs bs - {x}" by (simp add: bs'_def)
  moreover have "fetch_ok {} (insert x K) bs'"
    using inv K(1) s(1) unfolding fetch_ok_def releasing_def wait refs by (auto simp: bs'_def suspended_refs_get)
  ultimately show "releasing (insert x K) (insert x T) r (D - {x}) bs'"
    using inv ancs(2) by (auto simp: releasing_def wait) (auto simp: bs'_def)
  have "set ancs \<subseteq> K - U" using ancs(4) only K U by auto
  moreover have "x \<in> suspended_refs bs" using s(1) by (simp add: suspended_refs_get)
  ultimately show "released K U bs bs' [sus_header s]"
    using ancs(1-3) s(1) refs by (auto simp: released_def held_headers_def bs'_def split: if_splits)
qed

lemma causal_order_fresh: "causal_order K hs \<Longrightarrow> distinct (map reference hs) \<and> reference ` set hs \<inter> K = {}"
proof (induction hs arbitrary: K)
  case (Cons h hs)
  from Cons.IH [of "insert (reference h) K"] Cons.prems show ?case by auto
qed simp

lemma bm_remove_absent: "bm_get m k = None \<Longrightarrow> bm_remove k m = m"
  by (auto simp: bm_remove_def bm_get_None_iff filter_id_conv)

lemma unsuspend_children_fold:
  "unsuspend_children bs r stack ready =
     foldM (unsuspend_child r) (bs\<lparr> missing_ancestors := bm_remove r (missing_ancestors bs) \<rparr>, stack, ready) (children_of bs r)"
  by (auto simp: unsuspend_children_def children_of_def bm_remove_absent split: option.splits)

lemma release_child:
  assumes inv: "releasing K T r D bs" and x: "x \<in> D" and U: "U \<subseteq> T"
  shows "\<exists>bs' new. unsuspend_child r (bs, stack, ready) x = Some (bs', rev (map reference new) @ stack, ready @ new) \<and>
    releasing (K \<union> reference ` set new) (T \<union> reference ` set new) r (D - {x}) bs' \<and> released K U bs bs' new"
proof -
  obtain s where s: "bm_get (suspended_headers bs) x = Some s" "r \<in> set (sus_missing s)"
    using inv x by (auto simp: releasing_def waiting_def)
  show ?thesis
  proof (cases "bs_remove r (sus_missing s) = []")
    case False
    then show ?thesis using s release_keep(1) [OF inv s False] release_keep(2) [OF inv s False, of U]
      by (intro exI [of _ "[]"] exI conjI) (auto simp: unsuspend_child_def unsuspend_if_ready_def)
  next
    case True
    have "reference (sus_header s) = x" "br_author x \<in> members (ctx_committee (bsu_context bs))"
      using suspended_okD [OF _ s(1)] inv by (auto simp: releasing_def)
    moreover from this have "bh_author (sus_header s) \<in> members (ctx_committee (bsu_context bs))" by auto
    ultimately show ?thesis using s True release_free [OF inv s True U]
      by (intro exI [of _ "bs\<lparr> suspended_headers := bm_remove x (suspended_headers bs) \<rparr>"] exI [of _ "[sus_header s]"])
        (simp add: unsuspend_child_def unsuspend_if_ready_def authority_hostname_member)
  qed
qed

lemma release_children:
  assumes "releasing K T r (set xs) bs" "distinct xs" "U \<subseteq> T"
  shows "\<exists>bs' new. foldM (unsuspend_child r) (bs, stack, ready) xs = Some (bs', rev (map reference new) @ stack, ready @ new) \<and>
    releasing (K \<union> reference ` set new) (T \<union> reference ` set new) r {} bs' \<and> released K U bs bs' new"
  using assms
proof (induction xs arbitrary: K T bs stack ready)
  case Nil
  then show ?case by (intro exI [of _ bs] exI [of _ "[]"]) (simp add: released_refl)
next
  case (Cons x xs)
  from release_child [OF Cons.prems(1) _ Cons.prems(3), of x stack ready] obtain bs1 n1 where
    1: "unsuspend_child r (bs, stack, ready) x = Some (bs1, rev (map reference n1) @ stack, ready @ n1)"
      "releasing (K \<union> reference ` set n1) (T \<union> reference ` set n1) r (set (x # xs) - {x}) bs1" "released K U bs bs1 n1" by auto
  have "set (x # xs) - {x} = set xs" using Cons.prems(2) by auto
  with Cons.IH [of "K \<union> reference ` set n1" "T \<union> reference ` set n1" bs1 "rev (map reference n1) @ stack" "ready @ n1"] 1(2) Cons.prems(2,3)
  obtain bs2 n2 where
    2: "foldM (unsuspend_child r) (bs1, rev (map reference n1) @ stack, ready @ n1) xs =
        Some (bs2, rev (map reference n2) @ rev (map reference n1) @ stack, (ready @ n1) @ n2)"
      "releasing (K \<union> reference ` set n1 \<union> reference ` set n2) (T \<union> reference ` set n1 \<union> reference ` set n2) r {} bs2"
      "released (K \<union> reference ` set n1) U bs1 bs2 n2" by auto
  have "U \<subseteq> K" using Cons.prems(1,3) by (auto simp: releasing_def)
  show ?case using 1(1) 2(1,2) released_trans [OF 1(3) 2(3) \<open>U \<subseteq> K\<close>]
    by (intro exI [of _ bs2] exI [of _ "n1 @ n2"]) (simp add: image_Un Un_assoc)
qed

definition pending :: "block_ref set \<Rightarrow> block_ref set \<Rightarrow> block_suspender \<Rightarrow> bool" where
  "pending K T bs = (committee_ok (ctx_committee (bsu_context bs)) \<and> T \<subseteq> K \<and> suspended_ok K (\<lambda>_. T) bs \<and>
     children_ok (waiting bs) bs \<and> fetch_ok {} K bs)"

lemma releasing_done: "releasing K T r {} bs \<Longrightarrow> pending K T bs"
  unfolding releasing_def pending_def by (auto simp: fun_upd_idem)

lemma pending_done: "pending K {} bs \<longleftrightarrow> suspender_ok K bs"
  by (simp add: pending_def suspender_ok_def)

lemma unsuspend_children_run:
  assumes p: "pending K T bs" and r: "r \<in> T" and U: "U \<subseteq> T - {r}"
  shows "\<exists>bs' new. unsuspend_children bs r stack ready = Some (bs', rev (map reference new) @ stack, ready @ new) \<and>
    pending (K \<union> reference ` set new) (T - {r} \<union> reference ` set new) bs' \<and> released K U bs bs' new"
proof -
  let ?bs = "bs\<lparr> missing_ancestors := bm_remove r (missing_ancestors bs) \<rparr>"
  have ch: "bs_invar (children_of bs r)" "set (children_of bs r) = waiting bs r" using p by (auto simp: pending_def children_ok_def)
  have same: "waiting ?bs = waiting bs" by (simp add: waiting_def fun_eq_iff)
  have "suspended_ok K (\<lambda>d. if d \<in> waiting bs r then insert r (T - {r}) else T - {r}) ?bs"
  proof (unfold suspended_ok_def, intro allI impI)
    fix q s assume "bm_get (suspended_headers ?bs) q = Some s"
    then have q: "bm_get (suspended_headers bs) q = Some s" by simp
    from suspended_okD [OF _ q, of K "\<lambda>_. T"] p obtain ancs where a:
      "reference (sus_header s) = q" "q \<notin> K" "br_author q \<in> members (ctx_committee (bsu_context bs))"
      "ancestors (sus_header s) = Some ancs" "set (sus_missing s) = set ancs - (K - T)" "sus_missing s \<noteq> []" by (auto simp: pending_def)
    have "set (sus_missing s) = set ancs - (K - (if q \<in> waiting bs r then insert r (T - {r}) else T - {r}))"
      using a(5) r q by (auto simp: waiting_def)
    with a show "reference (sus_header s) = q \<and> q \<notin> K \<and> br_author q \<in> members (ctx_committee (bsu_context ?bs)) \<and>
      (\<exists>ancs. ancestors (sus_header s) = Some ancs \<and>
        set (sus_missing s) = set ancs - (K - (if q \<in> waiting bs r then insert r (T - {r}) else T - {r})) \<and> sus_missing s \<noteq> [])" by simp
  qed
  moreover have "children_ok ((waiting ?bs)(r := {})) ?bs"
    using p by (auto simp: pending_def children_ok_def children_of_def same)
  moreover have "fetch_ok {} K ?bs" using p by (simp add: pending_def fetch_ok_def same)
  ultimately have rel: "releasing K (T - {r}) r (set (children_of bs r)) ?bs"
    using p r by (auto simp: pending_def releasing_def same ch(2))
  from release_children [OF rel bs_invar_distinct [OF ch(1)] U, of stack ready] obtain bs' new where
    run: "foldM (unsuspend_child r) (?bs, stack, ready) (children_of bs r) = Some (bs', rev (map reference new) @ stack, ready @ new)"
      "releasing (K \<union> reference ` set new) (T - {r} \<union> reference ` set new) r {} bs'" "released K U ?bs bs' new" by blast
  have "released K U bs bs' new" using run(3) by (simp add: released_def held_headers_def)
  with run(1) releasing_done [OF run(2)] show ?thesis unfolding unsuspend_children_fold by blast
qed

lemma unsuspend_loop_run:
  assumes "pending K (set stack \<union> U) bs" "distinct stack" "set stack \<inter> U = {}"
  shows "\<exists>bs' new. unsuspend_loop bs stack ready = Some (bs', ready @ new) \<and>
    pending (K \<union> reference ` set new) U bs' \<and> released K U bs bs' new"
  using assms
proof (induction bs stack ready arbitrary: K rule: unsuspend_loop.induct)
  case (1 bs ready)
  then show ?case by (intro exI [of _ bs] exI [of _ "[]"]) (simp add: released_refl)
next
  case (2 bs r stack ready)
  have "U \<subseteq> set (r # stack) \<union> U - {r}" using 2(4) by auto
  from unsuspend_children_run [OF 2(2) _ this, of stack ready] obtain bs1 n1 where
    1: "unsuspend_children bs r stack ready = Some (bs1, rev (map reference n1) @ stack, ready @ n1)"
      "pending (K \<union> reference ` set n1) (set (r # stack) \<union> U - {r} \<union> reference ` set n1) bs1" "released K U bs bs1 n1" by auto
  have fresh: "distinct (map reference n1)" "reference ` set n1 \<inter> K = {}"
    using 1(3) causal_order_fresh by (auto simp: released_def)
  have sub: "set (r # stack) \<union> U \<subseteq> K" using 2(2) by (simp add: pending_def)
  have "set (r # stack) \<union> U - {r} \<union> reference ` set n1 = set (rev (map reference n1) @ stack) \<union> U" using 2(3,4) by auto
  with 1(2) have p: "pending (K \<union> reference ` set n1) (set (rev (map reference n1) @ stack) \<union> U) bs1" by simp
  have "distinct (rev (map reference n1) @ stack)" "set (rev (map reference n1) @ stack) \<inter> U = {}"
    using fresh sub 2(3,4) by auto
  from 2(1) [OF 1(1) refl refl p this] obtain bs2 n2 where
    2: "unsuspend_loop bs1 (rev (map reference n1) @ stack) (ready @ n1) = Some (bs2, (ready @ n1) @ n2)"
      "pending (K \<union> reference ` set n1 \<union> reference ` set n2) U bs2" "released (K \<union> reference ` set n1) U bs1 bs2 n2" by blast
  have "U \<subseteq> K" using sub by blast
  show ?case using 1(1) 2(1,2) released_trans [OF 1(3) 2(3) \<open>U \<subseteq> K\<close>]
    by (intro exI [of _ bs2] exI [of _ "n1 @ n2"]) (simp add: image_Un Un_assoc)
qed

subsection \<open>Sorting the incoming headers\<close>

text \<open>
  While a batch with the references \<open>I\<close> is sorted, \<open>Z\<close> are the references already processed. In
  the middle of suspending \<open>x\<close> the ancestors in \<open>M\<close> are not registered yet.
\<close>

definition suspending :: "block_ref set \<Rightarrow> block_ref set \<Rightarrow> block_ref set \<Rightarrow> block_ref \<Rightarrow> block_ref set \<Rightarrow> block_suspender \<Rightarrow> bool" where
  "suspending K I Z x M bs =
     (children_ok (\<lambda>m. waiting bs m - (if m \<in> M then {x} else {})) bs \<and> fetch_ok (I \<union> M) K bs \<and>
      (\<forall>m \<in> M - I. bm_get (headers_to_fetch bs) m \<noteq> None \<longrightarrow> m \<notin> suspended_refs bs) \<and>
      (\<forall>m \<in> Z. bm_get (headers_to_fetch bs) m = None))"

lemma waiting_same: "suspended_headers bs' = suspended_headers bs \<Longrightarrow> waiting bs' = waiting bs"
  by (simp add: waiting_def fun_eq_iff)

lemma suspended_refs_same: "suspended_headers bs' = suspended_headers bs \<Longrightarrow> suspended_refs bs' = suspended_refs bs"
  by (simp add: suspended_refs_def)

lemma suspend_on_run:
  assumes inv: "suspending K I Z x (set (a # as)) bs" and a: "x \<in> waiting bs a" "a \<notin> set as" "a \<in> K \<Longrightarrow> a \<in> I"
    "br_author a \<in> members (ctx_committee (bsu_context bs))" and Z: "Z \<subseteq> I"
  shows "\<exists>bs'. suspend_on I x (bs, to_fetch) a =
      Some (bs', if a \<notin> suspended_refs bs \<and> a \<notin> I then bs_insert a to_fetch else to_fetch) \<and>
    suspending K I Z x (set as) bs' \<and> suspended_headers bs' = suspended_headers bs \<and> bsu_context bs' = bsu_context bs"
proof -
  let ?bs1 = "register_missing_ancestor bs x a"
  let ?fetch = "a \<notin> suspended_refs bs \<and> a \<notin> I"
  let ?bs2 = "if ?fetch then register_block_to_fetch ?bs1 a (br_author x) else ?bs1"
  have sus: "suspended_headers ?bs2 = suspended_headers bs" "bsu_context ?bs2 = bsu_context bs"
    by (simp_all add: register_missing_ancestor_def register_block_to_fetch_def)
  have host: "authority_hostname ?bs1 (br_author a) = Some ()"
    using a(4) by (simp add: authority_hostname_member register_missing_ancestor_def)
  have has: "bm_contains_key (suspended_headers ?bs1) a \<longleftrightarrow> a \<in> suspended_refs bs"
    by (simp add: register_missing_ancestor_def bm_contains_key_def suspended_refs_get)
  have run: "suspend_on I x (bs, to_fetch) a = Some (?bs2, if ?fetch then bs_insert a to_fetch else to_fetch)"
    by (simp add: suspend_on_def has host Let_def)
  have ch: "children_of ?bs2 m = (if m = a then bs_insert x (children_of bs a) else children_of bs m)" for m
    by (auto simp: register_missing_ancestor_def register_block_to_fetch_def children_of_def split: option.splits)
  have "children_ok (\<lambda>m. waiting ?bs2 m - (if m \<in> set as then {x} else {})) ?bs2"
    using inv a(1,2) unfolding suspending_def children_ok_def ch waiting_same [OF sus(1)] by (auto split: if_splits)
  moreover have f: "bm_get (headers_to_fetch ?bs2) m = None \<longleftrightarrow> \<not> (m = a \<and> ?fetch) \<and> bm_get (headers_to_fetch bs) m = None" for m
    by (auto simp: register_missing_ancestor_def register_block_to_fetch_def split: option.splits)
  note refs = suspended_refs_same [OF sus(1)]
  have "fetch_ok (I \<union> set as) K ?bs2"
  proof (unfold fetch_ok_def, intro allI impI)
    fix m assume m: "m \<notin> I \<union> set as"
    show "bm_get (headers_to_fetch ?bs2) m \<noteq> None \<longleftrightarrow> waiting ?bs2 m \<noteq> {} \<and> m \<notin> suspended_refs ?bs2 \<and> m \<notin> K"
    proof (cases "m = a")
      case True
      then show ?thesis using m inv a(1,3) unfolding f refs waiting_same [OF sus(1)] suspending_def by auto
    next
      case False
      then show ?thesis using m inv unfolding f refs waiting_same [OF sus(1)] suspending_def fetch_ok_def by auto
    qed
  qed
  ultimately have "suspending K I Z x (set as) ?bs2"
    using inv a(2) Z unfolding suspending_def f refs by auto
  with run sus show ?thesis by blast
qed

lemma suspend_on_all:
  assumes "suspending K I Z x (set as) bs" "distinct as" "Z \<subseteq> I" "\<forall>a \<in> set as. x \<in> waiting bs a \<and> (a \<in> K \<longrightarrow> a \<in> I) \<and>
    br_author a \<in> members (ctx_committee (bsu_context bs))"
  shows "\<exists>bs' to_fetch'. foldM (suspend_on I x) (bs, to_fetch) as = Some (bs', to_fetch') \<and>
    suspending K I Z x {} bs' \<and> suspended_headers bs' = suspended_headers bs \<and> bsu_context bs' = bsu_context bs \<and>
    set to_fetch' = set to_fetch \<union> {a \<in> set as. a \<notin> suspended_refs bs \<and> a \<notin> I}"
  using assms
proof (induction as arbitrary: bs to_fetch)
  case (Cons a as)
  from suspend_on_run [OF Cons.prems(1), of to_fetch] Cons.prems(2-4) obtain bs1 where
    1: "suspend_on I x (bs, to_fetch) a = Some (bs1, if a \<notin> suspended_refs bs \<and> a \<notin> I then bs_insert a to_fetch else to_fetch)"
      "suspending K I Z x (set as) bs1" "suspended_headers bs1 = suspended_headers bs" "bsu_context bs1 = bsu_context bs" by auto
  note refs = suspended_refs_same [OF 1(3)]
  have "\<forall>a \<in> set as. x \<in> waiting bs1 a \<and> (a \<in> K \<longrightarrow> a \<in> I) \<and> br_author a \<in> members (ctx_committee (bsu_context bs1))"
    using Cons.prems(4) by (simp add: waiting_same [OF 1(3)] 1(4))
  with Cons.IH [OF 1(2), of "if a \<notin> suspended_refs bs \<and> a \<notin> I then bs_insert a to_fetch else to_fetch"] Cons.prems(2,3)
  obtain bs2 f2 where
    2: "foldM (suspend_on I x) (bs1, if a \<notin> suspended_refs bs \<and> a \<notin> I then bs_insert a to_fetch else to_fetch) as = Some (bs2, f2)"
      "suspending K I Z x {} bs2" "suspended_headers bs2 = suspended_headers bs1" "bsu_context bs2 = bsu_context bs1"
      "set f2 = set (if a \<notin> suspended_refs bs \<and> a \<notin> I then bs_insert a to_fetch else to_fetch) \<union>
        {a \<in> set as. a \<notin> suspended_refs bs1 \<and> a \<notin> I}" by auto
  then show ?case using 1 by (intro exI [of _ bs2] exI [of _ f2]) (auto simp: refs)
qed auto

definition resolving :: "block_ref set \<Rightarrow> block_ref set \<Rightarrow> block_ref set \<Rightarrow> block_ref set \<Rightarrow> block_suspender \<Rightarrow> bool" where
  "resolving K I Z F bs =
     (committee_ok (ctx_committee (bsu_context bs)) \<and> F \<subseteq> Z \<and> Z \<subseteq> I \<and> I \<inter> K = {} \<and> Z \<subseteq> F \<union> suspended_refs bs \<and>
      suspended_ok (K \<union> F) (\<lambda>_. F) bs \<and> children_ok (waiting bs) bs \<and> fetch_ok I (K \<union> F) bs \<and>
      (\<forall>m \<in> Z. bm_get (headers_to_fetch bs) m = None))"

text \<open>An entry of the batch: a header of a member with exactly its unknown ancestors.\<close>

definition entry_ok :: "committee \<Rightarrow> block_ref set \<Rightarrow> verified_block_header \<times> block_ref btreeset \<Rightarrow> bool" where
  "entry_ok c K e =
     (bh_author (fst e) \<in> members c \<and> bs_invar (snd e) \<and>
      (\<exists>ancs. ancestors (fst e) = Some ancs \<and> set (snd e) = set ancs - K \<and> (\<forall>a \<in> set ancs. br_author a \<in> members c)))"

lemma resolve_header:
  assumes inv: "resolving K I Z F bs" and x: "reference h \<in> I - Z" "reference h \<notin> suspended_refs bs"
  defines "bs' \<equiv> bs\<lparr> headers_to_fetch := bm_remove (reference h) (headers_to_fetch bs) \<rparr>"
  shows "resolving K I (insert (reference h) Z) (insert (reference h) F) bs'"
proof -
  let ?x = "reference h"
  have same: "suspended_headers bs' = suspended_headers bs" "bsu_context bs' = bsu_context bs" by (simp_all add: bs'_def)
  have "suspended_ok (K \<union> insert ?x F) (\<lambda>_. insert ?x F) bs'"
  proof (unfold suspended_ok_def same, intro allI impI)
    fix q s assume q: "bm_get (suspended_headers bs) q = Some s"
    then have "q \<noteq> ?x" using x(2) by (auto simp: suspended_refs_get)
    then show "reference (sus_header s) = q \<and> q \<notin> K \<union> insert ?x F \<and> br_author q \<in> members (ctx_committee (bsu_context bs)) \<and>
      (\<exists>ancs. ancestors (sus_header s) = Some ancs \<and> set (sus_missing s) = set ancs - (K \<union> insert ?x F - insert ?x F) \<and> sus_missing s \<noteq> [])"
      using suspended_okD [OF _ q, of "K \<union> F" "\<lambda>_. F"] inv x(1) unfolding resolving_def by auto
  qed
  moreover have "fetch_ok I (K \<union> insert ?x F) bs'"
    using inv x(1) unfolding resolving_def fetch_ok_def waiting_same [OF same(1)] suspended_refs_same [OF same(1)]
    by (auto simp: bs'_def)
  moreover have "children_ok (waiting bs') bs'"
    using inv waiting_same [OF same(1)] by (auto simp: resolving_def bs'_def children_ok_def)
  moreover have "\<forall>m \<in> insert ?x Z. bm_get (headers_to_fetch bs') m = None" using inv by (simp add: resolving_def bs'_def)
  ultimately show ?thesis
    using inv x(1) unfolding resolving_def suspended_refs_same [OF same(1)] same(2) by blast
qed

lemma suspend_header:
  assumes inv: "resolving K I Z F bs" and x: "reference h \<in> I - Z" "reference h \<notin> suspended_refs bs"
    and e: "entry_ok (ctx_committee (bsu_context bs)) K (h, ms)" "ms \<noteq> []"
  shows "\<exists>bs' tf'. resolve_or_suspend_header I (bs, resolved, tf) (h, ms) = Some (bs', resolved, tf') \<and>
    resolving K I (insert (reference h) Z) F bs' \<and> suspended_refs bs' = insert (reference h) (suspended_refs bs) \<and>
    held_headers bs' \<subseteq> insert h (held_headers bs) \<and> bsu_context bs' = bsu_context bs \<and>
    set tf' = set tf \<union> {a \<in> set ms. a \<notin> suspended_refs bs \<and> a \<notin> I}"
proof -
  let ?x = "reference h" and ?c = "ctx_committee (bsu_context bs)"
  let ?s = "suspended_block_header_new h ms"
  let ?bs1 = "bs\<lparr> headers_to_fetch := bm_remove ?x (headers_to_fetch bs) \<rparr>"
  let ?bs2 = "?bs1\<lparr> suspended_headers := bm_insert ?x ?s (suspended_headers bs) \<rparr>"
  obtain ancs where e': "bh_author h \<in> members ?c" "bs_invar ms" "ancestors h = Some ancs" "set ms = set ancs - K"
    "\<forall>a \<in> set ancs. br_author a \<in> members ?c" using e(1) by (auto simp: entry_ok_def)
  have new: "bm_get (suspended_headers bs) ?x = None" using x(2) by (simp add: suspended_refs_get)
  have s: "sus_header ?s = h" "set (sus_missing ?s) = set ms"
    using set_bs_extend [of "[]" ms] by (simp_all add: suspended_block_header_new_def bs_extend_def)
  have reg: "register_suspended_block ?bs1 h ms = ?bs2" by (simp add: register_suspended_block_def new Let_def)
  have K: "I \<inter> K = {}" "F \<subseteq> Z" "Z \<subseteq> I" using inv by (simp_all add: resolving_def)
  have wait: "waiting ?bs2 m = (if m \<in> set ms then insert ?x (waiting bs m) else waiting bs m)" for m
    using new by (auto simp: waiting_def s(2))
  have notw: "?x \<notin> waiting bs m" for m using new by (simp add: waiting_def)
  have refs2: "suspended_refs ?bs2 = insert ?x (suspended_refs bs)" by (simp add: suspended_refs_def)
  have "suspending (K \<union> F) I (insert ?x Z) ?x (set ms) ?bs2"
    unfolding suspending_def
  proof (intro conjI)
    have "(\<lambda>m. waiting ?bs2 m - (if m \<in> set ms then {?x} else {})) = waiting bs" using notw by (auto simp: wait fun_eq_iff)
    then show "children_ok (\<lambda>m. waiting ?bs2 m - (if m \<in> set ms then {?x} else {})) ?bs2"
      using inv by (simp add: resolving_def children_ok_def)
    show "fetch_ok (I \<union> set ms) (K \<union> F) ?bs2"
      using inv x(1) unfolding fetch_ok_def resolving_def refs2 by (auto simp: wait)
    show "\<forall>m \<in> set ms - I. bm_get (headers_to_fetch ?bs2) m \<noteq> None \<longrightarrow> m \<notin> suspended_refs ?bs2"
      using inv x(1) unfolding fetch_ok_def resolving_def refs2 by auto
    show "\<forall>m \<in> insert ?x Z. bm_get (headers_to_fetch ?bs2) m = None" using inv by (simp add: resolving_def)
  qed
  moreover have "\<forall>a \<in> set ms. ?x \<in> waiting ?bs2 a \<and> (a \<in> K \<union> F \<longrightarrow> a \<in> I) \<and> br_author a \<in> members (ctx_committee (bsu_context ?bs2))"
    using e'(4,5) K by (auto simp: wait)
  ultimately obtain bs3 tf' where
    run: "foldM (suspend_on I ?x) (?bs2, tf) ms = Some (bs3, tf')" "suspending (K \<union> F) I (insert ?x Z) ?x {} bs3"
      "suspended_headers bs3 = suspended_headers ?bs2" "bsu_context bs3 = bsu_context ?bs2"
      "set tf' = set tf \<union> {a \<in> set ms. a \<notin> suspended_refs ?bs2 \<and> a \<notin> I}"
    using suspend_on_all [of "K \<union> F" I "insert ?x Z" ?x ms ?bs2 tf] bs_invar_distinct [OF e'(2)] x(1) K by auto
  have "resolve_or_suspend_header I (bs, resolved, tf) (h, ms) = Some (bs3, resolved, tf')"
    using e(2) run(1) e'(1) by (simp add: resolve_or_suspend_header_def Let_def reg authority_hostname_member)
  moreover have refs: "suspended_refs bs3 = insert ?x (suspended_refs bs)"
    unfolding suspended_refs_same [OF run(3)] refs2 ..
  moreover have "suspended_ok (K \<union> F) (\<lambda>_. F) bs3"
  proof (unfold suspended_ok_def run(3,4), intro allI impI)
    fix q sq assume q: "bm_get (suspended_headers ?bs2) q = Some sq"
    show "reference (sus_header sq) = q \<and> q \<notin> K \<union> F \<and> br_author q \<in> members (ctx_committee (bsu_context ?bs2)) \<and>
      (\<exists>ancs. ancestors (sus_header sq) = Some ancs \<and> set (sus_missing sq) = set ancs - (K \<union> F - F) \<and> sus_missing sq \<noteq> [])"
    proof (cases "q = ?x")
      case True
      with q have "sq = ?s" by simp
      moreover have "sus_missing ?s \<noteq> []" using s(2) e(2) by (metis set_empty)
      moreover have "set ancs - K = set ancs - (K \<union> F - F)" using K by auto
      ultimately show ?thesis using e' s True x(1) K by auto
    next
      case False
      with q have "bm_get (suspended_headers bs) q = Some sq" by simp
      from suspended_okD [OF _ this, of "K \<union> F" "\<lambda>_. F"] inv show ?thesis by (simp add: resolving_def)
    qed
  qed
  moreover have "held_headers bs3 \<subseteq> insert h (held_headers bs)"
    unfolding held_headers_def run(3) using s(1) by (auto split: if_splits)
  moreover have "resolving K I (insert ?x Z) F bs3"
    using inv run(2,4) x(1) \<open>suspended_ok (K \<union> F) (\<lambda>_. F) bs3\<close> unfolding resolving_def suspending_def refs by auto
  moreover have "set tf' = set tf \<union> {a \<in> set ms. a \<notin> suspended_refs bs \<and> a \<notin> I}" using run(5) x(1) refs2 by auto
  ultimately show ?thesis using run(4) by (intro exI [of _ bs3] exI [of _ tf']) simp
qed

lemma fresh_rest: "x \<notin> R \<Longrightarrow> R \<subseteq> A - Z - S \<Longrightarrow> S' \<subseteq> insert x S \<Longrightarrow> R \<subseteq> A - insert x Z - S'"
  by blast

lemma resolve_headers_run:
  assumes "resolving K I Z F bs" "distinct (map (reference \<circ> fst) hm)" "(reference \<circ> fst) ` set hm \<subseteq> I - Z - suspended_refs bs"
    "\<forall>e \<in> set hm. entry_ok (ctx_committee (bsu_context bs)) K e"
  shows "\<exists>bs' tf'. foldM (resolve_or_suspend_header I) (bs, resolved, tf) hm =
      Some (bs', resolved @ map fst (filter (\<lambda>e. snd e = []) hm), tf') \<and>
    resolving K I (Z \<union> (reference \<circ> fst) ` set hm) (F \<union> (reference \<circ> fst) ` {e \<in> set hm. snd e = []}) bs' \<and>
    suspended_refs bs' = suspended_refs bs \<union> (reference \<circ> fst) ` {e \<in> set hm. snd e \<noteq> []} \<and>
    held_headers bs' \<subseteq> fst ` set hm \<union> held_headers bs \<and> bsu_context bs' = bsu_context bs \<and>
    set tf' = set tf \<union> {a. a \<notin> I \<and> a \<notin> suspended_refs bs \<and> (\<exists>e \<in> set hm. a \<in> set (snd e))}"
  using assms
proof (induction hm arbitrary: Z F bs resolved tf)
  case Nil
  then show ?case by auto
next
  case (Cons e hm)
  obtain h ms where e: "e = (h, ms)" by (cases e)
  let ?x = "reference h"
  have x: "?x \<in> I - Z" "?x \<notin> suspended_refs bs" using Cons.prems(3) by (auto simp: e)
  obtain bs1 tf1 where
    1: "resolve_or_suspend_header I (bs, resolved, tf) (h, ms) = Some (bs1, if ms = [] then resolved @ [h] else resolved, tf1)"
      "resolving K I (insert ?x Z) (if ms = [] then insert ?x F else F) bs1"
      "suspended_refs bs1 = (if ms = [] then suspended_refs bs else insert ?x (suspended_refs bs))"
      "held_headers bs1 \<subseteq> insert h (held_headers bs)" "bsu_context bs1 = bsu_context bs"
      "set tf1 = set tf \<union> {a \<in> set ms. a \<notin> suspended_refs bs \<and> a \<notin> I}"
  proof (cases "ms = []")
    case True
    with resolve_header [OF Cons.prems(1) x] show ?thesis
      by (intro that [of "bs\<lparr> headers_to_fetch := bm_remove ?x (headers_to_fetch bs) \<rparr>" tf])
        (auto simp: resolve_or_suspend_header_def held_headers_def Let_def)
  next
    case False
    with suspend_header [OF Cons.prems(1) x, of ms resolved tf] Cons.prems(4) obtain bs1 tf1 where
      "resolve_or_suspend_header I (bs, resolved, tf) (h, ms) = Some (bs1, resolved, tf1)"
      "resolving K I (insert ?x Z) F bs1" "suspended_refs bs1 = insert ?x (suspended_refs bs)"
      "held_headers bs1 \<subseteq> insert h (held_headers bs)" "bsu_context bs1 = bsu_context bs"
      "set tf1 = set tf \<union> {a \<in> set ms. a \<notin> suspended_refs bs \<and> a \<notin> I}" by (auto simp: e)
    with False show ?thesis by (intro that [of bs1 tf1]) simp_all
  qed
  have rest: "(reference \<circ> fst) ` set hm \<subseteq> I - insert ?x Z - suspended_refs bs1"
  proof -
    have "?x \<notin> (reference \<circ> fst) ` set hm" using Cons.prems(2) by (simp add: e)
    moreover have "(reference \<circ> fst) ` set hm \<subseteq> I - Z - suspended_refs bs" using Cons.prems(3) by auto
    moreover have "suspended_refs bs1 \<subseteq> insert ?x (suspended_refs bs)" using 1(3) by auto
    ultimately show ?thesis by (rule fresh_rest)
  qed
  have ok: "\<forall>e \<in> set hm. entry_ok (ctx_committee (bsu_context bs1)) K e" using Cons.prems(4) 1(5) by simp
  from Cons.IH [OF 1(2) _ rest ok, of "if ms = [] then resolved @ [h] else resolved" tf1] Cons.prems(2) obtain bs2 tf2 where
    2: "foldM (resolve_or_suspend_header I) (bs1, if ms = [] then resolved @ [h] else resolved, tf1) hm =
        Some (bs2, (if ms = [] then resolved @ [h] else resolved) @ map fst (filter (\<lambda>e. snd e = []) hm), tf2)"
      "resolving K I (insert ?x Z \<union> (reference \<circ> fst) ` set hm)
        ((if ms = [] then insert ?x F else F) \<union> (reference \<circ> fst) ` {e \<in> set hm. snd e = []}) bs2"
      "suspended_refs bs2 = suspended_refs bs1 \<union> (reference \<circ> fst) ` {e \<in> set hm. snd e \<noteq> []}"
      "held_headers bs2 \<subseteq> fst ` set hm \<union> held_headers bs1" "bsu_context bs2 = bsu_context bs1"
      "set tf2 = set tf1 \<union> {a. a \<notin> I \<and> a \<notin> suspended_refs bs1 \<and> (\<exists>e \<in> set hm. a \<in> set (snd e))}" by auto
  have set1: "insert ?x Z \<union> (reference \<circ> fst) ` set hm = Z \<union> (reference \<circ> fst) ` set (e # hm)" by (auto simp: e)
  have set2: "(if ms = [] then insert ?x F else F) \<union> (reference \<circ> fst) ` {e \<in> set hm. snd e = []} =
      F \<union> (reference \<circ> fst) ` {e' \<in> set (e # hm). snd e' = []}"
  proof -
    have "{e' \<in> set (e # hm). snd e' = []} = (if ms = [] then insert e {e \<in> set hm. snd e = []} else {e \<in> set hm. snd e = []})"
      by (auto simp: e)
    then show ?thesis by (simp add: e)
  qed
  have "suspended_refs bs2 = suspended_refs bs \<union> (reference \<circ> fst) ` {e' \<in> set (e # hm). snd e' \<noteq> []}"
  proof -
    have "{e' \<in> set (e # hm). snd e' \<noteq> []} = (if ms = [] then {e \<in> set hm. snd e \<noteq> []} else insert e {e \<in> set hm. snd e \<noteq> []})"
      by (auto simp: e)
    then show ?thesis using 2(3) 1(3) by (simp add: e)
  qed
  moreover have "set tf2 = set tf \<union> {a. a \<notin> I \<and> a \<notin> suspended_refs bs \<and> (\<exists>e' \<in> set (e # hm). a \<in> set (snd e'))}"
    using 2(6) 1(3,6) x(1) by (auto simp: e)
  moreover have "held_headers bs2 \<subseteq> fst ` set (e # hm) \<union> held_headers bs" using 2(4) 1(4) by (auto simp: e)
  ultimately show ?case using 1(1,5) 2(1,2,5) unfolding set1 set2
    by (intro exI [of _ bs2] exI [of _ tf2]) (simp add: e)
qed

text \<open>Visiting the dependents of the accepted headers of the batch in turn.\<close>

lemma release_batch:
  assumes "pending K (reference ` set hs) bs" "distinct (map reference hs)"
    "\<forall>h \<in> set hs. \<exists>ancs. ancestors h = Some ancs \<and> set ancs \<subseteq> V" "V \<subseteq> K - reference ` set hs"
  shows "\<exists>bs' new. foldM (\<lambda>(bs, accepted) h. do {
         (bs', unsuspended) \<leftarrow> recursively_unsuspend_dependents bs (reference h);
         Some (bs', accepted @ [h] @ unsuspended) }) (bs, acc) hs = Some (bs', acc @ new) \<and>
    suspender_ok (K \<union> reference ` set new) bs' \<and> causal_order (K - reference ` set hs) new \<and>
    suspended_refs bs' \<union> reference ` set new = suspended_refs bs \<union> reference ` set hs \<and> set hs \<subseteq> set new \<and>
    set new \<subseteq> set hs \<union> held_headers bs \<and> held_headers bs' \<subseteq> held_headers bs \<and> bsu_context bs' = bsu_context bs"
  using assms
proof (induction hs arbitrary: K bs acc V)
  case Nil
  then show ?case by (intro exI [of _ bs] exI [of _ "[]"]) (simp add: pending_done)
next
  case (Cons h hs)
  have "set [reference h] \<union> reference ` set hs = reference ` set (h # hs)" by simp
  with unsuspend_loop_run [of K "[reference h]" "reference ` set hs" bs "[]"] Cons.prems(1,2) obtain bs1 n1 where
    1: "unsuspend_loop bs [reference h] [] = Some (bs1, n1)" "pending (K \<union> reference ` set n1) (reference ` set hs) bs1"
      "released K (reference ` set hs) bs bs1 n1" by auto
  have n1: "causal_order (K - reference ` set hs) n1" "reference ` set n1 \<inter> K = {}" "bsu_context bs1 = bsu_context bs"
    "suspended_refs bs = suspended_refs bs1 \<union> reference ` set n1" "set n1 \<subseteq> held_headers bs" "held_headers bs1 \<subseteq> held_headers bs"
    using 1(3) by (simp_all add: released_def)
  have sub: "reference ` set (h # hs) \<subseteq> K" using Cons.prems(1) by (simp add: pending_def)
  have eq: "K - reference ` set hs = insert (reference h) (K - reference ` set (h # hs))" using sub Cons.prems(2) by auto
  have eq1: "K \<union> reference ` set n1 - reference ` set hs = K - reference ` set hs \<union> reference ` set n1" using sub n1(2) by auto
  have "V \<subseteq> K \<union> reference ` set n1 - reference ` set hs" using Cons.prems(4) unfolding eq1 by auto
  from Cons.IH [OF 1(2) _ _ this, of "acc @ [h] @ n1"] Cons.prems(2,3) obtain bs2 n2 where
    2: "foldM (\<lambda>(bs, accepted) h. do {
         (bs', unsuspended) \<leftarrow> recursively_unsuspend_dependents bs (reference h);
         Some (bs', accepted @ [h] @ unsuspended) }) (bs1, acc @ [h] @ n1) hs = Some (bs2, (acc @ [h] @ n1) @ n2)"
      "suspender_ok (K \<union> reference ` set n1 \<union> reference ` set n2) bs2"
      "causal_order (K - reference ` set hs \<union> reference ` set n1) n2"
      "suspended_refs bs2 \<union> reference ` set n2 = suspended_refs bs1 \<union> reference ` set hs" "set hs \<subseteq> set n2"
      "set n2 \<subseteq> set hs \<union> held_headers bs1" "held_headers bs2 \<subseteq> held_headers bs1" "bsu_context bs2 = bsu_context bs1"
    unfolding eq1 by auto
  have "causal_order (K - reference ` set (h # hs)) ([h] @ n1 @ n2)"
    using Cons.prems(3,4) n1(1) 2(3) eq by (auto simp: causal_order_append)
  moreover have "suspender_ok (K \<union> reference ` set ([h] @ n1 @ n2)) bs2"
    using 2(2) sub by (simp add: insert_absorb image_Un Un_assoc)
  moreover have "suspended_refs bs2 \<union> reference ` set ([h] @ n1 @ n2) = suspended_refs bs \<union> reference ` set (h # hs)"
    using 2(4) n1(4) by auto
  ultimately show ?case using 1(1) 2(1,5-8) n1(3,5,6)
    by (intro exI [of _ bs2] exI [of _ "[h] @ n1 @ n2"]) (auto simp: recursively_unsuspend_dependents_def)
qed

lemma resolving_start: "suspender_ok K bs \<Longrightarrow> I \<inter> K = {} \<Longrightarrow> resolving K I {} {} bs"
  by (auto simp: suspender_ok_def resolving_def fetch_ok_def)

lemma resolving_done: "resolving K I I F bs \<Longrightarrow> pending (K \<union> F) F bs"
proof -
  assume r: "resolving K I I F bs"
  have "fetch_ok {} (K \<union> F) bs"
  proof (unfold fetch_ok_def, intro allI impI)
    fix m
    show "bm_get (headers_to_fetch bs) m \<noteq> None \<longleftrightarrow> waiting bs m \<noteq> {} \<and> m \<notin> suspended_refs bs \<and> m \<notin> K \<union> F"
    proof (cases "m \<in> I")
      case True
      then have "bm_get (headers_to_fetch bs) m = None" "m \<in> F \<union> suspended_refs bs" using r by (auto simp: resolving_def)
      then show ?thesis by auto
    next
      case False
      then show ?thesis using r by (simp add: resolving_def fetch_ok_def)
    qed
  qed
  with r show ?thesis by (simp add: resolving_def pending_def)
qed

lemma accept_or_suspend_run:
  assumes ok: "suspender_ok K bs" and new: "distinct (map (reference \<circ> fst) hm)"
    "(reference \<circ> fst) ` set hm \<inter> (K \<union> suspended_refs bs) = {}"
    and e: "\<forall>e \<in> set hm. entry_ok (ctx_committee (bsu_context bs)) K e"
  shows "\<exists>bs' accepted tf. accept_or_suspend_received_headers bs hm = Some (bs', accepted, tf) \<and>
    suspender_ok (K \<union> reference ` set accepted) bs' \<and> causal_order K accepted \<and> bsu_context bs' = bsu_context bs \<and>
    suspended_refs bs' \<union> reference ` set accepted = suspended_refs bs \<union> (reference \<circ> fst) ` set hm \<and>
    set accepted \<union> held_headers bs' \<subseteq> fst ` set hm \<union> held_headers bs \<and>
    set tf = {a. a \<notin> (reference \<circ> fst) ` set hm \<and> a \<notin> suspended_refs bs \<and> (\<exists>e \<in> set hm. a \<in> set (snd e))}"
proof -
  let ?I = "(reference \<circ> fst) ` set hm" and ?F = "(reference \<circ> fst) ` {e \<in> set hm. snd e = []}"
  let ?res = "map fst (filter (\<lambda>e. snd e = []) hm)"
  have I: "?I \<inter> K = {}" "?I \<subseteq> ?I - {} - suspended_refs bs" using new(2) by auto
  from resolve_headers_run [OF resolving_start [OF ok I(1)] new(1) I(2) e, of "[]" "[]"] obtain bs1 tf where
    1: "resolve_or_suspend_headers bs hm = Some (bs1, ?res, tf)" "resolving K ?I ?I ?F bs1"
      "suspended_refs bs1 = suspended_refs bs \<union> (reference \<circ> fst) ` {e \<in> set hm. snd e \<noteq> []}"
      "held_headers bs1 \<subseteq> fst ` set hm \<union> held_headers bs" "bsu_context bs1 = bsu_context bs"
      "set tf = {a. a \<notin> ?I \<and> a \<notin> suspended_refs bs \<and> (\<exists>e \<in> set hm. a \<in> set (snd e))}"
    unfolding resolve_or_suspend_headers_def by auto
  have F: "reference ` set ?res = ?F" by (auto simp: image_image)
  have "distinct (map reference ?res)" using new(1) distinct_map_filter [of "reference \<circ> fst" hm] by (simp add: comp_def)
  moreover have "\<forall>h \<in> set ?res. \<exists>ancs. ancestors h = Some ancs \<and> set ancs \<subseteq> K" using e by (fastforce simp: entry_ok_def)
  moreover have K: "K \<union> ?F - reference ` set ?res = K" "pending (K \<union> ?F) (reference ` set ?res) bs1"
    using I(1) resolving_done [OF 1(2)] unfolding F by blast+
  ultimately obtain bs2 accepted where
    2: "foldM (\<lambda>(bs, accepted) h. do {
         (bs', unsuspended) \<leftarrow> recursively_unsuspend_dependents bs (reference h);
         Some (bs', accepted @ [h] @ unsuspended) }) (bs1, []) ?res = Some (bs2, accepted)"
      "suspender_ok (K \<union> ?F \<union> reference ` set accepted) bs2" "causal_order K accepted"
      "suspended_refs bs2 \<union> reference ` set accepted = suspended_refs bs1 \<union> ?F" "set ?res \<subseteq> set accepted"
      "set accepted \<subseteq> set ?res \<union> held_headers bs1" "held_headers bs2 \<subseteq> held_headers bs1" "bsu_context bs2 = bsu_context bs1"
    using release_batch [OF K(2), of K "[]"] unfolding F by (auto simp: K(1) [unfolded F])
  have "K \<union> ?F \<union> reference ` set accepted = K \<union> reference ` set accepted" using 2(5) F by blast
  moreover have "suspended_refs bs2 \<union> reference ` set accepted = suspended_refs bs \<union> ?I" unfolding 2(4) 1(3) by auto
  moreover have "set accepted \<union> held_headers bs2 \<subseteq> fst ` set hm \<union> held_headers bs" using 2(6,7) 1(4) by auto
  ultimately show ?thesis using 1(1,5,6) 2(1-3,8)
    by (intro exI [of _ bs2] exI [of _ accepted] exI [of _ tf]) (simp add: accept_or_suspend_received_headers_def)
qed

end
