(* ===== verification/Base_Committer.thy ===== *)
theory Base_Committer
  imports Dag_Traversal
begin

section \<open>The base committer\<close>

text \<open>
  \<open>crates/starfish/core/src/base_committer.rs\<close>: the direct and the indirect decision rule for
  the leader slot of a wave. The committer reads the DAG state and calls
  \<open>LeaderSchedule::elect_leader\<close>, which is the argument \<open>elect\<close> (round, offset). The
  recursion of \<open>find_supported_block\<close> is bounded by fuel, one more than the round of the block
  it starts from; on a causally complete DAG that is enough (\<open>find_supported_block_terminates\<close>).
\<close>

record base_committer_options =
  leader_offset :: nat
  round_offset :: round

subsection \<open>Waves\<close>

definition leader_round :: "base_committer_options \<Rightarrow> nat \<Rightarrow> round" where
  "leader_round opts wave = wave * WAVE_LENGTH + round_offset opts"

definition certifying_round :: "base_committer_options \<Rightarrow> nat \<Rightarrow> round" where
  "certifying_round opts wave = wave * WAVE_LENGTH + WAVE_LENGTH - 1 + round_offset opts"

definition wave_number :: "base_committer_options \<Rightarrow> round \<Rightarrow> nat" where
  "wave_number opts r = (r - round_offset opts) div WAVE_LENGTH"

definition bc_elect_leader ::
  "(round \<Rightarrow> nat \<Rightarrow> authority_index) \<Rightarrow> base_committer_options \<Rightarrow> round \<Rightarrow> slot option" where
  "bc_elect_leader elect opts r =
     (if leader_round opts (wave_number opts r) \<noteq> r then None
      else Some (Slot r (elect r (leader_offset opts))))"

subsection \<open>Votes and certificates\<close>

text \<open>The loops with an early return: the first \<open>Some\<close> answer ends the loop.\<close>

primrec find_mapM :: "('a \<Rightarrow> 'b option option) \<Rightarrow> 'a list \<Rightarrow> 'b option option" where
  "find_mapM f [] = Some None"
| "find_mapM f (x # xs) = do { y \<leftarrow> f x; case y of Some z \<Rightarrow> Some (Some z) | None \<Rightarrow> find_mapM f xs }"

primrec find_supported ::
  "nat \<Rightarrow> (block_ref \<Rightarrow> verified_block_header option) \<Rightarrow> slot \<Rightarrow> verified_block_header \<Rightarrow> block_ref option option"
where
  "find_supported 0 get leader_slot from = None"
| "find_supported (Suc n) get leader_slot from =
     (if bh_round from < slot_round leader_slot then Some None
      else do {
        ancs \<leftarrow> ancestors from;
        find_mapM (\<lambda>a.
          if slot_of a = leader_slot then Some (Some a)
          else if br_round a \<le> slot_round leader_slot then Some None
          else do { h \<leftarrow> get a; find_supported n get leader_slot h }) ancs })"

definition find_supported_block ::
  "(block_ref \<Rightarrow> verified_block_header option) \<Rightarrow> slot \<Rightarrow> verified_block_header \<Rightarrow> block_ref option option"
where
  "find_supported_block get leader_slot from = find_supported (Suc (bh_round from)) get leader_slot from"

definition is_vote ::
  "(block_ref \<Rightarrow> verified_block_header option) \<Rightarrow> verified_block_header \<Rightarrow> verified_block_header \<Rightarrow> bool option"
where
  "is_vote get potential_vote leader_block = do {
     s \<leftarrow> find_supported_block get (slot_of (reference leader_block)) potential_vote;
     Some (s = Some (reference leader_block)) }"

primrec certificate_loop ::
  "(block_ref \<Rightarrow> verified_block_header option) \<Rightarrow> committee \<Rightarrow> verified_block_header \<Rightarrow> block_ref list
     \<Rightarrow> stake_aggregator \<Rightarrow> (block_ref \<Rightarrow> bool option) \<Rightarrow> (bool \<times> (block_ref \<Rightarrow> bool option)) option"
where
  "certificate_loop get c leader_block [] agg all_votes = Some (False, all_votes)"
| "certificate_loop get c leader_block (r # rs) agg all_votes = do {
     (vote, all_votes') \<leftarrow>
       (case all_votes r of
          Some b \<Rightarrow> Some (b, all_votes)
        | None \<Rightarrow> do {
            potential_vote \<leftarrow> get r;
            b \<leftarrow> is_vote get potential_vote leader_block;
            Some (b, all_votes(r \<mapsto> b)) });
     if vote then do {
       (reached, agg') \<leftarrow> sa_add QuorumThreshold agg (br_author r) c;
       if reached then Some (True, all_votes')
       else certificate_loop get c leader_block rs agg' all_votes' }
     else certificate_loop get c leader_block rs agg all_votes' }"

definition is_certificate ::
  "(block_ref \<Rightarrow> verified_block_header option) \<Rightarrow> committee \<Rightarrow> verified_block_header \<Rightarrow> verified_block_header
     \<Rightarrow> (block_ref \<Rightarrow> bool option) \<Rightarrow> (bool \<times> (block_ref \<Rightarrow> bool option)) option"
where
  "is_certificate get c potential_certificate leader_block all_votes = do {
     ancs \<leftarrow> ancestors potential_certificate;
     certificate_loop get c leader_block ancs sa_new all_votes }"

subsection \<open>Decisions\<close>

primrec blame_loop ::
  "committee \<Rightarrow> authority_index \<Rightarrow> verified_block_header list \<Rightarrow> stake_aggregator \<Rightarrow> bool option" where
  "blame_loop c leader [] agg = Some False"
| "blame_loop c leader (v # vs) agg = do {
     ancs \<leftarrow> ancestors v;
     if list_all (\<lambda>a. br_author a \<noteq> leader) ancs then do {
       (reached, agg') \<leftarrow> sa_add QuorumThreshold agg (br_author (reference v)) c;
       if reached then Some True else blame_loop c leader vs agg' }
     else blame_loop c leader vs agg }"

definition enough_leader_blame :: "dag_state \<Rightarrow> round \<Rightarrow> authority_index \<Rightarrow> bool option" where
  "enough_leader_blame ds voting_round leader = do {
     voting_blocks \<leftarrow> get_uncommitted_block_headers_at_round ds voting_round;
     blame_loop (ds_committee ds) leader voting_blocks sa_new }"

primrec support_loop ::
  "(block_ref \<Rightarrow> verified_block_header option) \<Rightarrow> committee \<Rightarrow> verified_block_header \<Rightarrow> verified_block_header list
     \<Rightarrow> stake_aggregator \<Rightarrow> (block_ref \<Rightarrow> bool option) \<Rightarrow> bool option"
where
  "support_loop get c leader_block [] agg all_votes = Some False"
| "support_loop get c leader_block (d # decision_blocks) agg all_votes = do {
     (cert, all_votes') \<leftarrow> is_certificate get c d leader_block all_votes;
     if cert then do {
       (reached, agg') \<leftarrow> sa_add QuorumThreshold agg (br_author (reference d)) c;
       if reached then Some True
       else support_loop get c leader_block decision_blocks agg' all_votes' }
     else support_loop get c leader_block decision_blocks agg all_votes' }"

definition enough_leader_support :: "dag_state \<Rightarrow> round \<Rightarrow> verified_block_header \<Rightarrow> bool option" where
  "enough_leader_support ds certifying leader_block = do {
     decision_blocks \<leftarrow> get_uncommitted_block_headers_at_round ds certifying;
     stakes \<leftarrow> mapM (\<lambda>b. stake_at (ds_committee ds) (bh_author b)) decision_blocks;
     if \<not> reached_quorum (ds_committee ds) (wrap_u64 (sum_list stakes)) then Some False
     else support_loop (get_verified_block_header ds) (ds_committee ds) leader_block
            decision_blocks sa_new Map.empty }"

definition try_direct_decide :: "dag_state \<Rightarrow> base_committer_options \<Rightarrow> slot \<Rightarrow> leader_status option" where
  "try_direct_decide ds opts leader = do {
     let voting_round = slot_round leader + 1;
     blamed \<leftarrow> enough_leader_blame ds voting_round (slot_authority leader);
     if blamed then Some (Skip leader)
     else do {
       let wave = wave_number opts (slot_round leader);
       let certifying = certifying_round opts wave;
       supported \<leftarrow> filterM (enough_leader_support ds certifying)
         (get_uncommitted_block_headers_at_slot ds leader);
       assert_that (length supported \<le> 1);
       Some (case supported of [] \<Rightarrow> Undecided leader | b # _ \<Rightarrow> Commit b) } }"

primrec any_certificate ::
  "(block_ref \<Rightarrow> verified_block_header option) \<Rightarrow> committee \<Rightarrow> verified_block_header \<Rightarrow> verified_block_header list
     \<Rightarrow> (block_ref \<Rightarrow> bool option) \<Rightarrow> bool option"
where
  "any_certificate get c leader_block [] all_votes = Some False"
| "any_certificate get c leader_block (p # ps) all_votes = do {
     (cert, all_votes') \<leftarrow> is_certificate get c p leader_block all_votes;
     if cert then Some True else any_certificate get c leader_block ps all_votes' }"

definition decide_leader_from_anchor ::
  "dag_state \<Rightarrow> base_committer_options \<Rightarrow> verified_block_header \<Rightarrow> slot \<Rightarrow> leader_status option" where
  "decide_leader_from_anchor ds opts anchor leader_slot = do {
     let leader_blocks = get_uncommitted_block_headers_at_slot ds leader_slot;
     let wave = wave_number opts (slot_round leader_slot);
     let certifying = certifying_round opts wave;
     potential_certificates \<leftarrow> ancestors_at_round ds anchor certifying;
     certified \<leftarrow> filterM (\<lambda>l. any_certificate (get_verified_block_header ds) (ds_committee ds) l
                                potential_certificates Map.empty) leader_blocks;
     assert_that (length certified \<le> 1);
     Some (case certified of [] \<Rightarrow> Skip leader_slot | b # _ \<Rightarrow> Commit b) }"

primrec find_anchor :: "leader_status list \<Rightarrow> verified_block_header option" where
  "find_anchor [] = None"
| "find_anchor (x # xs) =
     (case x of Commit b \<Rightarrow> Some b | Skip _ \<Rightarrow> find_anchor xs | Undecided _ \<Rightarrow> None)"

definition try_indirect_decide ::
  "dag_state \<Rightarrow> base_committer_options \<Rightarrow> slot \<Rightarrow> leader_status list \<Rightarrow> leader_status option" where
  "try_indirect_decide ds opts leader_slot leaders =
     (case find_anchor (filter (\<lambda>x. slot_round leader_slot + WAVE_LENGTH \<le> ls_round x) leaders) of
        Some anchor \<Rightarrow> decide_leader_from_anchor ds opts anchor leader_slot
      | None \<Rightarrow> Some (Undecided leader_slot))"

end
