(* ===== verification/Commit_Rule.thy ===== *)
theory Commit_Rule
  imports Base_Committer
begin

section \<open>Votes, certificates and the commit rule\<close>

text \<open>
  What the loops of \<open>base_committer.rs\<close> compute, stated on the set of headers they read: a block
  votes for the first block of the leader slot among its ancestors, and a block certifies a
  leader when the votes among its ancestors carry a quorum. On a DAG in which less than a
  third of the stake equivocates, certificates of one slot agree, blamed leaders have no
  certificate, and every block three rounds later has a certificate of a directly committed
  leader in its history.
\<close>

definition votes_for :: "(block_ref \<Rightarrow> verified_block_header option) \<Rightarrow> block_ref \<Rightarrow> block_ref \<Rightarrow> bool" where
  "votes_for get a l =
     (\<exists>h ancs. get a = Some h \<and> ancestors h = Some ancs \<and> find (\<lambda>x. slot_of x = slot_of l) ancs = Some l)"

definition voters :: "(block_ref \<Rightarrow> verified_block_header option) \<Rightarrow> block_ref list \<Rightarrow> block_ref \<Rightarrow> authority_index set" where
  "voters get ancs l = br_author ` {a \<in> set ancs. votes_for get a l}"

definition certifies ::
  "(block_ref \<Rightarrow> verified_block_header option) \<Rightarrow> committee \<Rightarrow> block_ref \<Rightarrow> block_ref \<Rightarrow> bool" where
  "certifies get c p l =
     (\<exists>h ancs. get p = Some h \<and> ancestors h = Some ancs \<and> reached_quorum c (stake_sum c (voters get ancs l)))"

text \<open>A causally complete set of headers by members of the committee.\<close>

definition member_dag :: "committee \<Rightarrow> (block_ref \<Rightarrow> verified_block_header option) \<Rightarrow> bool" where
  "member_dag c get = (committee_ok c \<and> wf_dag get \<and> (\<forall>r h. get r = Some h \<longrightarrow> br_author r \<in> members c))"

lemma member_dagD:
  "member_dag c get \<Longrightarrow> committee_ok c" "member_dag c get \<Longrightarrow> wf_dag get"
  "member_dag c get \<Longrightarrow> get r = Some h \<Longrightarrow> br_author r \<in> members c"
  by (auto simp: member_dag_def)

subsection \<open>The supported block\<close>

lemma find_mapM_find:
  "(\<And>a. a \<in> set as \<Longrightarrow> f a = Some (if P a then Some a else None)) \<Longrightarrow> find_mapM f as = Some (find P as)"
  by (induction as) auto

lemma find_mapM_total:
  "(\<And>a. a \<in> set as \<Longrightarrow> \<exists>s. f a = Some s) \<Longrightarrow> \<exists>s. find_mapM f as = Some s"
proof (induction as)
  case (Cons a as)
  obtain s where s: "f a = Some s" using Cons.prems [of a] by auto
  have "\<exists>s. find_mapM f as = Some s" by (rule Cons.IH) (rule Cons.prems, simp)
  with s show ?case by (cases s) auto
qed simp

lemma find_mapM_Some:
  "find_mapM f as = Some (Some z) \<Longrightarrow> \<exists>a \<in> set as. f a = Some (Some z)"
  by (induction as) (auto simp: Option.bind_eq_Some_conv split: option.splits)

lemma find_supported_total:
  assumes wf: "wf_dag get"
  shows "get (reference v) = Some v \<Longrightarrow> bh_round v < n \<Longrightarrow> \<exists>s. find_supported n get sl v = Some s"
proof (induction n arbitrary: v)
  case (Suc n)
  from wf_dag_ancestors [OF wf Suc.prems(1)] obtain ancs where ancs: "ancestors v = Some ancs"
    "\<forall>a \<in> set ancs. br_round a < bh_round v" "\<forall>a \<in> set ancs. get a \<noteq> None" by auto
  have "\<exists>s. (if slot_of a = sl then Some (Some a) else if br_round a \<le> slot_round sl then Some None
      else do { h \<leftarrow> get a; find_supported n get sl h }) = Some s" if a: "a \<in> set ancs" for a
  proof -
    obtain h where h: "get a = Some h" using a ancs(3) by blast
    then have ref: "reference h = a" by (rule wf_dag_reference [OF wf])
    moreover have "bh_round h < n" using a ancs(2) Suc.prems(2) ref by fastforce
    ultimately have "\<exists>s. find_supported n get sl h = Some s" using Suc.IH h by simp
    with h show ?thesis by auto
  qed
  then have "\<exists>s. find_mapM (\<lambda>a. if slot_of a = sl then Some (Some a) else if br_round a \<le> slot_round sl then Some None
      else do { h \<leftarrow> get a; find_supported n get sl h }) ancs = Some s" by (rule find_mapM_total)
  with ancs(1) show ?case by simp
qed simp

lemma find_supported_sound:
  assumes wf: "wf_dag get"
  shows "get (reference v) = Some v \<Longrightarrow> find_supported n get sl v = Some (Some b) \<Longrightarrow>
    slot_of b = sl \<and> reaches get (reference v) b"
proof (induction n arbitrary: v)
  case (Suc n)
  then obtain ancs a where a: "ancestors v = Some ancs" "a \<in> set ancs" and
    fa: "(if slot_of a = sl then Some (Some a) else if br_round a \<le> slot_round sl then Some None
      else do { h \<leftarrow> get a; find_supported n get sl h }) = Some (Some b)"
    by (auto simp: Option.bind_eq_Some_conv split: if_splits dest!: find_mapM_Some)
  have ra: "reaches get (reference v) a" using Suc.prems(1) a by (blast intro: reaches.intros)
  show ?case
  proof (cases "slot_of a = sl")
    case True
    with fa ra show ?thesis by simp
  next
    case False
    with fa obtain h where h: "get a = Some h" "find_supported n get sl h = Some (Some b)"
      by (auto simp: Option.bind_eq_Some_conv split: if_splits)
    moreover have "reference h = a" using wf_dag_reference [OF wf h(1)] .
    ultimately have "slot_of b = sl \<and> reaches get a b" using Suc.IH [of h] by simp
    with ra show ?thesis using reaches_trans by blast
  qed
qed simp

text \<open>At most one round above the slot, the answer is the first ancestor in the slot.\<close>

lemma find_supported_block_direct:
  assumes wf: "wf_dag get" and v: "get (reference v) = Some v" "ancestors v = Some ancs"
    and r: "bh_round v \<le> slot_round sl + 1"
  shows "find_supported_block get sl v = Some (find (\<lambda>a. slot_of a = sl) ancs)"
proof -
  have anc: "br_round a < bh_round v" if "a \<in> set ancs" for a
    using wf_dag_ancestor [OF wf v that] by simp
  show ?thesis
  proof (cases "bh_round v < slot_round sl")
    case True
    then have "\<forall>a \<in> set ancs. slot_of a \<noteq> sl" using anc by (force simp: slot_of_def)
    then have "find (\<lambda>a. slot_of a = sl) ancs = None" by (simp add: find_None_iff)
    with True show ?thesis by (simp add: find_supported_block_def)
  next
    case False
    have "find_mapM (\<lambda>a. if slot_of a = sl then Some (Some a) else if br_round a \<le> slot_round sl then Some None
          else do { h \<leftarrow> get a; find_supported (bh_round v) get sl h }) ancs = Some (find (\<lambda>a. slot_of a = sl) ancs)"
      using anc r by (intro find_mapM_find) fastforce
    with False v(2) show ?thesis by (simp add: find_supported_block_def)
  qed
qed

lemma is_vote_eq:
  assumes "wf_dag get" "get a = Some v" "br_round a \<le> br_round (reference l) + 1"
  shows "is_vote get v l = Some (votes_for get a (reference l))"
proof -
  have ref: "reference v = a" using wf_dag_reference assms(1,2) by blast
  from wf_dag_ancestors [OF assms(1,2)] obtain ancs where ancs: "ancestors v = Some ancs" by blast
  have "find_supported_block get (slot_of (reference l)) v = Some (find (\<lambda>a. slot_of a = slot_of (reference l)) ancs)"
    using assms ref by (intro find_supported_block_direct [OF assms(1) _ ancs]) (auto simp: slot_of_def)
  then show ?thesis using assms(2) ancs by (simp add: is_vote_def votes_for_def)
qed

subsection \<open>Certificates\<close>

definition cache_ok ::
  "(block_ref \<Rightarrow> verified_block_header option) \<Rightarrow> block_ref \<Rightarrow> (block_ref \<Rightarrow> bool option) \<Rightarrow> bool" where
  "cache_ok get l cache = (\<forall>r b. cache r = Some b \<longrightarrow> b = votes_for get r l)"

lemma cache_ok_empty [simp]: "cache_ok get l Map.empty"
  by (simp add: cache_ok_def)

lemma voters_Cons: "voters get (a # as) l = (if votes_for get a l then {br_author a} else {}) \<union> voters get as l"
  by (auto simp: voters_def)

lemma voters_members:
  "member_dag c get \<Longrightarrow> \<forall>a \<in> set ancs. get a \<noteq> None \<Longrightarrow> voters get ancs l \<subseteq> members c"
  by (auto simp: voters_def member_dag_def)

lemma certificate_loop_spec:
  assumes dag: "member_dag c get"
  shows "\<forall>a \<in> set ancs. get a \<noteq> None \<and> br_round a \<le> br_round (reference l) + 1 \<Longrightarrow> sa_ok c agg \<Longrightarrow>
    \<not> reached_quorum c (sa_stake agg) \<Longrightarrow> cache_ok get (reference l) cache \<Longrightarrow>
    \<exists>cache'. certificate_loop get c l ancs agg cache =
      Some (reached_quorum c (stake_sum c (set (sa_votes agg) \<union> voters get ancs (reference l))), cache') \<and>
      cache_ok get (reference l) cache'"
proof (induction ancs arbitrary: agg cache)
  case Nil
  then show ?case by (auto simp: voters_def sa_ok_def)
next
  case (Cons a ancs)
  let ?l = "reference l"
  obtain v where v: "get a = Some v" using Cons.prems(1) by auto
  have am: "br_author a \<in> members c" using member_dagD(3) [OF dag v] .
  have vote: "is_vote get v l = Some (votes_for get a ?l)"
    using Cons.prems(1) by (intro is_vote_eq [OF member_dagD(2) [OF dag] v]) simp
  obtain cache1 where cache1: "(case cache a of Some b \<Rightarrow> Some (b, cache)
      | None \<Rightarrow> do { pv \<leftarrow> get a; b \<leftarrow> is_vote get pv l; Some (b, cache(a \<mapsto> b)) }) = Some (votes_for get a ?l, cache1)"
    "cache_ok get ?l cache1"
    using Cons.prems(4) v vote by (cases "cache a") (auto simp: cache_ok_def)
  have prems: "\<forall>a \<in> set ancs. get a \<noteq> None \<and> br_round a \<le> br_round ?l + 1" using Cons.prems(1) by simp
  show ?case
  proof (cases "votes_for get a ?l")
    case False
    from Cons.IH [OF prems Cons.prems(2,3) cache1(2)] cache1(1) False show ?thesis
      by (simp add: voters_Cons)
  next
    case True
    from sa_add_ok [OF member_dagD(1) [OF dag] Cons.prems(2) am, of QuorumThreshold] obtain agg1 where
      agg1: "sa_add QuorumThreshold agg (br_author a) c =
          Some (reached_quorum c (stake_sum c (insert (br_author a) (set (sa_votes agg)))), agg1)"
        "sa_ok c agg1" "set (sa_votes agg1) = insert (br_author a) (set (sa_votes agg))"
      by auto
    show ?thesis
    proof (cases "reached_quorum c (stake_sum c (insert (br_author a) (set (sa_votes agg))))")
      case quorum: True
      have "stake_sum c (insert (br_author a) (set (sa_votes agg)))
          \<le> stake_sum c (set (sa_votes agg) \<union> voters get (a # ancs) ?l)"
        using True Cons.prems(1,2) am voters_members [OF dag, of "a # ancs" ?l]
        by (intro stake_sum_mono) (auto simp: voters_Cons sa_ok_def)
      with quorum have "reached_quorum c (stake_sum c (set (sa_votes agg) \<union> voters get (a # ancs) ?l))"
        by (simp add: reached_quorum_def)
      with quorum True cache1 agg1(1) show ?thesis by simp
    next
      case no: False
      then have "\<not> reached_quorum c (sa_stake agg1)" using agg1(2,3) by (simp add: sa_ok_def)
      from Cons.IH [OF prems agg1(2) this cache1(2)] no True cache1(1) agg1(1,3) show ?thesis
        by (simp add: voters_Cons)
    qed
  qed
qed

lemma is_certificate_spec:
  assumes dag: "member_dag c get" and p: "get p = Some h" "br_round p \<le> br_round (reference l) + 2"
    and cache: "cache_ok get (reference l) cache"
  shows "\<exists>cache'. is_certificate get c h l cache = Some (certifies get c p (reference l), cache') \<and>
    cache_ok get (reference l) cache'"
proof -
  from wf_dag_ancestors [OF member_dagD(2) [OF dag] p(1)] obtain ancs where ancs: "ancestors h = Some ancs"
    "\<forall>a \<in> set ancs. br_round a < br_round p" "\<forall>a \<in> set ancs. get a \<noteq> None" by blast
  have "\<forall>a \<in> set ancs. get a \<noteq> None \<and> br_round a \<le> br_round (reference l) + 1" using ancs p(2) by fastforce
  moreover have "\<not> reached_quorum c (sa_stake sa_new)"
    using quorum_positive [OF member_dagD(1) [OF dag]] by (simp add: reached_quorum_def)
  ultimately obtain cache' where "certificate_loop get c l ancs sa_new cache =
      Some (reached_quorum c (stake_sum c (voters get ancs (reference l))), cache')" "cache_ok get (reference l) cache'"
    using certificate_loop_spec [OF dag, of ancs l sa_new cache] cache by auto
  with ancs(1) p(1) show ?thesis by (simp add: is_certificate_def certifies_def)
qed

subsection \<open>Byzantine faults\<close>

text \<open>
  All headers that any correct validator has accepted, in an epoch in which the members
  outside \<open>honest\<close> have less stake than the validity threshold, honest members sign one block
  per round, and every block has a quorum of parents (which the block verifier checks).
\<close>

definition bft_dag ::
  "committee \<Rightarrow> authority_index set \<Rightarrow> (block_ref \<Rightarrow> verified_block_header option) \<Rightarrow> bool" where
  "bft_dag c honest G =
     (member_dag c G \<and> honest \<subseteq> members c \<and> stake_sum c (members c - honest) < validity_threshold c \<and>
      (\<forall>r r'. G r \<noteq> None \<and> G r' \<noteq> None \<and> br_author r = br_author r' \<and> br_author r \<in> honest \<and>
         br_round r = br_round r' \<longrightarrow> r = r') \<and>
      (\<forall>r h ancs. G r = Some h \<and> 0 < br_round r \<and> ancestors h = Some ancs \<longrightarrow>
         reached_quorum c (stake_sum c (br_author ` {a \<in> set ancs. br_round a + 1 = br_round r}))))"

lemma bft_dagD:
  assumes "bft_dag c honest G"
  shows bft_member_dag: "member_dag c G"
    and bft_wf: "wf_dag G" and bft_committee: "committee_ok c"
    and bft_no_equivocation: "\<And>r r'. G r \<noteq> None \<Longrightarrow> G r' \<noteq> None \<Longrightarrow> br_author r = br_author r' \<Longrightarrow>
      br_author r \<in> honest \<Longrightarrow> br_round r = br_round r' \<Longrightarrow> r = r'"
    and bft_parents: "\<And>r h ancs. G r = Some h \<Longrightarrow> 0 < br_round r \<Longrightarrow> ancestors h = Some ancs \<Longrightarrow>
      reached_quorum c (stake_sum c (br_author ` {a \<in> set ancs. br_round a + 1 = br_round r}))"
  using assms unfolding bft_dag_def by (blast intro: member_dagD)+

text \<open>Two sets of blocks of one round whose authors carry quorums share a block of an honest author.\<close>

lemma quorums_share_block:
  assumes bft: "bft_dag c honest G"
    and A: "\<And>a. a \<in> A \<Longrightarrow> G a \<noteq> None \<and> br_round a = r" "reached_quorum c (stake_sum c (br_author ` A))"
    and B: "\<And>b. b \<in> B \<Longrightarrow> G b \<noteq> None \<and> br_round b = r" "reached_quorum c (stake_sum c (br_author ` B))"
  shows "\<exists>x. x \<in> A \<and> x \<in> B"
proof -
  have mem: "br_author ` A \<subseteq> members c" "br_author ` B \<subseteq> members c"
    using A(1) B(1) member_dagD(3) [OF bft_member_dag [OF bft]] by blast+
  have "stake_sum c (members c - honest) < validity_threshold c" using bft by (simp add: bft_dag_def)
  then obtain i where i: "i \<in> br_author ` A" "i \<in> br_author ` B" "i \<notin> members c - honest"
    using committee_share_honest [OF bft_committee [OF bft] mem, of "members c - honest"] A(2) B(2)
    by (auto simp: reached_quorum_def)
  then obtain a b where ab: "a \<in> A" "b \<in> B" "br_author a = i" "br_author b = i" by auto
  then have "i \<in> honest" using i(3) mem(1) by auto
  then have "a = b" using bft_no_equivocation [OF bft, of a b] ab A(1) B(1) by metis
  with ab show ?thesis by blast
qed

lemma votes_for_round:
  assumes "wf_dag get" "votes_for get a l"
  shows "br_round l < br_round a" "reaches get a l"
proof -
  from assms(2) obtain h ancs where h: "get a = Some h" "ancestors h = Some ancs"
    "find (\<lambda>x. slot_of x = slot_of l) ancs = Some l" by (auto simp: votes_for_def)
  then have "l \<in> set ancs" by (auto simp: find_Some_iff)
  with h assms(1) show "br_round l < br_round a" "reaches get a l"
    by (auto dest: wf_dag_ancestor intro: reaches.intros)
qed

lemma votes_for_unique:
  assumes "votes_for get a l" "votes_for get a l'" "slot_of l = slot_of l'"
  shows "l = l'"
proof -
  from assms(1) obtain h ancs where h: "get a = Some h" "ancestors h = Some ancs"
    "find (\<lambda>x. slot_of x = slot_of l) ancs = Some l" unfolding votes_for_def by blast
  from assms(2) obtain h' ancs' where h': "get a = Some h'" "ancestors h' = Some ancs'"
    "find (\<lambda>x. slot_of x = slot_of l') ancs' = Some l'" unfolding votes_for_def by blast
  have "ancs' = ancs" using h h' by (metis option.inject)
  then have "Some l' = Some l" using h(3) h'(3) assms(3) by metis
  then show ?thesis by simp
qed

text \<open>The votes a certificate two rounds above its leader counts: blocks of the next round.\<close>

lemma certifies_votes:
  assumes dag: "member_dag c get" and cert: "certifies get c p l" and p: "br_round p \<le> br_round l + 2"
  shows "\<exists>V. (\<forall>a \<in> V. get a \<noteq> None \<and> br_round a = br_round l + 1 \<and> votes_for get a l \<and> reaches get p a) \<and>
    reached_quorum c (stake_sum c (br_author ` V))"
proof -
  from cert obtain h ancs where h: "get p = Some h" "ancestors h = Some ancs"
    "reached_quorum c (stake_sum c (voters get ancs l))" by (auto simp: certifies_def)
  let ?V = "{a \<in> set ancs. votes_for get a l}"
  have "get a \<noteq> None \<and> br_round a = br_round l + 1 \<and> votes_for get a l \<and> reaches get p a" if "a \<in> ?V" for a
  proof -
    have "br_round a < br_round p" "get a \<noteq> None" "br_round l < br_round a"
      using that wf_dag_ancestor [OF member_dagD(2) [OF dag] h(1,2)] votes_for_round [OF member_dagD(2) [OF dag]] by auto
    with that p h(1,2) show ?thesis by (auto intro: reaches.intros)
  qed
  with h(3) show ?thesis unfolding voters_def by blast
qed

lemma quorum_nonempty: "committee_ok c \<Longrightarrow> reached_quorum c (stake_sum c A) \<Longrightarrow> A \<noteq> {}"
  using quorum_positive [of c] by (auto simp: reached_quorum_def stake_sum_def)

lemma certifies_round:
  assumes dag: "member_dag c get" and cert: "certifies get c p l"
  shows "br_round l + 2 \<le> br_round p"
proof -
  from cert obtain h ancs where h: "get p = Some h" "ancestors h = Some ancs"
    "reached_quorum c (stake_sum c (voters get ancs l))" by (auto simp: certifies_def)
  from quorum_nonempty [OF member_dagD(1) [OF dag] h(3)] obtain a where "a \<in> set ancs" "votes_for get a l"
    by (auto simp: voters_def)
  with wf_dag_ancestor [OF member_dagD(2) [OF dag] h(1,2)] votes_for_round [OF member_dagD(2) [OF dag]]
  show ?thesis by fastforce
qed

text \<open>Certificates of one slot certify the same block.\<close>

lemma certificates_agree:
  assumes bft: "bft_dag c honest G" and certs: "certifies G c p l" "certifies G c p' l'"
    and rounds: "br_round p \<le> br_round l + 2" "br_round p' \<le> br_round l' + 2" and slot: "slot_of l = slot_of l'"
  shows "l = l'"
proof -
  note dag = bft_member_dag [OF bft]
  from certifies_votes [OF dag certs(1) rounds(1)] obtain V where
    V: "\<forall>a \<in> V. G a \<noteq> None \<and> br_round a = br_round l + 1 \<and> votes_for G a l"
      "reached_quorum c (stake_sum c (br_author ` V))" by blast
  from certifies_votes [OF dag certs(2) rounds(2)] obtain V' where
    V': "\<forall>a \<in> V'. G a \<noteq> None \<and> br_round a = br_round l' + 1 \<and> votes_for G a l'"
      "reached_quorum c (stake_sum c (br_author ` V'))" by blast
  have "br_round l = br_round l'" using slot by (simp add: slot_of_def)
  with quorums_share_block [OF bft, of V "br_round l + 1" V'] V V' obtain x where "x \<in> V" "x \<in> V'" by auto
  with V(1) V'(1) slot show ?thesis using votes_for_unique by blast
qed

text \<open>A quorum of blames excludes every certificate of the slot.\<close>

definition blames :: "(block_ref \<Rightarrow> verified_block_header option) \<Rightarrow> block_ref \<Rightarrow> authority_index \<Rightarrow> bool" where
  "blames get b leader =
     (\<exists>h ancs. get b = Some h \<and> ancestors h = Some ancs \<and> (\<forall>a \<in> set ancs. br_author a \<noteq> leader))"

lemma blames_exclude_certificate:
  assumes bft: "bft_dag c honest G" and B: "\<And>b. b \<in> B \<Longrightarrow> br_round b = br_round l + 1 \<and> blames G b (br_author l)"
    and quorum: "reached_quorum c (stake_sum c (br_author ` B))"
    and p: "br_round p \<le> br_round l + 2"
  shows "\<not> certifies G c p l"
proof
  assume "certifies G c p l"
  from certifies_votes [OF bft_member_dag [OF bft] this p] obtain V where
    V: "\<forall>a \<in> V. G a \<noteq> None \<and> br_round a = br_round l + 1 \<and> votes_for G a l"
      "reached_quorum c (stake_sum c (br_author ` V))" by blast
  have "\<And>b. b \<in> B \<Longrightarrow> G b \<noteq> None \<and> br_round b = br_round l + 1" using B by (auto simp: blames_def)
  with quorums_share_block [OF bft, of V "br_round l + 1" B] V quorum obtain x where x: "x \<in> V" "x \<in> B" by blast
  with V(1) have "votes_for G x l" by blast
  moreover have "blames G x (br_author l)" using x B by blast
  ultimately show False by (auto simp: votes_for_def blames_def find_Some_iff)
qed

text \<open>A leader with a quorum of certificates has one in the history of every later block.\<close>

lemma certified_in_history:
  assumes bft: "bft_dag c honest G"
    and C: "\<And>p. p \<in> C \<Longrightarrow> br_round p = br_round l + 2 \<and> certifies G c p l"
    and quorum: "reached_quorum c (stake_sum c (br_author ` C))"
  shows "G a \<noteq> None \<Longrightarrow> br_round l + 3 \<le> br_round a \<Longrightarrow> \<exists>p \<in> C. reaches G a p"
proof (induction "br_round a" arbitrary: a rule: less_induct)
  case less
  from less.prems(1) obtain h where h: "G a = Some h" by blast
  from wf_dag_ancestors [OF bft_wf [OF bft] h] obtain ancs where ancs: "ancestors h = Some ancs"
    "\<forall>x \<in> set ancs. br_round x < br_round a" "\<forall>x \<in> set ancs. G x \<noteq> None" by blast
  let ?P = "{x \<in> set ancs. br_round x + 1 = br_round a}"
  have parents: "reached_quorum c (stake_sum c (br_author ` ?P))"
    using bft_parents [OF bft h _ ancs(1)] less.prems(2) by simp
  show ?case
  proof (cases "br_round a = br_round l + 3")
    case True
    have "\<And>p. p \<in> C \<Longrightarrow> G p \<noteq> None \<and> br_round p = br_round l + 2" using C by (auto simp: certifies_def)
    with quorums_share_block [OF bft, of ?P "br_round l + 2" C] parents quorum ancs(3) True
    obtain x where "x \<in> ?P" "x \<in> C" by auto
    with h ancs(1) show ?thesis by (blast intro: reaches.intros)
  next
    case False
    obtain x where x: "x \<in> set ancs" "br_round x + 1 = br_round a"
      using quorum_nonempty [OF bft_committee [OF bft] parents] by auto
    have "\<exists>p \<in> C. reaches G x p"
      using x ancs(3) False less.prems(2) by (intro less.hyps) auto
    moreover have "reaches G a x" using h ancs(1) x(1) by (blast intro: reaches.intros)
    ultimately show ?thesis using reaches_trans by blast
  qed
qed

subsection \<open>Properties of the decision procedures\<close>

text \<open>
  C35: the recursive search of \<open>find_supported_block\<close> terminates on every causally complete
  DAG (the fuel, one more than the block's round, is never exhausted) without panicking, and
  a block it returns is at the requested slot and in the history of the block it started from.
\<close>

theorem find_supported_block_terminates:
  assumes "wf_dag get" "get (reference v) = Some v"
  shows "\<exists>s. find_supported_block get sl v = Some s \<and>
    (\<forall>b. s = Some b \<longrightarrow> slot_of b = sl \<and> reaches get (reference v) b)"
proof -
  from find_supported_total [OF assms] obtain s where s: "find_supported (Suc (bh_round v)) get sl v = Some s" by blast
  with find_supported_sound [OF assms, of "Suc (bh_round v)" sl] show ?thesis unfolding find_supported_block_def by blast
qed

text \<open>
  C22: the vote cache that \<open>is_certificate\<close> shares between calls does not change answers: with
  any cache filled by earlier calls for the same leader, and with the early return, the answer
  is the reference definition (the distinct authors among the ancestors that vote for the leader
  hold a quorum of stake), and the cache stays correct.
\<close>

theorem is_certificate_cache_irrelevant:
  assumes "member_dag c get" "get (reference h) = Some h" "bh_round h \<le> bh_round l + 2" "cache_ok get (reference l) cache"
  shows "\<exists>cache' cache''. is_certificate get c h l cache = Some (certifies get c (reference h) (reference l), cache') \<and>
    is_certificate get c h l Map.empty = Some (certifies get c (reference h) (reference l), cache'') \<and>
    cache_ok get (reference l) cache'"
  using is_certificate_spec [OF assms(1,2) _ assms(4)] is_certificate_spec [OF assms(1,2) _ cache_ok_empty] assms(3)
  by (metis reference_simps(1))

text \<open>
  C16: uniqueness of certificates. In a DAG in which honest authorities hold more than two
  thirds of the stake and do not equivocate, two blocks up to the certifying round
  (two rounds after the leader) that \<open>is_certificate\<close> accepts as certificates for leader
  blocks of the same slot certify the same leader block.
\<close>

theorem certificates_unique:
  assumes bft: "bft_dag c honest G" and "G (reference p) = Some p" "G (reference p') = Some p'"
    and "bh_round p \<le> bh_round l + 2" "bh_round p' \<le> bh_round l' + 2"
    and "map_option fst (is_certificate G c p l Map.empty) = Some True"
    and "map_option fst (is_certificate G c p' l' Map.empty) = Some True"
    and "header_slot l = header_slot l'"
  shows "reference l = reference l'"
proof -
  note dag = bft_member_dag [OF bft]
  have "certifies G c (reference p) (reference l)"
    using is_certificate_spec [OF dag assms(2) _ cache_ok_empty, of l] assms(4,6) by auto
  moreover have "certifies G c (reference p') (reference l')"
    using is_certificate_spec [OF dag assms(3) _ cache_ok_empty, of l'] assms(5,7) by auto
  ultimately show ?thesis
    using certificates_agree [OF bft, of "reference p" "reference l" "reference p'" "reference l'"] assms(4,5,8)
    by (simp add: slot_of_reference)
qed

end
