(* ===== verification/Commit_Views.thy ===== *)
theory Commit_Views
  imports Commit_Rule
begin

section \<open>Decisions of one validator\<close>

text \<open>
  The DAG state of a correct validator as a view of the set \<open>G\<close> of all accepted headers, and
  what the direct and the indirect rule of \<open>base_committer.rs\<close> decide in it, stated on \<open>G\<close>.
\<close>

definition view_ok ::
  "committee \<Rightarrow> authority_index set \<Rightarrow> (block_ref \<Rightarrow> verified_block_header option) \<Rightarrow> dag_state \<Rightarrow> bool" where
  "view_ok c honest G ds =
     (bft_dag c honest G \<and> dag_ok ds \<and> ds_committee ds = c \<and> wf_dag (header_of ds) \<and>
      (\<forall>r h. header_of ds r = Some h \<longrightarrow> G r = Some h))"

lemma view_okD:
  assumes "view_ok c honest G ds"
  shows view_bft: "bft_dag c honest G" and view_dag: "dag_ok ds" and view_committee: "ds_committee ds = c"
    and view_wf: "wf_dag (header_of ds)" and view_le: "\<And>r h. header_of ds r = Some h \<Longrightarrow> G r = Some h"
  using assms by (auto simp: view_ok_def)

lemma view_member_dag:
  assumes "view_ok c honest G ds" shows "member_dag c (header_of ds)"
  using view_okD [OF assms] bft_dagD(1,3) [of c honest G] by (auto simp: member_dag_def)

lemma view_get_eq:
  assumes "view_ok c honest G ds" "header_of ds r \<noteq> None" shows "header_of ds r = G r"
  using assms view_le [OF assms(1)] by force

subsection \<open>Votes, certificates and histories are those of all headers\<close>

lemma view_votes_for:
  assumes "view_ok c honest G ds" "header_of ds a \<noteq> None"
  shows "votes_for (header_of ds) a l = votes_for G a l"
  using view_get_eq [OF assms] by (simp add: votes_for_def)

lemma view_certifies:
  assumes v: "view_ok c honest G ds" and p: "header_of ds p \<noteq> None"
  shows "certifies (header_of ds) c p l = certifies G c p l"
proof -
  obtain h where h: "header_of ds p = Some h" using p by blast
  then have G: "G p = Some h" by (rule view_le [OF v])
  from wf_dag_ancestors [OF view_wf [OF v] h] obtain ancs where ancs: "ancestors h = Some ancs"
    "\<forall>a \<in> set ancs. header_of ds a \<noteq> None" by blast
  then have "voters (header_of ds) ancs l = voters G ancs l"
    using view_votes_for [OF v] unfolding voters_def by blast
  with G h ancs(1) show ?thesis by (simp add: certifies_def)
qed

lemma view_reaches:
  assumes v: "view_ok c honest G ds" and a: "header_of ds a \<noteq> None"
  shows "reaches (header_of ds) a b = reaches G a b"
proof
  show "reaches (header_of ds) a b \<Longrightarrow> reaches G a b"
    by (induction rule: reaches.induct) (blast intro: reaches.intros view_le [OF v])+
next
  have "reaches G a b \<Longrightarrow> reaches (header_of ds) a b \<and> header_of ds b \<noteq> None"
  proof (induction rule: reaches.induct)
    case (reaches_step x h ancs b)
    then have "header_of ds x = Some h" using view_get_eq [OF v] by metis
    with reaches_step show ?case
      using wf_dag_ancestor [OF view_wf [OF v]] by (blast intro: reaches.intros)
  qed (use a in \<open>auto intro: reaches.intros\<close>)
  then show "reaches G a b \<Longrightarrow> reaches (header_of ds) a b" by blast
qed

text \<open>What is above its author's last committed round is in memory.\<close>

lemma recent_above_committed:
  assumes ok: "dag_ok ds" and r: "last_committed_rounds ds ! br_author r < br_round r"
  shows "bm_get (recent_block_headers ds) r = header_of ds r"
proof (cases "bm_get (recent_block_headers ds) r")
  case None
  have "bm_get (ms_block_headers (ds_store ds)) r = None"
  proof (rule ccontr)
    assume "bm_get (ms_block_headers (ds_store ds)) r \<noteq> None"
    then obtain h where h: "bm_get (ms_block_headers (ds_store ds)) r = Some h" by blast
    have a: "br_author r < size_of (ds_committee ds)"
      using headers_ok_get [OF dag_ok_stored [OF ok] h] by (simp add: members_def)
    have "r \<in> fst ` set (ms_block_headers (ds_store ds))" "r \<notin> fst ` set (recent_block_headers ds)"
      using h None by (auto simp: bm_get_Some_iff [symmetric] bm_get_None_iff [symmetric])
    then have "br_round r \<le> evicted_rounds ds ! br_author r"
      using dag_ok_complete [OF ok] unfolding complete_above_def by (meson not_le_imp_less)
    moreover have "evicted_rounds ds ! br_author r \<le> last_committed_rounds ds ! br_author r - ds_cached_rounds ds"
      using dag_ok_rounds [OF ok] a unfolding rounds_ok_def by blast
    ultimately show False using r by linarith
  qed
  then show ?thesis using None r by (simp add: header_of_def GENESIS_ROUND_def)
qed (use r in \<open>simp add: header_of_def GENESIS_ROUND_def\<close>)

lemma committed_below_leader:
  "dag_ok ds \<Longrightarrow> a \<in> members (ds_committee ds) \<Longrightarrow> last_committed_rounds ds ! a \<le> last_commit_round ds"
  using dag_ok_rounds [of ds] by (simp add: rounds_ok_def members_def)

lemma recent_above_commit:
  assumes ok: "dag_ok ds" and r: "last_commit_round ds < br_round r"
  shows "bm_get (recent_block_headers ds) r = header_of ds r"
proof (cases "br_author r \<in> members (ds_committee ds)")
  case True
  with recent_above_committed [OF ok] committed_below_leader [OF ok True] r show ?thesis by (meson le_less_trans)
next
  case False
  then have "bm_get (recent_block_headers ds) r = None" "header_of ds r = None"
    using headers_ok_get [OF dag_ok_recent [OF ok], of r] header_of_cases [OF ok, of r]
    by (cases "bm_get (recent_block_headers ds) r"; cases "header_of ds r"; auto)+
  then show ?thesis by simp
qed

lemma recent_in_view: "dag_ok ds \<Longrightarrow> bm_get (recent_block_headers ds) r = Some h \<Longrightarrow> header_of ds r = Some h"
  using headers_ok_get [OF dag_ok_recent, of ds r h] by (simp add: header_of_def GENESIS_ROUND_def)

lemma at_slot_view:
  assumes "dag_ok ds" "last_commit_round ds < slot_round sl"
  shows "set (get_uncommitted_block_headers_at_slot ds sl) = {h. header_of ds (reference h) = Some h \<and> header_slot h = sl}"
  using recent_above_commit [OF assms(1)] assms(2)
  by (auto simp: at_slot_set [OF dag_ok_recent [OF assms(1)]] header_slot_def)

lemma at_slot_subset:
  assumes "dag_ok ds" "h \<in> set (get_uncommitted_block_headers_at_slot ds sl)"
  shows "header_of ds (reference h) = Some h" "header_slot h = sl"
  using assms recent_in_view [OF assms(1)] by (auto simp: at_slot_set [OF dag_ok_recent [OF assms(1)]])

lemma at_round_view:
  assumes "dag_ok ds" "last_commit_round ds < r"
  shows "\<exists>hs. get_uncommitted_block_headers_at_round ds r = Some hs \<and>
    set hs = {h. header_of ds (reference h) = Some h \<and> bh_round h = r}"
  using at_round_set [OF dag_ok_recent [OF assms(1)] assms(2)] recent_above_commit [OF assms(1)] assms(2) by force

subsection \<open>The loops with an aggregator and an early return\<close>

lemma sa_add_early:
  assumes c: "committee_ok c" and agg: "sa_ok c agg" and v: "v \<in> members c" and W: "W \<subseteq> members c"
  shows "\<exists>b agg'. sa_add QuorumThreshold agg v c = Some (b, agg') \<and>
    (b \<longrightarrow> reached_quorum c (stake_sum c (insert v (set (sa_votes agg) \<union> W)))) \<and>
    (\<not> b \<longrightarrow> sa_ok c agg' \<and> \<not> reached_quorum c (sa_stake agg') \<and> set (sa_votes agg') = insert v (set (sa_votes agg)))"
proof -
  from sa_add_ok [OF c agg v, of QuorumThreshold] obtain agg' where
    agg': "sa_add QuorumThreshold agg v c =
        Some (reached_quorum c (stake_sum c (insert v (set (sa_votes agg)))), agg')"
      "sa_ok c agg'" "set (sa_votes agg') = insert v (set (sa_votes agg))"
    by auto
  have "stake_sum c (insert v (set (sa_votes agg))) \<le> stake_sum c (insert v (set (sa_votes agg) \<union> W))"
    using agg v W by (intro stake_sum_mono) (auto simp: sa_ok_def)
  with agg' show ?thesis by (auto simp: reached_quorum_def sa_ok_def)
qed

definition blaming :: "authority_index \<Rightarrow> verified_block_header list \<Rightarrow> authority_index set" where
  "blaming leader vs = bh_author ` {v \<in> set vs. \<exists>ancs. ancestors v = Some ancs \<and> (\<forall>a \<in> set ancs. br_author a \<noteq> leader)}"

lemma blame_loop_spec:
  assumes c: "committee_ok c"
  shows "\<forall>v \<in> set vs. ancestors v \<noteq> None \<and> bh_author v \<in> members c \<Longrightarrow> sa_ok c agg \<Longrightarrow>
    \<not> reached_quorum c (sa_stake agg) \<Longrightarrow>
    blame_loop c leader vs agg = Some (reached_quorum c (stake_sum c (set (sa_votes agg) \<union> blaming leader vs)))"
proof (induction vs arbitrary: agg)
  case Nil
  then show ?case by (simp add: blaming_def sa_ok_def)
next
  case (Cons v vs)
  then obtain ancs where ancs: "ancestors v = Some ancs" by auto
  have prems: "\<forall>v \<in> set vs. ancestors v \<noteq> None \<and> bh_author v \<in> members c" using Cons.prems(1) by simp
  have mem: "blaming leader vs \<subseteq> members c" using prems by (auto simp: blaming_def)
  show ?case
  proof (cases "\<forall>a \<in> set ancs. br_author a \<noteq> leader")
    case False
    then have "blaming leader (v # vs) = blaming leader vs" using ancs by (auto simp: blaming_def)
    with False Cons.IH [OF prems Cons.prems(2,3)] ancs show ?thesis by (auto simp: list_all_iff)
  next
    case True
    then have bl: "blaming leader (v # vs) = insert (bh_author v) (blaming leader vs)" using ancs by (auto simp: blaming_def)
    from sa_add_early [OF c Cons.prems(2) _ mem, of "bh_author v"] Cons.prems(1) obtain b agg' where
      add: "sa_add QuorumThreshold agg (bh_author v) c = Some (b, agg')"
        "b \<longrightarrow> reached_quorum c (stake_sum c (insert (bh_author v) (set (sa_votes agg) \<union> blaming leader vs)))"
        "\<not> b \<longrightarrow> sa_ok c agg' \<and> \<not> reached_quorum c (sa_stake agg') \<and> set (sa_votes agg') = insert (bh_author v) (set (sa_votes agg))"
      by auto
    have all: "list_all (\<lambda>a. br_author a \<noteq> leader) ancs" using True by (simp add: list_all_iff)
    show ?thesis
      using add Cons.IH [OF prems, of agg'] ancs all by (cases b) (auto simp: bl)
  qed
qed

lemma support_loop_spec:
  assumes dag: "member_dag c get"
  shows "\<forall>d \<in> set db. get (reference d) = Some d \<and> bh_round d \<le> br_round (reference l) + 2 \<Longrightarrow> sa_ok c agg \<Longrightarrow>
    \<not> reached_quorum c (sa_stake agg) \<Longrightarrow> cache_ok get (reference l) cache \<Longrightarrow>
    support_loop get c l db agg cache =
      Some (reached_quorum c (stake_sum c (set (sa_votes agg) \<union> bh_author ` {d \<in> set db. certifies get c (reference d) (reference l)})))"
proof (induction db arbitrary: agg cache)
  case Nil
  then show ?case by (simp add: sa_ok_def)
next
  case (Cons d db)
  let ?C = "bh_author ` {d \<in> set db. certifies get c (reference d) (reference l)}"
  have d: "get (reference d) = Some d" "br_round (reference d) \<le> br_round (reference l) + 2" using Cons.prems(1) by auto
  have prems: "\<forall>d \<in> set db. get (reference d) = Some d \<and> bh_round d \<le> br_round (reference l) + 2" using Cons.prems(1) by simp
  from is_certificate_spec [OF dag d Cons.prems(4)] obtain cache' where
    cert: "is_certificate get c d l cache = Some (certifies get c (reference d) (reference l), cache')" "cache_ok get (reference l) cache'"
    by blast
  show ?case
  proof (cases "certifies get c (reference d) (reference l)")
    case False
    then have "{x \<in> set (d # db). certifies get c (reference x) (reference l)} = {x \<in> set db. certifies get c (reference x) (reference l)}"
      by auto
    with False Cons.IH [OF prems Cons.prems(2,3) cert(2)] cert(1) show ?thesis by simp
  next
    case True
    then have bl: "bh_author ` {x \<in> set (d # db). certifies get c (reference x) (reference l)} = insert (bh_author d) ?C"
      by auto
    have mem: "?C \<subseteq> members c" "bh_author d \<in> members c"
      using prems d member_dagD(3) [OF dag] reference_simps(2) by fastforce+
    from sa_add_early [OF member_dagD(1) [OF dag] Cons.prems(2) mem(2,1)] obtain b agg' where
      add: "sa_add QuorumThreshold agg (bh_author d) c = Some (b, agg')"
        "b \<longrightarrow> reached_quorum c (stake_sum c (insert (bh_author d) (set (sa_votes agg) \<union> ?C)))"
        "\<not> b \<longrightarrow> sa_ok c agg' \<and> \<not> reached_quorum c (sa_stake agg') \<and> set (sa_votes agg') = insert (bh_author d) (set (sa_votes agg))"
      by blast
    show ?thesis
      unfolding bl using add Cons.IH [OF prems, of agg' cache'] cert True by (cases b) simp_all
  qed
qed

lemma any_certificate_spec:
  assumes dag: "member_dag c get"
  shows "\<forall>p \<in> set ps. get (reference p) = Some p \<and> bh_round p \<le> br_round (reference l) + 2 \<Longrightarrow>
    cache_ok get (reference l) cache \<Longrightarrow>
    any_certificate get c l ps cache = Some (\<exists>p \<in> set ps. certifies get c (reference p) (reference l))"
proof (induction ps arbitrary: cache)
  case (Cons p ps)
  have p: "get (reference p) = Some p" "br_round (reference p) \<le> br_round (reference l) + 2" using Cons.prems(1) by auto
  from is_certificate_spec [OF dag p Cons.prems(2)] obtain cache' where
    cert: "is_certificate get c p l cache = Some (certifies get c (reference p) (reference l), cache')" "cache_ok get (reference l) cache'"
    by blast
  with Cons.IH [of cache'] Cons.prems(1) show ?case by simp
qed simp

subsection \<open>The decision rules\<close>

definition slot_blamed :: "committee \<Rightarrow> (block_ref \<Rightarrow> verified_block_header option) \<Rightarrow> slot \<Rightarrow> bool" where
  "slot_blamed c G sl =
     (\<exists>B. (\<forall>b \<in> B. br_round b = slot_round sl + 1 \<and> blames G b (slot_authority sl)) \<and>
          reached_quorum c (stake_sum c (br_author ` B)))"

definition directly_certified :: "committee \<Rightarrow> (block_ref \<Rightarrow> verified_block_header option) \<Rightarrow> block_ref \<Rightarrow> bool" where
  "directly_certified c G l =
     (\<exists>C. (\<forall>p \<in> C. br_round p = br_round l + 2 \<and> certifies G c p l) \<and>
          reached_quorum c (stake_sum c (br_author ` C)))"

definition certified_link ::
  "committee \<Rightarrow> (block_ref \<Rightarrow> verified_block_header option) \<Rightarrow> block_ref \<Rightarrow> block_ref \<Rightarrow> bool" where
  "certified_link c G a l = (\<exists>p. reaches G a p \<and> br_round p = br_round l + 2 \<and> certifies G c p l)"

definition anchor_decision ::
  "committee \<Rightarrow> (block_ref \<Rightarrow> verified_block_header option) \<Rightarrow> block_ref \<Rightarrow> slot \<Rightarrow> leader_status \<Rightarrow> bool" where
  "anchor_decision c G a sl st =
     ((\<exists>b. G (reference b) = Some b \<and> slot_of (reference b) = sl \<and> certified_link c G a (reference b) \<and> st = Commit b) \<or>
      ((\<forall>l. slot_of l = sl \<longrightarrow> \<not> certified_link c G a l) \<and> st = Skip sl))"

lemma sa_new_below: "committee_ok c \<Longrightarrow> \<not> reached_quorum c (sa_stake sa_new)"
  using quorum_positive by (simp add: reached_quorum_def)

lemma enough_leader_blame_view:
  assumes v: "view_ok c honest G ds" and r: "last_commit_round ds < vr"
  shows "\<exists>b. enough_leader_blame ds vr a = Some b \<and> (b \<longrightarrow> slot_blamed c G (Slot (vr - 1) a))"
proof -
  note ok = view_dag [OF v] and c = bft_committee [OF view_bft [OF v]]
  from at_round_view [OF ok r] obtain vs where vs: "get_uncommitted_block_headers_at_round ds vr = Some vs"
    "set vs = {h. header_of ds (reference h) = Some h \<and> bh_round h = vr}" by blast
  have prems: "\<forall>x \<in> set vs. ancestors x \<noteq> None \<and> bh_author x \<in> members c"
  proof
    fix x assume "x \<in> set vs"
    then have x: "header_of ds (reference x) = Some x" using vs(2) by simp
    then show "ancestors x \<noteq> None \<and> bh_author x \<in> members c"
      using wf_dag_ancestors [OF view_wf [OF v] x] header_of_author [OF ok x] view_committee [OF v] by auto
  qed
  have run: "enough_leader_blame ds vr a = Some (reached_quorum c (stake_sum c (blaming a vs)))"
    using blame_loop_spec [OF c prems sa_ok_new sa_new_below [OF c]] vs(1) view_committee [OF v]
    by (simp add: enough_leader_blame_def)
  let ?B = "reference ` {x \<in> set vs. \<exists>ancs. ancestors x = Some ancs \<and> (\<forall>y \<in> set ancs. br_author y \<noteq> a)}"
  have "br_author ` ?B = blaming a vs" by (auto simp: blaming_def image_image)
  moreover have "\<forall>b \<in> ?B. br_round b = vr \<and> blames G b a"
    using vs(2) view_le [OF v] by (auto simp: blames_def)
  ultimately have "reached_quorum c (stake_sum c (blaming a vs)) \<longrightarrow> slot_blamed c G (Slot (vr - 1) a)"
    using r unfolding slot_blamed_def by (intro impI exI [of _ ?B]) auto
  with run show ?thesis by blast
qed

lemma enough_leader_support_eq:
  assumes v: "view_ok c honest G ds" and r: "last_commit_round ds < bh_round l + 2"
  shows "\<exists>db stakes. get_uncommitted_block_headers_at_round ds (bh_round l + 2) = Some db \<and>
    set db = {h. header_of ds (reference h) = Some h \<and> bh_round h = bh_round l + 2} \<and>
    mapM (\<lambda>b. stake_at c (bh_author b)) db = Some stakes \<and>
    enough_leader_support ds (bh_round l + 2) l = Some (reached_quorum c (wrap_u64 (sum_list stakes)) \<and>
      reached_quorum c (stake_sum c (bh_author ` {d \<in> set db. certifies (header_of ds) c (reference d) (reference l)})))"
proof -
  note ok = view_dag [OF v] and dag = view_member_dag [OF v]
  note c = member_dagD(1) [OF dag]
  from at_round_view [OF ok r] obtain db where db: "get_uncommitted_block_headers_at_round ds (bh_round l + 2) = Some db"
    "set db = {h. header_of ds (reference h) = Some h \<and> bh_round h = bh_round l + 2}" by blast
  have "\<exists>s. stake_at (ds_committee ds) (bh_author d) = Some s" if "d \<in> set db" for d
    using that db(2) header_of_author [OF ok, of "reference d" d] by (auto simp: stake_at_Some)
  then obtain stakes where stakes: "mapM (\<lambda>b. stake_at (ds_committee ds) (bh_author b)) db = Some stakes"
    using mapM_total [of db "\<lambda>b. stake_at (ds_committee ds) (bh_author b)"] by blast
  have prems: "\<forall>d \<in> set db. header_of ds (reference d) = Some d \<and> bh_round d \<le> br_round (reference l) + 2"
    using db(2) by simp
  have "enough_leader_support ds (bh_round l + 2) l = Some (reached_quorum c (wrap_u64 (sum_list stakes)) \<and>
      reached_quorum c (stake_sum c (bh_author ` {d \<in> set db. certifies (header_of ds) c (reference d) (reference l)})))"
    using support_loop_spec [OF dag prems sa_ok_new sa_new_below [OF c] cache_ok_empty] db(1) stakes view_committee [OF v]
    by (simp add: enough_leader_support_def dag_simps)
  with db stakes view_committee [OF v] show ?thesis by auto
qed

lemma enough_leader_support_view:
  assumes v: "view_ok c honest G ds" and r: "last_commit_round ds < bh_round l + 2"
  shows "\<exists>b. enough_leader_support ds (bh_round l + 2) l = Some b \<and> (b \<longrightarrow> directly_certified c G (reference l))"
proof -
  from enough_leader_support_eq [OF v r] obtain db stakes where
    db: "set db = {h. header_of ds (reference h) = Some h \<and> bh_round h = bh_round l + 2}"
      "enough_leader_support ds (bh_round l + 2) l = Some (reached_quorum c (wrap_u64 (sum_list stakes)) \<and>
      reached_quorum c (stake_sum c (bh_author ` {d \<in> set db. certifies (header_of ds) c (reference d) (reference l)})))" by blast
  let ?C = "reference ` {d \<in> set db. certifies (header_of ds) c (reference d) (reference l)}"
  have "br_author ` ?C = bh_author ` {d \<in> set db. certifies (header_of ds) c (reference d) (reference l)}"
    by (auto simp: image_image)
  moreover have "\<forall>p \<in> ?C. br_round p = br_round (reference l) + 2 \<and> certifies G c p (reference l)"
    using db(1) view_certifies [OF v] by auto
  ultimately have "reached_quorum c (stake_sum c (bh_author ` {d \<in> set db. certifies (header_of ds) c (reference d) (reference l)})) \<longrightarrow>
      directly_certified c G (reference l)"
    unfolding directly_certified_def by (intro impI exI [of _ ?C]) simp
  with db(2) show ?thesis by blast
qed

lemma directly_certified_certificate:
  assumes "committee_ok c" "directly_certified c G l"
  shows "\<exists>p. br_round p = br_round l + 2 \<and> certifies G c p l"
proof -
  from assms(2) obtain C where "\<forall>p \<in> C. br_round p = br_round l + 2 \<and> certifies G c p l"
    "reached_quorum c (stake_sum c (br_author ` C))" unfolding directly_certified_def by blast
  with quorum_nonempty [OF assms(1)] show ?thesis by blast
qed

lemma distinct_length_le_1: "distinct xs \<Longrightarrow> (\<And>x y. x \<in> set xs \<Longrightarrow> y \<in> set xs \<Longrightarrow> x = y) \<Longrightarrow> length xs \<le> 1"
proof (cases xs)
  case (Cons a ys)
  assume "distinct xs" "\<And>x y. x \<in> set xs \<Longrightarrow> y \<in> set xs \<Longrightarrow> x = y"
  then show ?thesis using Cons by (cases ys) (simp, metis distinct_length_2_or_more list.set_intros)
qed simp

text \<open>At most one of the blocks in a slot can be certified: the \<open>more than one certified block\<close> panics are unreachable.\<close>

lemma certified_unique:
  assumes bft: "bft_dag c honest G" and slot: "slot_of l = slot_of l'"
    and "br_round p = br_round l + 2" "certifies G c p l" "br_round p' = br_round l' + 2" "certifies G c p' l'"
  shows "l = l'"
  using certificates_agree [OF bft assms(4,6)] assms(3,5) slot by simp

definition is_leader_round :: "base_committer_options \<Rightarrow> round \<Rightarrow> bool" where
  "is_leader_round opts r = (leader_round opts (wave_number opts r) = r)"

lemma certifying_round_leader: "is_leader_round opts r \<Longrightarrow> certifying_round opts (wave_number opts r) = r + 2"
  by (simp add: is_leader_round_def leader_round_def certifying_round_def WAVE_LENGTH_def)

lemma try_direct_decide_view:
  assumes v: "view_ok c honest G ds" and r: "last_commit_round ds \<le> slot_round sl" and w: "is_leader_round opts (slot_round sl)"
  shows "\<exists>st. try_direct_decide ds opts sl = Some st \<and>
    (st = Skip sl \<and> slot_blamed c G sl \<or>
     (\<exists>b. st = Commit b \<and> header_of ds (reference b) = Some b \<and> slot_of (reference b) = sl \<and> directly_certified c G (reference b)) \<or>
     st = Undecided sl)"
proof -
  note ok = view_dag [OF v]
  from enough_leader_blame_view [OF v, of "slot_round sl + 1" "slot_authority sl"] r obtain blamed where
    blamed: "enough_leader_blame ds (slot_round sl + 1) (slot_authority sl) = Some blamed" "blamed \<longrightarrow> slot_blamed c G sl"
    by (auto simp: less_Suc_eq_le)
  let ?ls = "get_uncommitted_block_headers_at_slot ds sl"
  have lr: "bh_round l = slot_round sl" if "l \<in> set ?ls" for l
    using at_slot_subset(2) [OF ok that] by (auto simp: header_slot_def)
  have "\<forall>l \<in> set ?ls. \<exists>b. enough_leader_support ds (slot_round sl + 2) l = Some b \<and> (b \<longrightarrow> directly_certified c G (reference l))"
    using enough_leader_support_view [OF v] lr r by (metis less_add_same_cancel1 order_le_less_trans zero_less_numeral)
  then obtain f where f: "\<forall>l \<in> set ?ls. enough_leader_support ds (slot_round sl + 2) l = Some (f l)"
    "\<forall>l \<in> set ?ls. f l \<longrightarrow> directly_certified c G (reference l)" by metis
  have flt: "filterM (enough_leader_support ds (slot_round sl + 2)) ?ls = Some (filter f ?ls)"
    using f(1) by (intro filterM_SomeI) auto
  have "x = y" if "x \<in> set (filter f ?ls)" "y \<in> set (filter f ?ls)" for x y
  proof -
    have xy: "directly_certified c G (reference x)" "directly_certified c G (reference y)"
      "header_of ds (reference x) = Some x" "header_of ds (reference y) = Some y" "slot_of (reference x) = slot_of (reference y)"
      using that f(2) at_slot_subset [OF ok] by (auto simp: slot_of_reference)
    then have "reference x = reference y"
      using directly_certified_certificate [OF bft_committee [OF view_bft [OF v]]] certified_unique [OF view_bft [OF v]] by metis
    with xy(3,4) show ?thesis by (metis option.inject)
  qed
  with at_slot_distinct [OF dag_ok_recent [OF ok]] have one: "length (filter f ?ls) \<le> 1"
    by (intro distinct_length_le_1) auto
  have run: "try_direct_decide ds opts sl = Some (if blamed then Skip sl
      else case filter f ?ls of [] \<Rightarrow> Undecided sl | b # _ \<Rightarrow> Commit b)"
    using blamed(1) flt one certifying_round_leader [OF w] by (simp add: try_direct_decide_def)
  show ?thesis
  proof (cases "filter f ?ls")
    case Nil
    with run blamed(2) show ?thesis by auto
  next
    case (Cons b bs)
    then have "b \<in> set (filter f ?ls)" by simp
    then have b: "b \<in> set ?ls" "f b" by auto
    then have "header_of ds (reference b) = Some b" "slot_of (reference b) = sl" "directly_certified c G (reference b)"
      using f(2) at_slot_subset [OF ok b(1)] by (auto simp: slot_of_reference)
    with run blamed(2) Cons show ?thesis by auto
  qed
qed

text \<open>A certified leader is in the view of every validator that has the anchor.\<close>

lemma certified_link_view:
  assumes v: "view_ok c honest G ds" and a: "header_of ds a \<noteq> None" and link: "certified_link c G a l"
  shows "header_of ds l \<noteq> None"
proof -
  from link obtain p where p: "reaches G a p" "br_round p = br_round l + 2" "certifies G c p l"
    by (auto simp: certified_link_def)
  from certifies_votes [OF bft_member_dag [OF view_bft [OF v]] p(3)] p(2) obtain V where
    V: "\<forall>x \<in> V. votes_for G x l \<and> reaches G p x" "reached_quorum c (stake_sum c (br_author ` V))" by auto
  obtain x where x: "votes_for G x l" "reaches G p x"
    using V quorum_nonempty [OF bft_committee [OF view_bft [OF v]] V(2)] by blast
  have "reaches G x l" by (rule votes_for_round(2) [OF bft_wf [OF view_bft [OF v]] x(1)])
  then have "reaches G a l" using p(1) x(2) reaches_trans by blast
  then have "reaches (header_of ds) a l" using view_reaches [OF v a] by blast
  then show ?thesis by (rule reaches_present [OF view_wf [OF v] _ a])
qed

lemma certificate_in_history:
  assumes v: "view_ok c honest G ds" and a: "header_of ds (reference a) = Some a" "bh_round l + 3 \<le> bh_round a"
    and ps: "\<forall>x \<in> set ps. header_of ds (reference x) = Some x \<and> reaches (header_of ds) (reference a) (reference x) \<and> bh_round x \<le> bh_round l + 2"
      "\<forall>x. header_of ds (reference x) = Some x \<and> bh_round x = bh_round l + 2 \<and> bh_round l + 2 < bh_round a \<and>
        reaches (header_of ds) (reference a) (reference x) \<longrightarrow> x \<in> set ps"
  shows "(\<exists>p \<in> set ps. certifies (header_of ds) c (reference p) (reference l)) = certified_link c G (reference a) (reference l)"
proof
  assume "\<exists>p \<in> set ps. certifies (header_of ds) c (reference p) (reference l)"
  then obtain p where p: "p \<in> set ps" "certifies (header_of ds) c (reference p) (reference l)" by blast
  then have "bh_round p = bh_round l + 2" using certifies_round [OF view_member_dag [OF v] p(2)] ps(1) by force
  moreover have "certifies G c (reference p) (reference l)" "reaches G (reference a) (reference p)"
    using p ps(1) view_certifies [OF v] view_reaches [OF v] a(1) by auto
  ultimately show "certified_link c G (reference a) (reference l)"
    unfolding certified_link_def by (intro exI [of _ "reference p"]) simp
next
  assume "certified_link c G (reference a) (reference l)"
  then obtain p where p: "reaches G (reference a) p" "br_round p = bh_round l + 2" "certifies G c p (reference l)"
    by (auto simp: certified_link_def)
  have rp: "reaches (header_of ds) (reference a) p" using p(1) view_reaches [OF v] a(1) by simp
  then obtain h where h: "header_of ds p = Some h" using reaches_present [OF view_wf [OF v] rp] a(1) by auto
  have ref: "reference h = p" using wf_dag_reference [OF view_wf [OF v] h] .
  have "bh_round h = bh_round l + 2" using ref p(2) by auto
  then have "h \<in> set ps" using ps(2) h ref rp a(2) by auto
  moreover have "certifies (header_of ds) c (reference h) (reference l)"
    using p(3) view_certifies [OF v, of p] h ref by simp
  ultimately show "\<exists>p \<in> set ps. certifies (header_of ds) c (reference p) (reference l)" by blast
qed

lemma decide_leader_from_anchor_view:
  assumes v: "view_ok c honest G ds" and a: "header_of ds (reference a) = Some a" "slot_round sl + 3 \<le> bh_round a"
    and r: "last_commit_round ds < slot_round sl" and w: "is_leader_round opts (slot_round sl)"
  shows "\<exists>st. decide_leader_from_anchor ds opts a sl = Some st \<and> anchor_decision c G (reference a) sl st \<and>
    (\<forall>b. st = Commit b \<longrightarrow> header_of ds (reference b) = Some b)"
proof -
  note ok = view_dag [OF v]
  let ?ls = "get_uncommitted_block_headers_at_slot ds sl"
  have ls: "set ?ls = {h. header_of ds (reference h) = Some h \<and> header_slot h = sl}" by (rule at_slot_view [OF ok r])
  have lr: "bh_round l = slot_round sl" if "l \<in> set ?ls" for l using that ls by (auto simp: header_slot_def)
  from ancestors_at_round_total [OF view_wf [OF v] a(1), of "slot_round sl + 2"] obtain ps where
    ps: "ancestors_at_round ds a (slot_round sl + 2) = Some ps"
      "\<forall>x \<in> set ps. header_of ds (reference x) = Some x \<and> reaches (header_of ds) (reference a) (reference x) \<and> bh_round x \<le> slot_round sl + 2"
      "\<forall>x. header_of ds (reference x) = Some x \<and> bh_round x = slot_round sl + 2 \<and> slot_round sl + 2 < bh_round a \<and>
        reaches (header_of ds) (reference a) (reference x) \<longrightarrow> x \<in> set ps" by blast
  let ?f = "\<lambda>l. certified_link c G (reference a) (reference l)"
  have "any_certificate (header_of ds) c l ps Map.empty = Some (?f l)" if "l \<in> set ?ls" for l
  proof -
    have "any_certificate (header_of ds) c l ps Map.empty =
        Some (\<exists>p \<in> set ps. certifies (header_of ds) c (reference p) (reference l))"
      using ps(2) lr [OF that] by (intro any_certificate_spec [OF view_member_dag [OF v]]) auto
    also have "(\<exists>p \<in> set ps. certifies (header_of ds) c (reference p) (reference l)) = ?f l"
      by (rule certificate_in_history [OF v a(1) a(2) [folded lr [OF that]] ps(2,3) [folded lr [OF that]]])
    finally show ?thesis .
  qed
  then have flt: "filterM (\<lambda>l. any_certificate (header_of ds) c l ps Map.empty) ?ls = Some (filter ?f ?ls)"
    by (intro filterM_SomeI) auto
  have "x = y" if "x \<in> set (filter ?f ?ls)" "y \<in> set (filter ?f ?ls)" for x y
  proof -
    have xy: "header_of ds (reference x) = Some x" "header_of ds (reference y) = Some y"
      "slot_of (reference x) = slot_of (reference y)" "?f x" "?f y"
      using that ls by (auto simp: slot_of_reference)
    then have "reference x = reference y"
      unfolding certified_link_def using certified_unique [OF view_bft [OF v] xy(3)] by blast
    with xy(1,2) show ?thesis by (metis option.inject)
  qed
  with at_slot_distinct [OF dag_ok_recent [OF ok]] have one: "length (filter ?f ?ls) \<le> 1"
    by (intro distinct_length_le_1) auto
  have run: "decide_leader_from_anchor ds opts a sl = Some (case filter ?f ?ls of [] \<Rightarrow> Skip sl | b # _ \<Rightarrow> Commit b)"
    using ps(1) flt one certifying_round_leader [OF w] view_committee [OF v]
    by (simp add: decide_leader_from_anchor_def dag_simps)
  show ?thesis
  proof (cases "filter ?f ?ls")
    case Nil
    have "\<not> certified_link c G (reference a) l" if l: "slot_of l = sl" for l
    proof
      assume link: "certified_link c G (reference a) l"
      then obtain h where h: "header_of ds l = Some h" using certified_link_view [OF v _ link] a(1) by auto
      then have ref: "reference h = l" by (rule header_of_reference [OF ok])
      have "header_slot h = sl" using l unfolding ref [symmetric] slot_of_reference .
      then have "h \<in> set ?ls" using ls h unfolding ref [symmetric] by blast
      with link have "h \<in> set (filter ?f ?ls)" unfolding ref [symmetric] by simp
      with Nil show False by simp
    qed
    with run Nil show ?thesis by (auto simp: anchor_decision_def)
  next
    case (Cons b bs)
    then have "b \<in> set (filter ?f ?ls)" by simp
    then have b: "?f b" "header_of ds (reference b) = Some b" "slot_of (reference b) = sl"
      using ls by (auto simp: slot_of_reference)
    then have "anchor_decision c G (reference a) sl (Commit b)"
      unfolding anchor_decision_def using view_le [OF v b(2)] by blast
    with run Cons b(2) show ?thesis by simp
  qed
qed

end
