(* ===== verification/Universal_Committer.thy ===== *)
theory Universal_Committer
  imports Base_Committer
begin

section \<open>The universal committer\<close>

text \<open>
  \<open>crates/starfish/core/src/universal_committer.rs\<close>: the pipelined committer, one base
  committer per round offset and leader offset, and the loop that decides the leaders of
  all rounds above the last decided one, from the highest round down.
\<close>

definition DEFAULT_NUMBER_OF_LEADERS_IN_ROUND :: nat where
  "DEFAULT_NUMBER_OF_LEADERS_IN_ROUND = 1"

definition build_committers :: "nat \<Rightarrow> base_committer_options list" where
  "build_committers number_of_leaders =
     concat (map (\<lambda>ro. map (\<lambda>lo. \<lparr> leader_offset = lo, round_offset = ro \<rparr>) [0..<number_of_leaders])
       [0..<WAVE_LENGTH])"

definition default_committers :: "base_committer_options list" where
  "default_committers = build_committers DEFAULT_NUMBER_OF_LEADERS_IN_ROUND"

text \<open>
  One committer at one round. The state is the deque of statuses decided so far and a flag
  that records the \<open>break 'outer\<close>.
\<close>

definition decide_step ::
  "dag_state \<Rightarrow> (round \<Rightarrow> nat \<Rightarrow> authority_index) \<Rightarrow> slot \<Rightarrow> round
     \<Rightarrow> (leader_status \<times> decision) list \<times> bool \<Rightarrow> base_committer_options
     \<Rightarrow> ((leader_status \<times> decision) list \<times> bool) option"
where
  "decide_step ds elect last_decided r st committer =
     (let (leaders, stop) = st in
      if stop then Some st
      else case bc_elect_leader elect committer r of
        None \<Rightarrow> Some st
      | Some sl \<Rightarrow>
          if sl = last_decided then Some (leaders, True)
          else do {
            status \<leftarrow> try_direct_decide ds committer sl;
            if is_decided status then Some ((status, Direct) # leaders, False)
            else do {
              status' \<leftarrow> try_indirect_decide ds committer sl (map fst leaders);
              Some ((status', Indirect) # leaders, False) } })"

definition decide_round ::
  "dag_state \<Rightarrow> (round \<Rightarrow> nat \<Rightarrow> authority_index) \<Rightarrow> base_committer_options list \<Rightarrow> slot
     \<Rightarrow> (leader_status \<times> decision) list \<times> bool \<Rightarrow> round
     \<Rightarrow> ((leader_status \<times> decision) list \<times> bool) option"
where
  "decide_round ds elect committers last_decided st r =
     foldM (decide_step ds elect last_decided r) st (rev committers)"

definition update_metrics :: "committee \<Rightarrow> decided_leader \<Rightarrow> unit option" where
  "update_metrics c d = map_option (\<lambda>_. ()) (authority_at c (slot_authority (decided_slot d)))"

primrec decided_prefix :: "committee \<Rightarrow> (leader_status \<times> decision) list \<Rightarrow> decided_leader list option" where
  "decided_prefix c [] = Some []"
| "decided_prefix c (x # xs) =
     (if ls_round (fst x) = GENESIS_ROUND then decided_prefix c xs
      else case into_decided_leader (fst x) of
        None \<Rightarrow> Some []
      | Some d \<Rightarrow> do { update_metrics c d; ds \<leftarrow> decided_prefix c xs; Some (d # ds) })"

definition try_decide ::
  "dag_state \<Rightarrow> (round \<Rightarrow> nat \<Rightarrow> authority_index) \<Rightarrow> base_committer_options list \<Rightarrow> slot
     \<Rightarrow> decided_leader list option"
where
  "try_decide ds elect committers last_decided = do {
     let last_round = slot_round last_decided + 1;
     (leaders, _) \<leftarrow> foldM (decide_round ds elect committers last_decided) ([], False)
       (rev [last_round..<Suc (highest_accepted_round ds - 2)]);
     decided_prefix (ds_committee ds) leaders }"

definition get_leaders ::
  "(round \<Rightarrow> nat \<Rightarrow> authority_index) \<Rightarrow> base_committer_options list \<Rightarrow> round \<Rightarrow> authority_index list" where
  "get_leaders elect committers r =
     map slot_authority (List.map_filter (\<lambda>co. bc_elect_leader elect co r) committers)"

end
