(* ===== verification/Commit_Safety.thy ===== *)
theory Commit_Safety
  imports Commit_Views Universal_Committer "HOL-Library.Sublist"
begin

section \<open>Agreement of the universal committer\<close>

text \<open>
  The statuses \<open>try_decide\<close> computes, one per round, and the main safety result: two correct
  validators that start from the same last decided slot and use the same leader schedule
  return sequences of decided leaders one of which is a prefix of the other.
\<close>

subsection \<open>One committer per round\<close>

abbreviation round_committer :: "round \<Rightarrow> base_committer_options" where
  "round_committer r \<equiv> \<lparr> leader_offset = 0, round_offset = r mod 3 \<rparr>"

lemma default_committers_eq:
  "default_committers =
     [\<lparr> leader_offset = 0, round_offset = 0 \<rparr>, \<lparr> leader_offset = 0, round_offset = 1 \<rparr>, \<lparr> leader_offset = 0, round_offset = 2 \<rparr>]"
  by (simp add: default_committers_def build_committers_def DEFAULT_NUMBER_OF_LEADERS_IN_ROUND_def WAVE_LENGTH_def
      upt_rec numeral_eq_Suc)

lemma leader_round_mod: "ro < 3 \<Longrightarrow> is_leader_round \<lparr> leader_offset = lo, round_offset = ro \<rparr> r \<longleftrightarrow> r mod 3 = ro"
proof -
  assume "ro < 3"
  then consider "ro = 0" | "ro = 1" | "ro = 2" by linarith
  then have "(r - ro) div 3 * 3 + ro = r \<longleftrightarrow> r mod 3 = ro" by cases presburger+
  then show ?thesis by (simp add: is_leader_round_def leader_round_def wave_number_def WAVE_LENGTH_def)
qed

lemma bc_elect_leader_mod:
  "ro < 3 \<Longrightarrow> bc_elect_leader elect \<lparr> leader_offset = lo, round_offset = ro \<rparr> r =
     (if r mod 3 = ro then Some (Slot r (elect r lo)) else None)"
  using leader_round_mod [of ro lo r] by (simp add: bc_elect_leader_def is_leader_round_def)

definition decide_slot ::
  "dag_state \<Rightarrow> (round \<Rightarrow> nat \<Rightarrow> authority_index) \<Rightarrow> round \<Rightarrow> leader_status list \<Rightarrow> (leader_status \<times> decision) option" where
  "decide_slot ds elect r later = do {
     let sl = Slot r (elect r 0);
     status \<leftarrow> try_direct_decide ds (round_committer r) sl;
     if is_decided status then Some (status, Direct)
     else do {
       status' \<leftarrow> try_indirect_decide ds (round_committer r) sl later;
       Some (status', Indirect) } }"

lemma decide_step_other:
  "ro < 3 \<Longrightarrow> r mod 3 \<noteq> ro \<Longrightarrow>
     decide_step ds elect ld r st \<lparr> leader_offset = lo, round_offset = ro \<rparr> = Some st"
  by (cases st) (simp add: decide_step_def bc_elect_leader_mod)

lemma decide_step_own:
  "slot_round ld < r \<Longrightarrow>
     decide_step ds elect ld r (leaders, False) (round_committer r) =
       do { s \<leftarrow> decide_slot ds elect r (map fst leaders); Some (s # leaders, False) }"
  by (cases ld) (auto simp: decide_step_def bc_elect_leader_mod decide_slot_def Let_def
      intro!: Option.bind_cong split: option.splits)

lemma decide_round_default:
  assumes "slot_round ld < r"
  shows "decide_round ds elect default_committers ld (leaders, False) r =
    do { s \<leftarrow> decide_slot ds elect r (map fst leaders); Some (s # leaders, False) }"
proof -
  have "r mod 3 = 0 \<or> r mod 3 = 1 \<or> r mod 3 = 2" by linarith
  then show ?thesis
    using decide_step_own [OF assms, of ds elect leaders]
    by (elim disjE) (simp_all add: decide_round_def default_committers_eq decide_step_other Option.bind_assoc)
qed

subsection \<open>Runs\<close>

text \<open>
  The statuses of the rounds above \<open>lo\<close> and below \<open>hi\<close> as the decision rules justify them:
  every one is a direct skip, a direct commit, a decision from the first committed leader at
  least three rounds later (all leaders in between are skipped), or undecided.
\<close>

definition indirect_status ::
  "committee \<Rightarrow> (block_ref \<Rightarrow> verified_block_header option) \<Rightarrow> round \<Rightarrow> (round \<Rightarrow> leader_status) \<Rightarrow> round \<Rightarrow> slot \<Rightarrow> bool" where
  "indirect_status c G hi status r sl =
     (\<exists>a x. r + 3 \<le> x \<and> x < hi \<and> status x = Commit a \<and> (\<forall>y. r + 3 \<le> y \<and> y < x \<longrightarrow> (\<exists>s. status y = Skip s)) \<and>
        anchor_decision c G (reference a) sl (status r))"

definition justified_status ::
  "committee \<Rightarrow> (block_ref \<Rightarrow> verified_block_header option) \<Rightarrow> round \<Rightarrow> (round \<Rightarrow> leader_status) \<Rightarrow> round \<Rightarrow> slot \<Rightarrow> bool" where
  "justified_status c G hi status r sl =
     (status r = Skip sl \<and> slot_blamed c G sl \<or>
      (\<exists>b. status r = Commit b \<and> slot_of (reference b) = sl \<and> directly_certified c G (reference b)) \<or>
      indirect_status c G hi status r sl \<or> status r = Undecided sl)"

definition sound_run ::
  "committee \<Rightarrow> (block_ref \<Rightarrow> verified_block_header option) \<Rightarrow> (round \<Rightarrow> slot) \<Rightarrow> round \<Rightarrow> round \<Rightarrow> (round \<Rightarrow> leader_status) \<Rightarrow> bool" where
  "sound_run c G leader lo hi status =
     (\<forall>r. lo \<le> r \<and> r < hi \<longrightarrow> slot_round (leader r) = r \<and> justified_status c G hi status r (leader r) \<and>
        (\<forall>b. status r = Commit b \<longrightarrow> G (reference b) = Some b \<and> slot_of (reference b) = leader r))"

lemma sound_runD:
  assumes "sound_run c G leader lo hi status" "lo \<le> r" "r < hi"
  shows "slot_round (leader r) = r" "justified_status c G hi status r (leader r)"
    "status r = Commit b \<Longrightarrow> G (reference b) = Some b \<and> slot_of (reference b) = leader r"
  using assms unfolding sound_run_def by blast+

text \<open>A justified commit rests on a certificate, a justified skip excludes direct commits, and so on.\<close>

lemma commit_certificate:
  assumes "committee_ok c" "justified_status c G hi status r sl" "status r = Commit b"
  shows "slot_of (reference b) = sl \<and> (\<exists>p. br_round p = br_round (reference b) + 2 \<and> certifies G c p (reference b))"
proof -
  from assms(2,3) consider "slot_of (reference b) = sl" "directly_certified c G (reference b)" | "indirect_status c G hi status r sl"
    unfolding justified_status_def by auto
  then show ?thesis
  proof cases
    case 1
    then show ?thesis using directly_certified_certificate [OF assms(1)] by blast
  next
    case 2
    then obtain a where "anchor_decision c G (reference a) sl (Commit b)"
      unfolding indirect_status_def assms(3) by blast
    then show ?thesis unfolding anchor_decision_def certified_link_def by auto
  qed
qed

lemma anchor_decision_unique:
  assumes bft: "bft_dag c honest G" and "anchor_decision c G a sl st" "anchor_decision c G a sl st'"
  shows "st = st'"
proof -
  have "b = b'" if "G (reference b) = Some b" "G (reference b') = Some b'" "slot_of (reference b) = sl"
    "slot_of (reference b') = sl" "certified_link c G a (reference b)" "certified_link c G a (reference b')" for b b'
  proof -
    have "reference b = reference b'"
      using that(3-6) certified_unique [OF bft, of "reference b" "reference b'"] unfolding certified_link_def by metis
    with that(1,2) show ?thesis by (metis option.inject)
  qed
  then show ?thesis using assms(2,3) unfolding anchor_decision_def by metis
qed

lemma blamed_not_committed:
  assumes bft: "bft_dag c honest G" and "slot_blamed c G sl" "slot_of l = sl" "br_round p = br_round l + 2"
  shows "\<not> certifies G c p l"
proof -
  from assms(2) obtain B where B: "\<forall>b \<in> B. br_round b = slot_round sl + 1 \<and> blames G b (slot_authority sl)"
    "reached_quorum c (stake_sum c (br_author ` B))" unfolding slot_blamed_def by blast
  have "slot_round sl = br_round l" "slot_authority sl = br_author l" using assms(3) by (auto simp: slot_of_def)
  then show ?thesis
    using B assms(4) by (intro blames_exclude_certificate [OF bft _ B(2)]) auto
qed

text \<open>A directly committed leader is the decision of every anchor three rounds later.\<close>

lemma direct_commit_anchor:
  assumes bft: "bft_dag c honest G" and l: "directly_certified c G (reference l)" "G (reference l) = Some l" "slot_of (reference l) = sl"
    and a: "G a \<noteq> None" "bh_round l + 3 \<le> br_round a" and dec: "anchor_decision c G a sl st"
  shows "st = Commit l"
proof -
  from l(1) obtain C where C: "\<forall>p \<in> C. br_round p = br_round (reference l) + 2 \<and> certifies G c p (reference l)"
    "reached_quorum c (stake_sum c (br_author ` C))" unfolding directly_certified_def by blast
  then obtain p where "p \<in> C" "reaches G a p"
    using certified_in_history [OF bft, of C "reference l" a] a by auto
  with C(1) have "certified_link c G a (reference l)" unfolding certified_link_def by blast
  with l have "anchor_decision c G a sl (Commit l)" unfolding anchor_decision_def by blast
  with dec show ?thesis using anchor_decision_unique [OF bft] by blast
qed

subsection \<open>Two runs agree\<close>

lemma decided_justified:
  assumes "justified_status c G hi status r sl" "is_decided (status r)"
  shows "status r = Skip sl \<and> slot_blamed c G sl \<or>
    (\<exists>b. status r = Commit b \<and> slot_of (reference b) = sl \<and> directly_certified c G (reference b)) \<or>
    indirect_status c G hi status r sl"
  using assms unfolding justified_status_def by auto

lemma decided_shape:
  assumes "justified_status c G hi status r sl" "is_decided (status r)"
  shows "status r = Skip sl \<or> (\<exists>b. status r = Commit b)"
  using decided_justified [OF assms] unfolding indirect_status_def anchor_decision_def by blast

lemma blamed_run_agrees:
  assumes bft: "bft_dag c honest G" and "slot_blamed c G sl"
    and j: "justified_status c G hi status r sl" "is_decided (status r)"
  shows "status r = Skip sl"
proof (rule ccontr)
  assume "status r \<noteq> Skip sl"
  with decided_shape [OF j] obtain b where "status r = Commit b" by blast
  with commit_certificate [OF bft_committee [OF bft] j(1)] show False
    using blamed_not_committed [OF bft assms(2)] by blast
qed

lemma direct_run_agrees:
  assumes bft: "bft_dag c honest G" and run: "sound_run c G leader lo hi status" "lo \<le> r" "r < hi"
    and l: "directly_certified c G (reference l)" "G (reference l) = Some l" "slot_of (reference l) = leader r"
    and dec: "is_decided (status r)"
  shows "status r = Commit l"
proof -
  note j = sound_runD(2) [OF run]
  have lr: "bh_round l = r" using l(3) sound_runD(1) [OF run] by (cases "leader r") (auto simp: slot_of_def)
  obtain p where p: "br_round p = br_round (reference l) + 2" "certifies G c p (reference l)"
    using directly_certified_certificate [OF bft_committee [OF bft] l(1)] by blast
  consider "slot_blamed c G (leader r)" | b where "status r = Commit b" | "indirect_status c G hi status r (leader r)"
    using decided_justified [OF j dec] by blast
  then show ?thesis
  proof cases
    case 1
    with p l(3) blamed_not_committed [OF bft] show ?thesis by blast
  next
    case 2
    from commit_certificate [OF bft_committee [OF bft] j 2] sound_runD(3) [OF run 2] l(3) p
    have "reference b = reference l" by (metis certified_unique [OF bft])
    with sound_runD(3) [OF run 2] l(2) 2 show ?thesis by (metis option.inject)
  next
    case 3
    then obtain a x where a: "r + 3 \<le> x" "x < hi" "status x = Commit a" "anchor_decision c G (reference a) (leader r) (status r)"
      unfolding indirect_status_def by blast
    from a(1) run(2) have x: "lo \<le> x" by simp
    from sound_runD(3) [OF run(1) x a(2,3)] sound_runD(1) [OF run(1) x a(2)]
    have "G (reference a) \<noteq> None" "br_round (reference a) = x"
      by (cases "leader x"; auto simp: slot_of_def)+
    with direct_commit_anchor [OF bft l(1,2,3) _ _ a(4)] lr a(1) show ?thesis by simp
  qed
qed

lemma first_commit_agrees:
  fixes s s' :: "round \<Rightarrow> leader_status"
  assumes same: "\<And>x. r < x \<Longrightarrow> x < hi \<Longrightarrow> x < hi' \<Longrightarrow> is_decided (s x) \<Longrightarrow> is_decided (s' x) \<Longrightarrow> s x = s' x"
    and "r < x" "x < hi" "s x = Commit a" "\<forall>y. r + 3 \<le> y \<and> y < x \<longrightarrow> (\<exists>sl. s y = Skip sl)"
    and "r + 3 \<le> x'" "x' < hi'" "s' x' = Commit a'" "\<forall>y. r + 3 \<le> y \<and> y < x' \<longrightarrow> (\<exists>sl. s' y = Skip sl)"
    and "r + 3 \<le> x"
  shows "a = a'"
proof -
  have "\<not> x < x'"
  proof
    assume *: "x < x'"
    with assms obtain sl where "s' x = Skip sl" by blast
    with same [of x] assms * show False by simp
  qed
  moreover have "\<not> x' < x"
  proof
    assume *: "x' < x"
    with assms obtain sl where "s x' = Skip sl" by blast
    with same [of x'] assms * show False by simp
  qed
  ultimately have "x = x'" by simp
  with same [of x] assms show ?thesis by simp
qed

lemma runs_agree:
  assumes bft: "bft_dag c honest G"
    and run: "sound_run c G leader lo hi s" and run': "sound_run c G leader lo hi' s'"
  shows "lo \<le> r \<Longrightarrow> r < hi \<Longrightarrow> r < hi' \<Longrightarrow> is_decided (s r) \<Longrightarrow> is_decided (s' r) \<Longrightarrow> s r = s' r"
proof (induction "hi - r" arbitrary: r rule: less_induct)
  case less
  note j = sound_runD(2) [OF run less.prems(1,2)] and j' = sound_runD(2) [OF run' less.prems(1,3)]
  have IH: "s x = s' x" if "r < x" "x < hi" "x < hi'" "is_decided (s x)" "is_decided (s' x)" for x
    using less.hyps [of x] that less.prems by simp
  have direct: "s r = s' r" if "s r = Commit b" "directly_certified c G (reference b)" for b
    using direct_run_agrees [OF bft run' less.prems(1,3) that(2)] sound_runD(3) [OF run less.prems(1,2) that(1)] less.prems(5) that(1)
    by simp
  have direct': "s r = s' r" if "s' r = Commit b" "directly_certified c G (reference b)" for b
    using direct_run_agrees [OF bft run less.prems(1,2) that(2)] sound_runD(3) [OF run' less.prems(1,3) that(1)] less.prems(4) that(1)
    by simp
  have blamed: "s r = s' r" if "slot_blamed c G (leader r)"
    using blamed_run_agrees [OF bft that j less.prems(4)] blamed_run_agrees [OF bft that j' less.prems(5)] by simp
  consider "s r = s' r" | "indirect_status c G hi s r (leader r)" "indirect_status c G hi' s' r (leader r)"
    using decided_justified [OF j less.prems(4)] decided_justified [OF j' less.prems(5)] direct direct' blamed by blast
  then show ?case
  proof cases
    case 2
    then obtain a x a' x' where
      a: "r + 3 \<le> x" "x < hi" "s x = Commit a" "\<forall>y. r + 3 \<le> y \<and> y < x \<longrightarrow> (\<exists>sl. s y = Skip sl)"
         "anchor_decision c G (reference a) (leader r) (s r)" and
      a': "r + 3 \<le> x'" "x' < hi'" "s' x' = Commit a'" "\<forall>y. r + 3 \<le> y \<and> y < x' \<longrightarrow> (\<exists>sl. s' y = Skip sl)"
         "anchor_decision c G (reference a') (leader r) (s' r)"
      unfolding indirect_status_def by blast
    from a(1) have "r < x" by simp
    from first_commit_agrees [of r hi hi' s s' x a x' a', OF IH this a(2,3,4) a'(1,2,3,4) a(1)] have "a = a'" by blast
    with a(5) a'(5) show ?thesis using anchor_decision_unique [OF bft] by blast
  qed
qed

subsection \<open>The loop of \<open>try_decide\<close> produces such a run\<close>

lemma status_round:
  assumes "sound_run c G leader lo hi s" "lo \<le> r" "r < hi"
  shows "ls_round (s r) = r"
proof -
  note run = assms
  from sound_runD(2) [OF run] have "s r = Skip (leader r) \<or> (\<exists>b. s r = Commit b) \<or> s r = Undecided (leader r)"
    unfolding justified_status_def indirect_status_def anchor_decision_def by blast
  then show ?thesis
    using sound_runD(1,3) [OF run] by (cases "leader r") (auto simp: slot_of_def)
qed

lemma filter_later:
  assumes "\<And>r. k \<le> r \<Longrightarrow> r < hi \<Longrightarrow> ls_round (s r) = r" "k \<le> m"
  shows "filter (\<lambda>x. m \<le> ls_round x) (map s [k..<hi]) = map s [m..<hi]"
proof (cases "m \<le> hi")
  case True
  then have "[k..<hi] = [k..<m] @ [m..<hi]" using assms(2) by (metis upt_add_eq_append le_add_diff_inverse)
  then show ?thesis using assms True by (simp add: filter_map o_def filter_empty_conv cong: filter_cong)
next
  case False
  then show ?thesis using assms by (auto simp: filter_empty_conv)
qed

lemma find_anchor_first:
  "find_anchor (map s [m..<hi]) = Some a \<Longrightarrow>
     \<exists>x. m \<le> x \<and> x < hi \<and> s x = Commit a \<and> (\<forall>y. m \<le> y \<and> y < x \<longrightarrow> (\<exists>sl. s y = Skip sl))"
proof (induction "hi - m" arbitrary: m)
  case (Suc n)
  then have m: "[m..<hi] = m # [Suc m..<hi]" by (simp add: upt_rec)
  show ?case
  proof (cases "s m")
    case (Skip sl)
    with Suc.prems m have "find_anchor (map s [Suc m..<hi]) = Some a" by simp
    with Suc.hyps obtain x where "Suc m \<le> x" "x < hi" "s x = Commit a" "\<forall>y. Suc m \<le> y \<and> y < x \<longrightarrow> (\<exists>sl. s y = Skip sl)"
      by (metis Suc_diff_Suc diff_Suc_1 zero_less_Suc zero_less_diff)
    with Skip show ?thesis by (metis Suc_leD Suc_leI le_neq_implies_less)
  qed (use Suc m in auto)
qed simp

lemma indirect_update:
  "k < r \<Longrightarrow> indirect_status c G hi (s(k := st)) r sl = indirect_status c G hi s r sl"
  unfolding indirect_status_def by (intro iff_exI conj_cong refl) auto

lemma sound_run_extend:
  assumes run: "sound_run c G leader (Suc k) hi s" and "slot_round (leader k) = k"
    and j: "justified_status c G hi (s(k := st)) k (leader k)"
    and b: "\<And>b. st = Commit b \<Longrightarrow> G (reference b) = Some b \<and> slot_of (reference b) = leader k"
  shows "sound_run c G leader k hi (s(k := st))"
  unfolding sound_run_def
proof (intro allI impI, elim conjE)
  fix r assume "k \<le> r" "r < hi"
  show "slot_round (leader r) = r \<and> justified_status c G hi (s(k := st)) r (leader r) \<and>
    (\<forall>b. (s(k := st)) r = Commit b \<longrightarrow> G (reference b) = Some b \<and> slot_of (reference b) = leader r)"
  proof (cases "r = k")
    case False
    with \<open>k \<le> r\<close> have "Suc k \<le> r" by simp
    from sound_runD [OF run this \<open>r < hi\<close>] show ?thesis
      using False \<open>Suc k \<le> r\<close> by (simp add: justified_status_def indirect_update)
  qed (use assms in simp)
qed

text \<open>A decision of the direct rule is the status of the round.\<close>

definition directly_decided :: "dag_state \<Rightarrow> (round \<Rightarrow> nat \<Rightarrow> authority_index) \<Rightarrow> round \<Rightarrow> leader_status \<Rightarrow> bool" where
  "directly_decided ds elect r st =
     (\<forall>st'. try_direct_decide ds (round_committer r) (Slot r (elect r 0)) = Some st' \<and> is_decided st' \<longrightarrow> st = st')"

text \<open>One more round of the loop: the indirect rule, then both rules.\<close>

lemma indirect_decide_run:
  assumes v: "view_ok c honest G ds" and r: "last_commit_round ds < k"
    and run: "sound_run c G (\<lambda>r. Slot r (elect r 0)) (Suc k) hi s"
    and inview: "\<forall>r b. Suc k \<le> r \<and> r < hi \<and> s r = Commit b \<longrightarrow> header_of ds (reference b) = Some b"
  defines "sl \<equiv> Slot k (elect k 0)"
  shows "\<exists>st. try_indirect_decide ds (round_committer k) sl (map s [Suc k..<hi]) = Some st \<and>
    justified_status c G hi (s(k := st)) k sl \<and> (\<forall>b. st = Commit b \<longrightarrow> header_of ds (reference b) = Some b \<and> slot_of (reference b) = sl)"
proof -
  have w: "is_leader_round (round_committer k) (slot_round sl)" by (simp add: leader_round_mod sl_def)
  have later: "find_anchor (filter (\<lambda>x. slot_round sl + WAVE_LENGTH \<le> ls_round x) (map s [Suc k..<hi])) =
    find_anchor (map s [k + 3..<hi])"
    using filter_later [of "Suc k" hi s "k + 3"] status_round [OF run] by (simp add: WAVE_LENGTH_def sl_def)
  show ?thesis
  proof (cases "find_anchor (map s [k + 3..<hi])")
    case None
    then show ?thesis unfolding try_indirect_decide_def later by (simp add: justified_status_def)
  next
    case (Some a)
    from find_anchor_first [OF this] obtain x where x: "k + 3 \<le> x" "x < hi" "s x = Commit a"
      "\<forall>y. k + 3 \<le> y \<and> y < x \<longrightarrow> (\<exists>sl. s y = Skip sl)" by blast
    then have a: "header_of ds (reference a) = Some a" "bh_round a = x"
      using inview [rule_format, of x a] status_round [OF run, of x] by auto
    from decide_leader_from_anchor_view [OF v a(1) _ _ w] a(2) x(1) r obtain st where
      st: "decide_leader_from_anchor ds (round_committer k) a sl = Some st" "anchor_decision c G (reference a) sl st"
        "\<forall>b. st = Commit b \<longrightarrow> header_of ds (reference b) = Some b" by (auto simp: sl_def)
    have "indirect_status c G hi (s(k := st)) k sl"
      unfolding indirect_status_def using x st(2) by (intro exI [of _ a] exI [of _ x]) auto
    with Some st show ?thesis unfolding try_indirect_decide_def later
      by (auto simp: justified_status_def anchor_decision_def)
  qed
qed

lemma decide_slot_run:
  assumes v: "view_ok c honest G ds" and r: "last_commit_round ds < k"
    and run: "sound_run c G (\<lambda>r. Slot r (elect r 0)) (Suc k) hi s"
    and inview: "\<forall>r b. Suc k \<le> r \<and> r < hi \<and> s r = Commit b \<longrightarrow> header_of ds (reference b) = Some b"
  shows "\<exists>st d. decide_slot ds elect k (map s [Suc k..<hi]) = Some (st, d) \<and>
    sound_run c G (\<lambda>r. Slot r (elect r 0)) k hi (s(k := st)) \<and> (\<forall>b. st = Commit b \<longrightarrow> header_of ds (reference b) = Some b) \<and>
    directly_decided ds elect k st"
proof -
  let ?leader = "\<lambda>r. Slot r (elect r 0)" and ?sl = "Slot k (elect k 0)"
  have w: "is_leader_round (round_committer k) (slot_round ?sl)" by (simp add: leader_round_mod)
  from try_direct_decide_view [OF v _ w] r obtain st where st: "try_direct_decide ds (round_committer k) ?sl = Some st"
    "st = Skip ?sl \<and> slot_blamed c G ?sl \<or>
     (\<exists>b. st = Commit b \<and> header_of ds (reference b) = Some b \<and> slot_of (reference b) = ?sl \<and> directly_certified c G (reference b)) \<or>
     st = Undecided ?sl" by auto
  show ?thesis
  proof (cases "is_decided st")
    case True
    have "sound_run c G ?leader k hi (s(k := st))"
      using st(2) True view_le [OF v] by (intro sound_run_extend [OF run]) (auto simp: justified_status_def)
    moreover have "decide_slot ds elect k (map s [Suc k..<hi]) = Some (st, Direct)"
      using st(1) True by (simp add: decide_slot_def)
    moreover have "directly_decided ds elect k st" using st(1) by (simp add: directly_decided_def)
    ultimately show ?thesis using st(2) by auto
  next
    case False
    from indirect_decide_run [where elect = elect, OF v r run inview] obtain st' where
      st': "try_indirect_decide ds (round_committer k) ?sl (map s [Suc k..<hi]) = Some st'"
      "justified_status c G hi (s(k := st')) k ?sl" "\<forall>b. st' = Commit b \<longrightarrow> header_of ds (reference b) = Some b \<and> slot_of (reference b) = ?sl"
      by blast
    have "sound_run c G ?leader k hi (s(k := st'))"
      using st'(2,3) view_le [OF v] by (intro sound_run_extend [OF run]) auto
    moreover have "decide_slot ds elect k (map s [Suc k..<hi]) = Some (st', Indirect)"
      using st(1) False st'(1) by (simp add: decide_slot_def)
    moreover have "directly_decided ds elect k st'" using st(1) False by (simp add: directly_decided_def)
    ultimately show ?thesis using st'(3) by blast
  qed
qed

lemma decide_rounds_run:
  assumes v: "view_ok c honest G ds" and r: "last_commit_round ds \<le> slot_round ld"
  shows "slot_round ld < k \<Longrightarrow> k \<le> hi \<Longrightarrow> \<exists>ls s.
    foldM (decide_round ds elect default_committers ld) ([], False) (rev [k..<hi]) = Some (ls, False) \<and>
    map fst ls = map s [k..<hi] \<and> sound_run c G (\<lambda>r. Slot r (elect r 0)) k hi s \<and>
    (\<forall>r b. k \<le> r \<and> r < hi \<and> s r = Commit b \<longrightarrow> header_of ds (reference b) = Some b) \<and>
    (\<forall>r. k \<le> r \<and> r < hi \<longrightarrow> directly_decided ds elect r (s r))"
proof (induction "hi - k" arbitrary: k)
  case 0
  then show ?case by (auto simp: sound_run_def)
next
  case (Suc n)
  then have "n = hi - Suc k" "slot_round ld < Suc k" "Suc k \<le> hi" by auto
  from Suc.hyps(1) [OF this] obtain ls s where
    ls: "foldM (decide_round ds elect default_committers ld) ([], False) (rev [Suc k..<hi]) = Some (ls, False)"
      "map fst ls = map s [Suc k..<hi]" and
    s: "sound_run c G (\<lambda>r. Slot r (elect r 0)) (Suc k) hi s"
      "\<forall>r b. Suc k \<le> r \<and> r < hi \<and> s r = Commit b \<longrightarrow> header_of ds (reference b) = Some b"
      "\<forall>r. Suc k \<le> r \<and> r < hi \<longrightarrow> directly_decided ds elect r (s r)" by blast
  from r Suc.prems(1) have lt: "last_commit_round ds < k" by simp
  from decide_slot_run [where elect = elect, OF v lt s(1,2)] obtain st d where
    st: "decide_slot ds elect k (map s [Suc k..<hi]) = Some (st, d)"
      "sound_run c G (\<lambda>r. Slot r (elect r 0)) k hi (s(k := st))" "\<forall>b. st = Commit b \<longrightarrow> header_of ds (reference b) = Some b"
      "directly_decided ds elect k st"
    by blast
  have k: "[k..<hi] = k # [Suc k..<hi]" using Suc.hyps(2) by (simp add: upt_rec)
  have "foldM (decide_round ds elect default_committers ld) ([], False) (rev [k..<hi]) = Some ((st, d) # ls, False)"
    using ls st(1) decide_round_default [OF Suc.prems(1), of ds elect ls] by (simp add: k foldM_append)
  moreover have "map fst ((st, d) # ls) = map (s(k := st)) [k..<hi]" using ls(2) by (simp add: k)
  moreover have "\<forall>r b. k \<le> r \<and> r < hi \<and> (s(k := st)) r = Commit b \<longrightarrow> header_of ds (reference b) = Some b"
    using s(2) st(3) by (auto simp: not_less_eq_eq le_Suc_eq) (metis Suc_leI le_neq_implies_less)
  moreover have "\<forall>r. k \<le> r \<and> r < hi \<longrightarrow> directly_decided ds elect r ((s(k := st)) r)"
    using s(3) st(4) by (auto simp: Suc_le_eq)
  ultimately show ?case using st(2) by blast
qed

subsection \<open>The decided sequences\<close>

text \<open>The longest decided prefix, without the metrics and without genesis rounds.\<close>

primrec decided_of :: "leader_status list \<Rightarrow> decided_leader list" where
  "decided_of [] = []"
| "decided_of (x # xs) = (case into_decided_leader x of None \<Rightarrow> [] | Some d \<Rightarrow> d # decided_of xs)"

lemma decided_prefix_total:
  assumes "\<And>x. x \<in> set ls \<Longrightarrow> 0 < ls_round (fst x)"
    and "\<And>x d. x \<in> set ls \<Longrightarrow> into_decided_leader (fst x) = Some d \<Longrightarrow> slot_authority (decided_slot d) \<in> members c"
  shows "decided_prefix c ls = Some (decided_of (map fst ls))"
  using assms
proof (induction ls)
  case (Cons x xs)
  have IH: "decided_prefix c xs = Some (decided_of (map fst xs))"
    by (rule Cons.IH) (rule Cons.prems; simp)+
  have "ls_round (fst x) \<noteq> GENESIS_ROUND" using Cons.prems(1) [of x] by (simp add: GENESIS_ROUND_def)
  then show ?case
    using IH Cons.prems(2) [of x]
    by (auto simp: update_metrics_def members_def size_of_def authority_at_def vec_get_def split: option.splits)
qed simp

lemma decided_of_prefix:
  assumes "\<And>i. i < length xs \<Longrightarrow> i < length ys \<Longrightarrow> is_decided (xs ! i) \<Longrightarrow> is_decided (ys ! i) \<Longrightarrow> xs ! i = ys ! i"
  shows "prefix (decided_of xs) (decided_of ys) \<or> prefix (decided_of ys) (decided_of xs)"
  using assms
proof (induction xs arbitrary: ys)
  case (Cons x xs)
  show ?case
  proof (cases ys)
    case (Cons y ys')
    have tail: "prefix (decided_of xs) (decided_of ys') \<or> prefix (decided_of ys') (decided_of xs)"
      using Cons.prems [of "Suc i" for i] Cons by (intro Cons.IH) simp
    have head: "is_decided x \<Longrightarrow> is_decided y \<Longrightarrow> x = y" using Cons.prems [of 0] Cons by simp
    show ?thesis
      using head tail Cons by (cases x; cases y) auto
  qed simp
qed simp

lemma try_decide_run:
  assumes v: "view_ok c honest G ds" and r: "last_commit_round ds \<le> slot_round ld"
    and elect: "\<And>r. elect r 0 \<in> members c"
  shows "\<exists>s hi. try_decide ds elect default_committers ld = Some (decided_of (map s [slot_round ld + 1..<hi])) \<and>
    hi = max (slot_round ld + 1) (highest_accepted_round ds - 1) \<and>
    sound_run c G (\<lambda>r. Slot r (elect r 0)) (slot_round ld + 1) hi s \<and>
    (\<forall>r. slot_round ld < r \<and> r < hi \<longrightarrow> directly_decided ds elect r (s r))"
proof -
  let ?lo = "slot_round ld + 1" and ?h = "Suc (highest_accepted_round ds - 2)"
  have upt: "[?lo..<?h] = [?lo..<max ?lo ?h]" by (simp add: max_def)
  from decide_rounds_run [OF v r, of ?lo "max ?lo ?h" elect] obtain ls s where
    ls: "foldM (decide_round ds elect default_committers ld) ([], False) (rev [?lo..<max ?lo ?h]) = Some (ls, False)"
      "map fst ls = map s [?lo..<max ?lo ?h]" and
    run: "sound_run c G (\<lambda>r. Slot r (elect r 0)) ?lo (max ?lo ?h) s"
      "\<forall>r. ?lo \<le> r \<and> r < max ?lo ?h \<longrightarrow> directly_decided ds elect r (s r)" by auto
  have pos: "0 < ls_round (fst x)" "into_decided_leader (fst x) = Some d \<longrightarrow> slot_authority (decided_slot d) \<in> members c"
    if "x \<in> set ls" for x d
  proof -
    from that have "fst x \<in> set (map s [?lo..<max ?lo ?h])" unfolding ls(2) [symmetric] by simp
    then obtain r where i: "?lo \<le> r" "r < max ?lo ?h" "fst x = s r" by auto
    show "0 < ls_round (fst x)" using status_round [OF run(1) i(1,2)] i by simp
    have "s r = Skip (Slot r (elect r 0)) \<or> (\<exists>b. s r = Commit b \<and> slot_of (reference b) = Slot r (elect r 0)) \<or> \<not> is_decided (s r)"
      using sound_runD(3) [OF run(1) i(1,2)] decided_shape [OF sound_runD(2) [OF run(1) i(1,2)]] by blast
    then show "into_decided_leader (fst x) = Some d \<longrightarrow> slot_authority (decided_slot d) \<in> members c"
      using elect [of r] i(3) by (cases "s r") (auto simp: slot_of_def header_slot_def)
  qed
  have "decided_prefix c ls = Some (decided_of (map s [?lo..<max ?lo ?h]))"
    using decided_prefix_total [of ls c] pos unfolding ls(2) by blast
  then have "try_decide ds elect default_committers ld = Some (decided_of (map s [?lo..<max ?lo ?h]))"
    unfolding try_decide_def Let_def upt ls(1) using view_committee [OF v] by simp
  moreover have "max ?lo ?h = max ?lo (highest_accepted_round ds - 1)" by (auto simp: max_def)
  moreover have "\<forall>r. slot_round ld < r \<and> r < max ?lo ?h \<longrightarrow> directly_decided ds elect r (s r)"
    using run(2) by (metis Suc_eq_plus1 Suc_leI)
  ultimately show ?thesis using run(1) by blast
qed

end
