(* ===== verification/Commit_Liveness.thy ===== *)
theory Commit_Liveness
  imports Commit_Safety
begin

section \<open>The direct rule commits what is certified\<close>

text \<open>
  The converse of the safety lemmas: a leader block with a quorum of certificates in a view
  is committed by the direct rule on that view, and \<open>try_decide\<close> returns it as soon as all
  earlier leaders are decided.
\<close>

lemma sum_image_le_sum_list:
  fixes g :: "'b \<Rightarrow> nat"
  shows "sum g (f ` set xs) \<le> sum_list (map (\<lambda>x. g (f x)) xs)"
proof (induction xs)
  case (Cons x xs)
  have "sum g (f ` set (x # xs)) \<le> g (f x) + sum g (f ` set xs)"
    by (cases "f x \<in> f ` set xs") (simp_all add: insert_absorb)
  with Cons show ?case by simp
qed simp

lemma mapM_stakes:
  "mapM (\<lambda>b. stake_at c (bh_author b)) db = Some stakes \<Longrightarrow>
     stakes = map (\<lambda>b. a_stake (authorities c ! bh_author b)) db \<and> (\<forall>b \<in> set db. bh_author b \<in> members c)"
  by (induction db arbitrary: stakes) (auto simp: Option.bind_eq_Some_conv stake_at_eq_Some_iff)

lemma stakes_reach_quorum:
  fixes db :: "verified_block_header list"
  assumes c: "committee_ok c" and st: "mapM (\<lambda>b. stake_at c (bh_author b)) db = Some stakes"
    and fits: "length db * total_stake c < 18446744073709551616"
    and q: "reached_quorum c (stake_sum c (bh_author ` A))" "A \<subseteq> set db"
  shows "reached_quorum c (wrap_u64 (sum_list stakes))"
proof -
  note stakes = mapM_stakes [OF st]
  have "a_stake (authorities c ! a) \<le> total_stake c" if "a \<in> members c" for a
    using stake_sum_le_total [OF c, of "{a}"] that by (simp add: stake_sum_def)
  then have bound: "sum_list (map (\<lambda>b. a_stake (authorities c ! bh_author b)) xs) \<le> length xs * total_stake c"
    if "\<forall>b \<in> set xs. bh_author b \<in> members c" for xs :: "verified_block_header list"
    using that by (induction xs) (auto simp: add_mono)
  have "sum_list stakes \<le> length db * total_stake c" using stakes bound [of db] by blast
  with fits have "wrap_u64 (sum_list stakes) = sum_list stakes" by (simp add: wrap_u64_def)
  moreover have "stake_sum c (bh_author ` A) \<le> stake_sum c (bh_author ` set db)"
    using q(2) stakes by (intro stake_sum_mono) auto
  moreover have "stake_sum c (bh_author ` set db) \<le> sum_list stakes"
    using stakes sum_image_le_sum_list by (simp add: stake_sum_def)
  ultimately show ?thesis using q(1) by (simp add: reached_quorum_def)
qed

text \<open>The certificates for a leader block that a view holds.\<close>

definition view_certificates :: "dag_state \<Rightarrow> verified_block_header \<Rightarrow> verified_block_header set" where
  "view_certificates ds l =
     {d. header_of ds (reference d) = Some d \<and> bh_round d = bh_round l + 2 \<and>
         certifies (header_of ds) (ds_committee ds) (reference d) (reference l)}"

definition round_fits :: "dag_state \<Rightarrow> round \<Rightarrow> bool" where
  "round_fits ds r =
     (case get_uncommitted_block_headers_at_round ds r of
        None \<Rightarrow> True | Some db \<Rightarrow> length db * total_stake (ds_committee ds) < 18446744073709551616)"

lemma certified_supported:
  assumes v: "view_ok c honest G ds" and r: "last_commit_round ds < bh_round l + 2"
    and q: "reached_quorum c (stake_sum c (bh_author ` view_certificates ds l))" and fits: "round_fits ds (bh_round l + 2)"
  shows "enough_leader_support ds (bh_round l + 2) l = Some True" "directly_certified c G (reference l)"
proof -
  from enough_leader_support_eq [OF v r] obtain db stakes where
    db: "get_uncommitted_block_headers_at_round ds (bh_round l + 2) = Some db"
      "set db = {h. header_of ds (reference h) = Some h \<and> bh_round h = bh_round l + 2}"
      "mapM (\<lambda>b. stake_at c (bh_author b)) db = Some stakes" and
    run: "enough_leader_support ds (bh_round l + 2) l = Some (reached_quorum c (wrap_u64 (sum_list stakes)) \<and>
      reached_quorum c (stake_sum c (bh_author ` {d \<in> set db. certifies (header_of ds) c (reference d) (reference l)})))" by blast
  have C: "{d \<in> set db. certifies (header_of ds) c (reference d) (reference l)} = view_certificates ds l"
    using db(2) view_committee [OF v] by (auto simp: view_certificates_def)
  have "reached_quorum c (wrap_u64 (sum_list stakes))"
    by (rule stakes_reach_quorum [OF bft_committee [OF view_bft [OF v]] db(3) _ q])
      (use fits db view_committee [OF v] C in \<open>auto simp: round_fits_def\<close>)
  with run q C show sup: "enough_leader_support ds (bh_round l + 2) l = Some True" by simp
  from enough_leader_support_view [OF v r] sup show "directly_certified c G (reference l)"
    by (metis option.inject)
qed

lemma direct_commit_complete:
  assumes v: "view_ok c honest G ds" and r: "last_commit_round ds < slot_round sl" and w: "is_leader_round opts (slot_round sl)"
    and l: "header_of ds (reference l) = Some l" "header_slot l = sl"
    and q: "reached_quorum c (stake_sum c (bh_author ` view_certificates ds l))" and fits: "round_fits ds (bh_round l + 2)"
  shows "try_direct_decide ds opts sl = Some (Commit l)"
proof -
  note bft = view_bft [OF v]
  have lr: "bh_round l = slot_round sl" using l(2) by (auto simp: header_slot_def)
  then have "last_commit_round ds < bh_round l + 2" using r by simp
  note sup = certified_supported [OF v this q fits]
  have inls: "l \<in> set (get_uncommitted_block_headers_at_slot ds sl)"
    using at_slot_view [OF view_dag [OF v] r] l by simp
  obtain p where p: "br_round p = br_round (reference l) + 2" "certifies G c p (reference l)"
    using directly_certified_certificate [OF bft_committee [OF bft] sup(2)] by blast
  from try_direct_decide_view [OF v _ w] r obtain st where st: "try_direct_decide ds opts sl = Some st"
    "st = Skip sl \<and> slot_blamed c G sl \<or>
     (\<exists>b. st = Commit b \<and> header_of ds (reference b) = Some b \<and> slot_of (reference b) = sl \<and> directly_certified c G (reference b)) \<or>
     st = Undecided sl" by auto
  have sl: "slot_of (reference l) = sl" using l(2) by (simp add: slot_of_reference)
  consider "slot_blamed c G sl" | b where "st = Commit b" "header_of ds (reference b) = Some b" "slot_of (reference b) = sl"
      "directly_certified c G (reference b)" | "st = Undecided sl" using st(2) by blast
  then show ?thesis
  proof cases
    case 1
    with blamed_not_committed [OF bft 1 sl p(1)] p(2) show ?thesis by blast
  next
    case (2 b)
    obtain p' where "br_round p' = br_round (reference b) + 2" "certifies G c p' (reference b)"
      using directly_certified_certificate [OF bft_committee [OF bft] 2(4)] by blast
    with p 2(3) sl have "reference b = reference l" by (metis certified_unique [OF bft])
    with 2 l(1) st(1) show ?thesis by (metis option.inject)
  next
    case 3
    from st(1) 3 have "filterM (enough_leader_support ds (slot_round sl + 2)) (get_uncommitted_block_headers_at_slot ds sl) = Some []"
      using certifying_round_leader [OF w]
      by (auto simp: try_direct_decide_def Let_def Option.bind_eq_Some_conv split: if_splits list.splits) (meson neq_Nil_conv)
    from filterM_SomeD [OF this] have
      none: "filter (\<lambda>x. enough_leader_support ds (slot_round sl + 2) x = Some True) (get_uncommitted_block_headers_at_slot ds sl) = []"
      by simp
    have "\<not> enough_leader_support ds (slot_round sl + 2) l = Some True"
      using none inls unfolding filter_empty_conv by blast
    with sup(1) lr show ?thesis by simp
  qed
qed

text \<open>When every leader above the last decided one is certified, \<open>try_decide\<close> returns all of them.\<close>

lemma decided_of_commits:
  "(\<And>r. r \<in> set rs \<Longrightarrow> s r = Commit (b r)) \<Longrightarrow> decided_of (map s rs) = map (\<lambda>r. DCommit (b r)) rs"
  by (induction rs) auto

lemma try_decide_commits:
  assumes v: "view_ok c honest G ds" and r: "last_commit_round ds \<le> slot_round ld"
    and elect: "\<And>r. elect r 0 \<in> members c"
    and certified: "\<And>r. slot_round ld < r \<Longrightarrow> r + 2 \<le> highest_accepted_round ds \<Longrightarrow>
      header_of ds (reference (b r)) = Some (b r) \<and> header_slot (b r) = Slot r (elect r 0) \<and>
      reached_quorum c (stake_sum c (bh_author ` view_certificates ds (b r))) \<and> round_fits ds (r + 2)"
  shows "try_decide ds elect default_committers ld =
    Some (map (\<lambda>r. DCommit (b r)) [slot_round ld + 1..<highest_accepted_round ds - 1])"
proof -
  from try_decide_run [where elect = elect, OF v r elect] obtain s hi where
    s: "try_decide ds elect default_committers ld = Some (decided_of (map s [slot_round ld + 1..<hi]))"
      "hi = max (slot_round ld + 1) (highest_accepted_round ds - 1)"
      "\<forall>r. slot_round ld < r \<and> r < hi \<longrightarrow> directly_decided ds elect r (s r)" by blast
  have "s k = Commit (b k)" if k: "slot_round ld < k" "k < hi" for k
  proof -
    have hk: "k + 2 \<le> highest_accepted_round ds" using k s(2) by auto
    note ck = certified [OF k(1) hk]
    have "bh_round (b k) = k" using ck by (simp add: header_slot_def)
    then have "try_direct_decide ds (round_committer k) (Slot k (elect k 0)) = Some (Commit (b k))"
      using ck r k by (intro direct_commit_complete [OF v]) (auto simp: leader_round_mod)
    then show ?thesis using s(3) k by (auto simp: directly_decided_def)
  qed
  then have "decided_of (map s [slot_round ld + 1..<hi]) = map (\<lambda>r. DCommit (b r)) [slot_round ld + 1..<hi]"
    by (intro decided_of_commits) auto
  moreover have "[slot_round ld + 1..<hi] = [slot_round ld + 1..<highest_accepted_round ds - 1]"
    using s(2) by (simp add: max_def)
  ultimately show ?thesis using s(1) by simp
qed

end
