(* ===== verification/Synchronous_Dag.thy ===== *)
theory Synchronous_Dag
  imports Commit_Liveness Dag_State_Commits
begin

section \<open>The synchronous DAG\<close>

text \<open>
  A concrete family of executions under fast commit sync: \<open>n\<close> authorities of stake one that all propose in
  every round, reference all blocks of the previous round and from round 2 on acknowledge their transactions. A node that starts on an empty store
  and accepts these headers through \<open>accept_block_header\<close> reaches a state that satisfies the
  hypotheses of the safety theorems (\<open>sync_state_view\<close>), so they are not vacuous.
\<close>

definition sync_ref :: "round \<Rightarrow> authority_index \<Rightarrow> block_ref" where
  "sync_ref r a = BlockRef r a (of_nat a)"

text \<open>The authors of the parents, the own one first, as the block verifier demands.\<close>

definition own_first :: "nat \<Rightarrow> authority_index \<Rightarrow> authority_index list" where
  "own_first n a = a # filter (\<lambda>b. b \<noteq> a) [0..<n]"

definition sync_header :: "nat \<Rightarrow> round \<Rightarrow> authority_index \<Rightarrow> verified_block_header" where
  "sync_header n r a =
     (let h = example_header r a (of_nat a) (if r = 0 then [] else map (sync_ref (r - 1)) (own_first n a))
      in if r < 2 then h else h\<lparr> overlap_start_index := 0 \<rparr>)"

definition sync_dag :: "nat \<Rightarrow> (round \<Rightarrow> authority_index \<Rightarrow> bool) \<Rightarrow> block_ref \<Rightarrow> verified_block_header option" where
  "sync_dag n there ref =
     (if ref = sync_ref (br_round ref) (br_author ref) \<and> br_author ref < n \<and> (br_round ref = 0 \<or> there (br_round ref) (br_author ref))
      then Some (sync_header n (br_round ref) (br_author ref)) else None)"

definition sync_context :: "nat \<Rightarrow> consensus_context" where
  "sync_context n = (example_context (example_committee n))\<lparr> consensus_fast_commit_sync := True \<rparr>"

definition sync_digest :: "block_header \<Rightarrow> digest" where
  "sync_digest h = of_nat (bh_author h)"

definition sync_headers :: "nat \<Rightarrow> round \<Rightarrow> verified_block_header list" where
  "sync_headers n R = concat (map (\<lambda>r. map (sync_header n r) [0..<n]) [1..<R + 1])"

definition sync_state :: "nat \<Rightarrow> round \<Rightarrow> dag_state option" where
  "sync_state n R = do {
     ds \<leftarrow> dag_state_new sync_digest (sync_context n) mem_store_new;
     accept_block_headers ds (sync_headers n R) BlockBundleStream }"

lemma own_first_facts: "a < n \<Longrightarrow> set (own_first n a) = {..<n}" "distinct (own_first n a)" "hd (own_first n a) = a"
  by (auto simp: own_first_def)

lemma sync_ref_simps [simp]: "br_round (sync_ref r a) = r" "br_author (sync_ref r a) = a"
  "sync_ref r a = sync_ref r' a' \<longleftrightarrow> r = r' \<and> a = a'"
  by (auto simp: sync_ref_def)

lemma sync_header_simps [simp]: "reference (sync_header n r a) = sync_ref r a" "bh_round (sync_header n r a) = r"
  "bh_author (sync_header n r a) = a"
  "acknowledgments (sync_header n r a) = Some (if r < 2 then [] else map (sync_ref (r - 1)) (own_first n a))"
  "ancestors (sync_header n r a) = Some (if r = 0 then [] else map (sync_ref (r - 1)) (own_first n a))"
  "bh_epoch (sync_header n r a) = 0" "bh_timestamp_ms (sync_header n r a) = r" "bh_commit_votes (sync_header n r a) = []"
  by (auto simp: sync_header_def sync_ref_def Let_def example_header_def reference_def ancestors_def acknowledgments_def)

lemma sync_dag_Some:
  "sync_dag n there ref = Some h \<longleftrightarrow>
     (\<exists>r a. ref = sync_ref r a \<and> a < n \<and> (r = 0 \<or> there r a) \<and> h = sync_header n r a)"
  unfolding sync_dag_def by (auto split: if_splits)

text \<open>Rounds up to \<open>R\<close> are complete.\<close>

definition up_to :: "round \<Rightarrow> round \<Rightarrow> authority_index \<Rightarrow> bool" where
  "up_to R r a = (r \<le> R)"

lemma sync_wf_dag: "wf_dag (sync_dag n (up_to R))"
proof -
  have "sync_dag n (up_to R) (sync_ref (r - 1) b) \<noteq> None" if "r \<le> R" "b < n" for r b
    using that by (auto simp: sync_dag_def up_to_def)
  then show ?thesis unfolding wf_dag_def sync_dag_Some by (auto simp: up_to_def own_first_facts)
qed

lemma sync_bft_dag:
  assumes "0 < n" "n < 255"
  shows "bft_dag (example_committee n) {..<n} (sync_dag n (up_to R))"
proof -
  have parents: "{x \<in> set (map (sync_ref (r - 1)) (own_first n a)). br_round x + 1 = r} = sync_ref (r - 1) ` {..<n}"
    if "0 < r" "a < n" for r a using that by (auto simp: own_first_facts)
  have quorum: "reached_quorum (example_committee n) (stake_sum (example_committee n) (br_author ` sync_ref r ` {..<n}))" for r
  proof -
    have "br_author ` sync_ref r ` {..<n} = {..<n}" by (auto simp: image_image)
    then show ?thesis
      using assms by (simp add: example_committee_stake reached_quorum_def) (simp add: example_committee_def)
  qed
  have "stake_sum (example_committee n) ({..<n} - {..<n}) < validity_threshold (example_committee n)"
    using validity_positive [OF example_committee_ok [OF assms]] by (simp add: stake_sum_def)
  then show ?thesis
    unfolding bft_dag_def member_dag_def
    using assms example_committee_ok [OF assms] sync_wf_dag [of n R] quorum parents
    by (auto simp: sync_dag_Some)
qed

lemma sync_context_ok: "0 < n \<Longrightarrow> n < 255 \<Longrightarrow> context_ok (sync_context n)"
  by (simp add: context_ok_def sync_context_def example_context_def example_committee_ok)

lemma sync_genesis:
  assumes "0 < n" "n < 255"
  shows "genesis_blocks sync_digest (sync_context n) =
    map (\<lambda>a. \<lparr> vb_header = sync_header n 0 a, vb_transactions = \<lparr> vt_transactions = [],
      vt_transaction_ref = header_transaction_ref (sync_header n 0 a), vt_block_digest = Some (of_nat a) \<rparr> \<rparr>) [0..<n]"
proof -
  have c: "ctx_committee (sync_context n) = example_committee n" by (simp add: sync_context_def example_context_def)
  have h: "new_verified sync_digest (genesis_block_header 0 0 a) = sync_header n 0 a" for a
    by (simp add: new_verified_def genesis_block_header_def sync_header_def example_header_def sync_digest_def
        block_header.defs verified_block_header.defs GENESIS_ROUND_def)
  have d: "vbh_digest (sync_header n 0 a) = of_nat a" "sync_digest (genesis_block_header 0 0 a) = of_nat a" for a
    by (simp_all add: sync_header_def example_header_def sync_digest_def genesis_block_header_def)
  have "map fst (authorities_enum (example_committee n)) = [0..<n]"
    using authorities_enum_indices [OF example_committee_ok [OF assms]] by (simp add: size_of_def example_committee_def)
  moreover have "genesis_blocks sync_digest (sync_context n) =
    map (\<lambda>a. \<lparr> vb_header = sync_header n 0 a, vb_transactions = \<lparr> vt_transactions = [],
      vt_transaction_ref = header_transaction_ref (sync_header n 0 a), vt_block_digest = Some (of_nat a) \<rparr> \<rparr>)
      (map fst (authorities_enum (example_committee n)))"
    by (simp add: genesis_blocks_def c case_prod_beta Let_def h d)
      (simp add: sync_context_def example_context_def example_committee_def h d)
  ultimately show ?thesis by simp
qed

lemma genesis_fold_lookup:
  assumes "\<And>a. reference (vb_header (f a)) = sync_ref 0 a"
  shows "bm_get (fold (\<lambda>b m. bm_insert (reference (vb_header b)) b m) (map f [0..<n]) []) ref =
    (if ref = sync_ref 0 (br_author ref) \<and> br_author ref < n then Some (f (br_author ref)) else None)"
  by (induction n) (auto simp: assms less_Suc_eq)

lemma sync_initial:
  assumes "0 < n" "n < 255"
  shows "\<exists>ds. dag_state_new sync_digest (sync_context n) mem_store_new = Some ds \<and> dag_ok ds \<and>
    ds_ctx ds = sync_context n \<and> last_commit ds = None \<and> highest_accepted_round ds = 0 \<and>
    header_of ds = sync_dag n (\<lambda>r a. False)"
proof -
  from dag_state_new_empty [OF sync_context_ok [OF assms], of sync_digest] obtain ds where
    ds: "dag_state_new sync_digest (sync_context n) mem_store_new = Some ds" "dag_ok ds" "ds_ctx ds = sync_context n"
      "last_commit ds = None" "ds = initial_state sync_digest (sync_context n) mem_store_new None
         (replicate (size_of (ctx_committee (sync_context n))) 0) scoring_subdag_new" by blast
  have gen: "ds_genesis ds = fold (\<lambda>b m. bm_insert (reference (vb_header b)) b m) (genesis_blocks sync_digest (sync_context n)) []"
    "recent_block_headers ds = []" "ms_block_headers (ds_store ds) = []" "highest_accepted_round ds = 0"
    by (simp_all add: ds(5) initial_state_def Let_def mem_store_new_def)
  have "header_of ds ref = sync_dag n (\<lambda>r a. False) ref" for ref
    unfolding header_of_def gen(1-3) sync_genesis [OF assms]
    by (subst genesis_fold_lookup) (auto simp: sync_dag_def GENESIS_ROUND_def)
  with ds(1-4) gen(4) show ?thesis by (simp add: fun_eq_iff)
qed

text \<open>Accepting one more header of the family.\<close>

lemma sync_accept:
  assumes ds: "dag_ok ds" "ds_ctx ds = sync_context n" "last_commit ds = None" "header_of ds = sync_dag n there"
    and r: "0 < r" "r \<le> u32_max" "a < n" "\<not> there r a"
  shows "\<exists>ds'. accept_block_header ds (sync_header n r a) source = Some ds' \<and> dag_ok ds' \<and>
    ds_ctx ds' = sync_context n \<and> last_commit ds' = None \<and> highest_accepted_round ds' = max (highest_accepted_round ds) r \<and>
    header_of ds' = sync_dag n (\<lambda>r' a'. there r' a' \<or> r' = r \<and> a' = a)"
proof -
  have fresh: "header_of ds (sync_ref r a) = None" using ds(4) r by (simp add: sync_dag_def)
  have "h \<notin> set (get_uncommitted_block_headers_at_slot ds (header_slot (sync_header n r a)))" for h
    using at_slot_view [OF ds(1), of "header_slot (sync_header n r a)"] ds(3,4) r
    by (auto simp: last_commit_round_def header_slot_def sync_dag_Some)
  then have slot: "get_uncommitted_block_headers_at_slot ds (header_slot (sync_header n r a)) = []"
    by (metis list.set_intros(1) neq_Nil_conv)
  have mem: "bh_author (sync_header n r a) \<in> members (ds_committee ds)"
    using ds(2) r by (simp add: sync_context_def example_context_def)
  obtain ds' where ds': "accept_block_header ds (sync_header n r a) source = Some ds'" "dag_ok ds'" "ds_ctx ds' = ds_ctx ds"
    "last_commit ds' = last_commit ds" "header_of ds' = (header_of ds)(sync_ref r a \<mapsto> sync_header n r a)"
    "highest_accepted_round ds' = max (highest_accepted_round ds) r"
    using accept_block_header_ok [OF ds(1) mem, of source] slot fresh r by (auto simp: header_fits_def)
  have "header_of ds' = sync_dag n (\<lambda>r' a'. there r' a' \<or> r' = r \<and> a' = a)"
  proof
    fix ref show "header_of ds' ref = sync_dag n (\<lambda>r' a'. there r' a' \<or> r' = r \<and> a' = a) ref"
      unfolding ds'(5) ds(4) using r by (auto simp: sync_dag_def)
  qed
  with ds' ds show ?thesis by simp
qed

lemma sync_accept_list:
  assumes "distinct xs" "\<forall>(r, a) \<in> set xs. 0 < r \<and> r \<le> u32_max \<and> a < n \<and> \<not> there r a"
    and "dag_ok ds" "ds_ctx ds = sync_context n" "last_commit ds = None" "header_of ds = sync_dag n there"
  shows "\<exists>ds'. accept_block_headers ds (map (\<lambda>(r, a). sync_header n r a) xs) source = Some ds' \<and> dag_ok ds' \<and>
    ds_ctx ds' = sync_context n \<and> last_commit ds' = None \<and>
    highest_accepted_round ds' = fold max (map fst xs) (highest_accepted_round ds) \<and>
    header_of ds' = sync_dag n (\<lambda>r a. there r a \<or> (r, a) \<in> set xs)"
  using assms
proof (induction xs arbitrary: ds there)
  case Nil
  then show ?case by (simp add: accept_block_headers_def)
next
  case (Cons x xs)
  obtain r a where x: "x = (r, a)" by (cases x)
  from sync_accept [OF Cons.prems(3-6), of r a source] Cons.prems(2) x obtain ds1 where
    ds1: "accept_block_header ds (sync_header n r a) source = Some ds1" "dag_ok ds1" "ds_ctx ds1 = sync_context n"
      "last_commit ds1 = None" "header_of ds1 = sync_dag n (\<lambda>r' a'. there r' a' \<or> r' = r \<and> a' = a)"
      "highest_accepted_round ds1 = max (highest_accepted_round ds) r" by auto
  have "\<exists>ds'. accept_block_headers ds1 (map (\<lambda>(r, a). sync_header n r a) xs) source = Some ds' \<and> dag_ok ds' \<and>
    ds_ctx ds' = sync_context n \<and> last_commit ds' = None \<and>
    highest_accepted_round ds' = fold max (map fst xs) (highest_accepted_round ds1) \<and>
    header_of ds' = sync_dag n (\<lambda>r' a'. (there r' a' \<or> r' = r \<and> a' = a) \<or> (r', a') \<in> set xs)"
    using Cons.prems(1,2) x by (intro Cons.IH ds1(2-5)) auto
  then show ?case using ds1(1,6) x by (simp add: accept_block_headers_def disj_ac max.commute)
qed

lemma fold_max_const: "xs \<noteq> [] \<Longrightarrow> set xs = {y} \<Longrightarrow> fold max xs x = max x (y :: nat)"
proof (induction xs arbitrary: x)
  case (Cons z xs)
  then have "xs \<noteq> [] \<Longrightarrow> set xs = {y}" by (metis list.set_intros(2) set_empty subset_singletonD subset_code(1))
  with Cons show ?case by (cases "xs = []") (auto simp: max.assoc max.commute)
qed simp

lemma sync_state_run:
  assumes n: "0 < n" "n < 255" "R \<le> u32_max"
  shows "\<exists>ds. sync_state n R = Some ds \<and> dag_ok ds \<and> ds_ctx ds = sync_context n \<and> last_commit ds = None \<and>
    highest_accepted_round ds = R \<and> header_of ds = sync_dag n (up_to R)"
proof -
  let ?xs = "concat (map (\<lambda>r. map (Pair r) [0..<n]) [1..<R + 1])"
  from sync_initial [OF n(1,2)] obtain ds0 where
    ds0: "dag_state_new sync_digest (sync_context n) mem_store_new = Some ds0" "dag_ok ds0" "ds_ctx ds0 = sync_context n"
      "last_commit ds0 = None" "header_of ds0 = sync_dag n (\<lambda>r a. False)" "highest_accepted_round ds0 = 0" by blast
  have "distinct (concat (map (\<lambda>r. map (Pair r) [0..<n]) rs))" if "distinct rs" for rs :: "nat list"
    using that by (induction rs) (auto simp: distinct_map inj_on_def)
  then have "distinct ?xs" by simp
  moreover have map: "map (\<lambda>(r, a). sync_header n r a) ?xs = sync_headers n R"
    by (simp add: sync_headers_def map_concat o_def)
  moreover have "\<forall>(r, a) \<in> set ?xs. 0 < r \<and> r \<le> u32_max \<and> a < n \<and> \<not> False" using n(3) by auto
  ultimately obtain ds where ds: "accept_block_headers ds0 (sync_headers n R) BlockBundleStream = Some ds" "dag_ok ds"
    "ds_ctx ds = sync_context n" "last_commit ds = None" "header_of ds = sync_dag n (\<lambda>r a. False \<or> (r, a) \<in> set ?xs)"
    "highest_accepted_round ds = fold max (map fst ?xs) (highest_accepted_round ds0)"
    using sync_accept_list [OF _ _ ds0(2-5), of ?xs BlockBundleStream] unfolding map by blast
  have "(r, a) \<in> set ?xs \<longleftrightarrow> 0 < r \<and> r \<le> R \<and> a < n" for r a
    by (auto simp del: upt_Suc intro!: bexI [of _ r])
  then have "sync_dag n (\<lambda>r a. False \<or> (r, a) \<in> set ?xs) ref = sync_dag n (up_to R) ref" for ref
    by (auto simp: sync_dag_def up_to_def simp del: upt_Suc set_concat)
  moreover have "fold max (map fst (concat (map (\<lambda>r. map (Pair r) [0..<n]) [1..<k + 1]))) 0 = k" for k
  proof (induction k)
    case (Suc k)
    have "fold max (map fst (map (Pair (Suc k)) [0..<n])) k = Suc k"
      using n(1) by (subst fold_max_const) (auto simp: map_replicate_const)
    with Suc show ?case by simp
  qed simp
  ultimately show ?thesis using ds ds0(1,6) by (auto simp: sync_state_def fun_eq_iff)
qed

lemma sync_state_view:
  assumes n: "0 < n" "n < 255" "R' \<le> u32_max" "R \<le> R'"
  shows "\<exists>ds. sync_state n R = Some ds \<and> last_commit ds = None \<and>
    view_ok (example_committee n) {..<n} (sync_dag n (up_to R')) ds"
proof -
  from sync_state_run [OF n(1,2), of R] n(3,4) obtain ds where
    ds: "sync_state n R = Some ds" "dag_ok ds" "ds_ctx ds = sync_context n" "last_commit ds = None"
      "header_of ds = sync_dag n (up_to R)" by auto
  have "sync_dag n (up_to R) r = Some h \<longrightarrow> sync_dag n (up_to R') r = Some h" for r h
    using n(4) by (auto simp: sync_dag_def up_to_def split: if_splits)
  then have "view_ok (example_committee n) {..<n} (sync_dag n (up_to R')) ds"
    unfolding view_ok_def using ds sync_bft_dag [OF n(1,2)] sync_wf_dag by (simp add: sync_context_def example_context_def)
  with ds show ?thesis by blast
qed

subsection \<open>Votes and certificates\<close>

lemma find_sync_ref:
  "a < n \<Longrightarrow> b < n \<Longrightarrow>
     find (\<lambda>x. slot_of x = slot_of (sync_ref r b)) (map (sync_ref r) (own_first n a)) = Some (sync_ref r b)"
proof -
  have "find (\<lambda>x. slot_of x = slot_of (sync_ref r b)) (map (sync_ref r) as) = (if b \<in> set as then Some (sync_ref r b) else None)" for as
    by (induction as) (auto simp: slot_of_def)
  then show "a < n \<Longrightarrow> b < n \<Longrightarrow> ?thesis" by (simp add: own_first_facts)
qed

lemma sync_votes:
  assumes "r < R" "a < n" "b < n"
  shows "votes_for (sync_dag n (up_to R)) (sync_ref (Suc r) a) (sync_ref r b)"
  unfolding votes_for_def using assms find_sync_ref [of a n b r]
  by (intro exI [of _ "sync_header n (Suc r) a"] exI [of _ "map (sync_ref r) (own_first n a)"]) (auto simp: sync_dag_def up_to_def)

lemma sync_certifies:
  assumes "0 < n" "n < 255" "r + 2 \<le> R" "a < n" "b < n"
  shows "certifies (sync_dag n (up_to R)) (example_committee n) (sync_ref (r + 2) a) (sync_ref r b)"
proof -
  have "voters (sync_dag n (up_to R)) (map (sync_ref (Suc r)) (own_first n a)) (sync_ref r b) = {..<n}"
  proof -
    have "{x \<in> set (map (sync_ref (Suc r)) (own_first n a)). votes_for (sync_dag n (up_to R)) x (sync_ref r b)} = sync_ref (Suc r) ` {..<n}"
      using assms sync_votes [of r R _ n b] by (auto simp: own_first_facts)
    then show ?thesis by (simp add: voters_def image_image)
  qed
  moreover have "reached_quorum (example_committee n) (stake_sum (example_committee n) {..<n})"
    using assms by (simp add: example_committee_stake reached_quorum_def) (simp add: example_committee_def)
  ultimately show ?thesis
    unfolding certifies_def using assms
    by (intro exI [of _ "sync_header n (r + 2) a"] exI [of _ "map (sync_ref (Suc r)) (own_first n a)"])
      (auto simp: sync_dag_def up_to_def)
qed

lemma sync_certified:
  assumes n: "0 < n" "n < 255" "r + 2 \<le> R" "b < n" and ds: "header_of ds = sync_dag n (up_to R)" "ds_ctx ds = sync_context n"
  shows "reached_quorum (example_committee n)
    (stake_sum (example_committee n) (bh_author ` view_certificates ds (sync_header n r b)))"
proof -
  have c: "ds_committee ds = example_committee n" using ds(2) by (simp add: sync_context_def example_context_def)
  have "view_certificates ds (sync_header n r b) = sync_header n (r + 2) ` {..<n}"
    using n sync_certifies [OF n(1-3) _ n(4)] unfolding view_certificates_def ds(1) c
    by (auto simp: sync_dag_Some up_to_def image_iff)
  then have "bh_author ` view_certificates ds (sync_header n r b) = {..<n}" by (simp add: image_image)
  then show ?thesis using n by (simp add: example_committee_stake reached_quorum_def) (simp add: example_committee_def)
qed

lemma sync_round_fits:
  assumes n: "0 < n" "n < 255" and ds: "dag_ok ds" "header_of ds = sync_dag n (up_to R)" "ds_ctx ds = sync_context n"
    "last_commit ds = None" and r: "0 < r"
  shows "round_fits ds r"
proof -
  have lc: "last_commit_round ds < r" using ds(4) r by (simp add: last_commit_round_def)
  from at_round_view [OF ds(1) lc] obtain hs where hs: "get_uncommitted_block_headers_at_round ds r = Some hs"
    "set hs = {h. header_of ds (reference h) = Some h \<and> bh_round h = r}" by blast
  have "distinct hs" using hs(1) dag_ok_recent [OF ds(1)] by (rule at_round_distinct)
  moreover have "set hs \<subseteq> sync_header n r ` {..<n}" using hs(2) ds(2) by (auto simp: sync_dag_Some)
  ultimately have "length hs \<le> card {..<n}"
    by (metis card_image_le card_mono distinct_card finite_imageI finite_lessThan order_trans)
  then have "length hs \<le> n" by simp
  have "length hs * n \<le> 254 * 254" using \<open>length hs \<le> n\<close> n(2) by (intro mult_le_mono) auto
  then show ?thesis using hs(1) ds(3) by (simp add: round_fits_def sync_context_def example_context_def example_committee_def)
qed

subsection \<open>Instances of the theorems on the DAG state and the commit rule\<close>

lemma sync_lookup: "header_of ds = sync_dag n (up_to R) \<Longrightarrow> get_verified_block_header ds = sync_dag n (up_to R)"
  by (rule ext) (simp add: dag_simps)

theorem contains_block_headers_witness:
  "\<exists>ds. sync_state 4 3 = Some ds \<and> contains_block_headers ds [sync_ref 2 1, BlockRef 3 0 99] =
    Some (map (\<lambda>h. h \<noteq> None) (get_verified_block_headers ds [sync_ref 2 1, BlockRef 3 0 99]))"
proof -
  from sync_state_run [of 4 3] obtain ds where ds: "sync_state 4 3 = Some ds" "dag_ok ds" "ds_ctx ds = sync_context 4"
    by (auto simp: u32_max_def)
  have "contains_block_headers ds [sync_ref 2 1, BlockRef 3 0 99] =
    Some (map (\<lambda>h. h \<noteq> None) (get_verified_block_headers ds [sync_ref 2 1, BlockRef 3 0 99]))"
    by (rule contains_block_headers_correct [OF ds(2)]) (simp add: ds(3) sync_context_def example_context_def)
  with ds(1) show ?thesis by blast
qed

theorem accept_block_header_witness:
  "\<exists>ds ds'. sync_state 4 3 = Some ds \<and> accept_block_header ds (sync_header 4 4 2) BlockBundleStream = Some ds' \<and> dag_ok ds' \<and>
    (\<forall>r. get_verified_block_header ds' r =
       (if r = reference (sync_header 4 4 2) \<and> get_verified_block_header ds r = None then Some (sync_header 4 4 2)
        else get_verified_block_header ds r))"
proof -
  from sync_state_run [of 4 3] obtain ds where ds: "sync_state 4 3 = Some ds" "dag_ok ds" "ds_ctx ds = sync_context 4"
    by (auto simp: u32_max_def)
  have "\<exists>ds'. accept_block_header ds (sync_header 4 4 2) BlockBundleStream = Some ds' \<and> dag_ok ds' \<and>
    (\<forall>r. get_verified_block_header ds' r =
       (if r = reference (sync_header 4 4 2) \<and> get_verified_block_header ds r = None then Some (sync_header 4 4 2)
        else get_verified_block_header ds r))"
    by (rule accept_block_header_correct [OF ds(2)]) (simp_all add: ds(3) sync_context_def example_context_def header_fits_def u32_max_def)
  with ds(1) show ?thesis by blast
qed

theorem flush_keeps_headers_witness:
  "\<exists>ds ds'. sync_state 4 3 = Some ds \<and> flush ds = Some ds' \<and>
    bm_get (ms_block_headers (ds_store ds')) (sync_ref 2 1) = Some (sync_header 4 2 1)"
proof -
  from sync_state_run [of 4 3] obtain ds where ds: "sync_state 4 3 = Some ds" "dag_ok ds" "header_of ds = sync_dag 4 (up_to 3)"
    by (auto simp: u32_max_def)
  from flush_keeps_headers [OF ds(2)] obtain ds' where ds': "flush ds = Some ds'"
    "\<forall>r h. get_verified_block_header ds r = Some h \<and> br_round r \<noteq> 0 \<longrightarrow> bm_get (ms_block_headers (ds_store ds')) r = Some h"
    by blast
  have "get_verified_block_header ds (sync_ref 2 1) = Some (sync_header 4 2 1)"
    unfolding sync_lookup [OF ds(3)] by (simp add: sync_dag_def up_to_def)
  with ds' ds(1) show ?thesis by auto
qed

definition example_commit :: trusted_commit where
  "example_commit = \<lparr> tcm_inner = CommitV1 \<lparr> c1_index = 1, c1_previous_digest = 0, c1_timestamp_ms = 0,
     c1_leader = sync_ref 1 1, c1_blocks = [sync_ref 1 1], c1_committed_transactions = [] \<rparr>, tcm_digest = 7 \<rparr>"

theorem add_commit_witness:
  "\<exists>ds ds'. sync_state 4 3 = Some ds \<and> add_commit ds example_commit = Some ds' \<and> last_commit_index ds' = 1"
proof -
  from sync_state_run [of 4 3] obtain ds where ds: "sync_state 4 3 = Some ds" "dag_ok ds" "last_commit ds = None"
    "header_of ds = sync_dag 4 (up_to 3)" by (auto simp: u32_max_def)
  have "header_of ds (sync_ref 1 1) = Some (sync_header 4 1 1)" by (simp add: ds(4) sync_dag_def up_to_def)
  then have "bm_get (recent_block_headers ds) (sync_ref 1 1) = Some (sync_header 4 1 1)"
    using recent_above_commit [OF ds(2), of "sync_ref 1 1"] ds(3) by (simp add: last_commit_round_def)
  then have "next_commit ds example_commit"
    using ds(3) by (simp add: next_commit_def example_commit_def last_commit_index_def last_commit_timestamp_ms_def
        last_commit_round_def commit_round_def)
  with add_commit_correct [OF ds(2), of example_commit] ds(3) have "\<exists>ds'. add_commit ds example_commit = Some ds' \<and> last_commit_index ds' = 1"
    by (auto simp: last_commit_index_def)
  with ds(1) show ?thesis by blast
qed

theorem dag_state_new_witness:
  "\<exists>ds. dag_state_new sync_digest (sync_context 4) mem_store_new = Some ds \<and> dag_ok ds \<and> last_commit_index ds = 0 \<and>
    (\<forall>r. get_verified_block_header ds r =
       (if br_round r = 0 then map_option vb_header (find (\<lambda>b. reference (vb_header b) = r) (rev (genesis_blocks sync_digest (sync_context 4))))
        else None))"
  by (rule dag_state_new_correct) (simp add: sync_context_ok)

theorem take_acknowledgments_witness:
  "\<exists>ds. dag_state_new sync_digest (sync_context 4) mem_store_new = Some ds \<and>
    hd (fst (take_acknowledgments (snd (take_acknowledgments
      (ds\<lparr> pending_acknowledgments := [sync_ref 1 1, sync_ref 1 2], ds_threshold_clock := tc_new 3 \<rparr>) 5)) 5)) = sync_ref 1 2"
proof -
  from sync_initial [of 4] obtain ds where ds: "dag_state_new sync_digest (sync_context 4) mem_store_new = Some ds"
    "ds_ctx ds = sync_context 4" by auto
  let ?ds = "ds\<lparr> pending_acknowledgments := [sync_ref 1 1, sync_ref 1 2], ds_threshold_clock := tc_new 3 \<rparr>"
  have inv: "bs_invar (pending_acknowledgments ?ds)" by (simp add: bs_invar_def sync_ref_def less_block_ref_def)
  have taken: "fst (take_acknowledgments ?ds 5) = [sync_ref 1 1, sync_ref 1 2]"
    by (simp add: take_acknowledgments_def evict_pending_acknowledgments_def Let_def threshold_clock_round_def
        bs_split_off_def ds(2) sync_context_def example_context_def less_eq_block_ref_def)
  then have "hd (fst (take_acknowledgments (snd (take_acknowledgments ?ds 5)) 5)) = sync_ref 1 2"
    using take_acknowledgments_repeats_last [OF inv surjective_pairing, of 5 5] by simp
  with ds(1) show ?thesis by blast
qed

theorem ancestors_at_round_witness:
  "\<exists>ds hs. sync_state 4 3 = Some ds \<and> ancestors_at_round ds (sync_header 4 3 0) 1 = Some hs \<and> sync_header 4 1 2 \<in> set hs"
proof -
  from sync_state_run [of 4 3] obtain ds where ds: "sync_state 4 3 = Some ds" "header_of ds = sync_dag 4 (up_to 3)"
    by (auto simp: u32_max_def)
  let ?G = "sync_dag 4 (up_to 3)"
  note get = sync_lookup [OF ds(2)]
  have there: "?G (sync_ref r a) = Some (sync_header 4 r a)" if "r \<le> 3" "a < 4" for r a
    using that by (simp add: sync_dag_def up_to_def)
  have wf: "wf_dag (get_verified_block_header ds)" unfolding get by (rule sync_wf_dag)
  have h: "get_verified_block_header ds (reference (sync_header 4 3 0)) = Some (sync_header 4 3 0)"
    unfolding get by (simp add: there)
  have "reaches ?G (sync_ref 3 0) (sync_ref 2 0)"
    by (rule reaches.intros(2) [OF reaches.intros(1), where h = "sync_header 4 3 0"]) (auto simp: there own_first_facts)
  then have "reaches ?G (sync_ref 3 0) (sync_ref 1 2)"
    by (rule reaches.intros(2) [where h = "sync_header 4 2 0"]) (auto simp: there own_first_facts)
  then have r: "reaches (get_verified_block_header ds) (reference (sync_header 4 3 0)) (reference (sync_header 4 1 2))"
    unfolding get by simp
  have x: "get_verified_block_header ds (reference (sync_header 4 1 2)) = Some (sync_header 4 1 2)"
    unfolding get by (simp add: there)
  from ancestors_at_round_correct [OF wf h, of 1] x r show ?thesis using ds(1) by auto
qed

theorem find_supported_block_witness:
  "\<exists>s. find_supported_block (sync_dag 4 (up_to 3)) (Slot 1 2) (sync_header 4 3 0) = Some s \<and>
    (\<forall>b. s = Some b \<longrightarrow> slot_of b = Slot 1 2 \<and> reaches (sync_dag 4 (up_to 3)) (reference (sync_header 4 3 0)) b)"
  by (rule find_supported_block_terminates [OF sync_wf_dag]) (simp add: sync_dag_def up_to_def)

theorem is_certificate_cache_witness:
  "\<exists>cache' cache''. is_certificate (sync_dag 4 (up_to 3)) (example_committee 4) (sync_header 4 3 0) (sync_header 4 1 2)
      [sync_ref 2 0 \<mapsto> True] = Some (certifies (sync_dag 4 (up_to 3)) (example_committee 4) (reference (sync_header 4 3 0))
        (reference (sync_header 4 1 2)), cache') \<and>
    is_certificate (sync_dag 4 (up_to 3)) (example_committee 4) (sync_header 4 3 0) (sync_header 4 1 2) Map.empty =
      Some (certifies (sync_dag 4 (up_to 3)) (example_committee 4) (reference (sync_header 4 3 0)) (reference (sync_header 4 1 2)), cache'') \<and>
    cache_ok (sync_dag 4 (up_to 3)) (reference (sync_header 4 1 2)) cache'"
proof (rule is_certificate_cache_irrelevant)
  show "member_dag (example_committee 4) (sync_dag 4 (up_to 3))" by (rule bft_member_dag [OF sync_bft_dag]) simp_all
  show "cache_ok (sync_dag 4 (up_to 3)) (reference (sync_header 4 1 2)) [sync_ref 2 0 \<mapsto> True]"
    using sync_votes [of 1 3 0 4 2] by (simp add: cache_ok_def numeral_2_eq_2)
qed (simp_all add: sync_dag_def up_to_def)

theorem certificates_unique_witness:
  "map_option fst (is_certificate (sync_dag 4 (up_to 3)) (example_committee 4) (sync_header 4 3 0) (sync_header 4 1 2) Map.empty) = Some True \<and>
   map_option fst (is_certificate (sync_dag 4 (up_to 3)) (example_committee 4) (sync_header 4 3 1) (sync_header 4 1 2) Map.empty) = Some True \<and>
   reference (sync_header 4 1 2) = reference (sync_header 4 1 2)"
proof -
  have bft: "bft_dag (example_committee 4) {..<4} (sync_dag 4 (up_to 3))" by (rule sync_bft_dag) simp_all
  have p: "sync_dag 4 (up_to 3) (reference (sync_header 4 3 0)) = Some (sync_header 4 3 0)"
    "sync_dag 4 (up_to 3) (reference (sync_header 4 3 1)) = Some (sync_header 4 3 1)" by (simp_all add: sync_dag_def up_to_def)
  have cert: "certifies (sync_dag 4 (up_to 3)) (example_committee 4) (sync_ref 3 0) (sync_ref 1 2)"
    "certifies (sync_dag 4 (up_to 3)) (example_committee 4) (sync_ref 3 1) (sync_ref 1 2)"
    using sync_certifies [of 4 1 3 0 2] sync_certifies [of 4 1 3 1 2] by (simp_all add: numeral_3_eq_3)
  have "map_option fst (is_certificate (sync_dag 4 (up_to 3)) (example_committee 4) (sync_header 4 3 0) (sync_header 4 1 2) Map.empty) = Some True"
    using is_certificate_spec [OF bft_member_dag [OF bft] p(1) _ cache_ok_empty, of "sync_header 4 1 2"] cert(1) by auto
  moreover have "map_option fst (is_certificate (sync_dag 4 (up_to 3)) (example_committee 4) (sync_header 4 3 1) (sync_header 4 1 2) Map.empty) = Some True"
    using is_certificate_spec [OF bft_member_dag [OF bft] p(2) _ cache_ok_empty, of "sync_header 4 1 2"] cert(2) by auto
  ultimately show ?thesis using certificates_unique [OF bft p _ _ _ _ refl, of "sync_header 4 1 2"] by simp
qed

end
