(* ===== verification/Block_Manager.thy ===== *)
theory Block_Manager
  imports Block_Suspender Synchronous_Dag "HOL-Library.Product_Lexorder" "HOL-Library.List_Lexorder"
begin

section \<open>The block manager\<close>

text \<open>
  \<open>crates/starfish/core/src/block_manager/mod.rs\<close>: connects received headers and blocks to the
  DAG. A batch is filtered, its missing ancestors are looked up in the DAG state, and what the
  suspender accepts is written to the DAG state together with its transactions. The DAG state is
  an argument. The map keyed by headers uses their derived lexicographic order; the signature,
  which is part of it, is the parameter \<open>sig\<close>. Main result: the DAG stays causally complete, and
  exactly the headers with a missing ancestor stay suspended.
\<close>

instantiation commit_ref :: linorder
begin

definition less_eq_commit_ref :: "commit_ref \<Rightarrow> commit_ref \<Rightarrow> bool" where
  "a \<le> b \<longleftrightarrow> cr_index a < cr_index b \<or> cr_index a = cr_index b \<and> cr_digest a \<le> cr_digest b"

definition less_commit_ref :: "commit_ref \<Rightarrow> commit_ref \<Rightarrow> bool" where
  "a < b \<longleftrightarrow> a \<le> b \<and> \<not> b \<le> (a :: commit_ref)"

instance
  by standard (auto simp: less_eq_commit_ref_def less_commit_ref_def commit_ref.expand)

end

type_synonym header_map = "(verified_block_header \<times> block_ref btreeset) list"

definition header_key ::
  "(verified_block_header \<Rightarrow> 8 word list) \<Rightarrow> verified_block_header \<Rightarrow>
     nat \<times> round \<times> authority_index \<times> timestamp_ms \<times> block_ref list \<times> nat \<times> nat \<times> digest \<times> commit_ref list \<times> 8 word list \<times> digest"
where
  "header_key sig h = (bh_epoch h, bh_round h, bh_author h, bh_timestamp_ms h, bh_references h,
     overlap_start_index h, overlap_end_index h, bh_transactions_commitment h, bh_commit_votes h, sig h, vbh_digest h)"

fun hm_insert ::
  "(verified_block_header \<Rightarrow> 8 word list) \<Rightarrow> verified_block_header \<Rightarrow> block_ref btreeset \<Rightarrow> header_map \<Rightarrow> header_map" where
  "hm_insert sig h v [] = [(h, v)]"
| "hm_insert sig h v ((h', v') # m) =
     (if header_key sig h < header_key sig h' then (h, v) # (h', v') # m
      else if header_key sig h = header_key sig h' then (h', v) # m
      else (h', v') # hm_insert sig h v m)"

record block_manager =
  blm_context :: consensus_context
  suspended_transactions :: "(block_ref, verified_transactions) btreemap"
  blm_suspender :: block_suspender
  received_block_rounds :: "(round \<times> round) option list"

definition block_manager_new :: "consensus_context \<Rightarrow> block_manager" where
  "block_manager_new ctx =
     \<lparr> blm_context = ctx, suspended_transactions = [], blm_suspender = block_suspender_new ctx,
       received_block_rounds = replicate (size_of (ctx_committee ctx)) None \<rparr>"

definition block_manager_reinitialize :: "block_manager \<Rightarrow> block_manager" where
  "block_manager_reinitialize bm = bm\<lparr> suspended_transactions := [], blm_suspender := suspender_reinitialize (blm_suspender bm),
     received_block_rounds := replicate (size_of (ctx_committee (blm_context bm))) None \<rparr>"

definition present_header_and_ancestor_refs_in_dag_state ::
  "dag_state \<Rightarrow> verified_block_header list \<Rightarrow> block_ref btreeset option" where
  "present_header_and_ancestor_refs_in_dag_state ds hs = do {
     rs \<leftarrow> mapM (\<lambda>h. do { ancs \<leftarrow> ancestors h; Some (reference h # ancs) }) hs;
     let refs = remdups_adj (sort (concat rs));
     flags \<leftarrow> contains_block_headers ds refs;
     Some (bs_from_list (map fst (filter snd (zip refs flags)))) }"

definition filter_out_already_processed_and_sort ::
  "block_manager \<Rightarrow> verified_block_header list \<Rightarrow> block_ref btreeset \<Rightarrow> verified_block_header list option" where
  "filter_out_already_processed_and_sort bm hs present = do {
     kept \<leftarrow> filterM (\<lambda>h.
         if reference h \<in> set present \<or> is_block_ref_suspended (blm_suspender bm) (reference h)
         then do { authority_at (ctx_committee (blm_context bm)) (bh_author h); Some False }
         else Some True) hs;
     Some (sort_key bh_round kept) }"

definition update_block_received_metrics :: "block_manager \<Rightarrow> verified_block_header \<Rightarrow> block_manager option" where
  "update_block_received_metrics bm h = do {
     old \<leftarrow> vec_get (received_block_rounds bm) (bh_author h);
     let rounds = (case old of
         Some (lo, hi) \<Rightarrow> (min lo (bh_round h), max hi (bh_round h))
       | None \<Rightarrow> (bh_round h, bh_round h));
     received \<leftarrow> vec_set (received_block_rounds bm) (bh_author h) (Some rounds);
     authority_at (ctx_committee (blm_context bm)) (bh_author h);
     Some (bm\<lparr> received_block_rounds := received \<rparr>) }"

definition find_missing_ancestors ::
  "(verified_block_header \<Rightarrow> 8 word list) \<Rightarrow> verified_block_header list \<Rightarrow> block_ref btreeset \<Rightarrow> header_map option" where
  "find_missing_ancestors sig hs present =
     foldM (\<lambda>m h. do {
         ancs \<leftarrow> ancestors h;
         Some (hm_insert sig h (bs_from_list (filter (\<lambda>a. a \<notin> set present) ancs)) m) }) [] hs"

definition process_block_headers ::
  "(verified_block_header \<Rightarrow> 8 word list) \<Rightarrow> block_manager \<Rightarrow> verified_block_header list \<Rightarrow> block_ref btreeset
     \<Rightarrow> (block_manager \<times> verified_block_header list \<times> block_ref btreeset) option"
where
  "process_block_headers sig bm hs present = do {
     kept \<leftarrow> filter_out_already_processed_and_sort bm hs present;
     bm1 \<leftarrow> foldM update_block_received_metrics bm kept;
     missing \<leftarrow> find_missing_ancestors sig kept present;
     (bs, accepted, to_fetch) \<leftarrow> accept_or_suspend_received_headers (blm_suspender bm1) missing;
     Some (bm1\<lparr> blm_suspender := bs \<rparr>, accepted, to_fetch) }"

definition take_suspended_transactions ::
  "block_manager \<times> verified_transactions list \<Rightarrow> block_ref \<Rightarrow> block_manager \<times> verified_transactions list" where
  "take_suspended_transactions st r =
     (case bm_get (suspended_transactions (fst st)) r of
        None \<Rightarrow> st
      | Some t \<Rightarrow> ((fst st)\<lparr> suspended_transactions := bm_remove r (suspended_transactions (fst st)) \<rparr>, snd st @ [t]))"

definition sort_block_transactions ::
  "block_ref set \<Rightarrow> block_manager \<times> verified_transactions list \<Rightarrow> verified_block \<Rightarrow> block_manager \<times> verified_transactions list" where
  "sort_block_transactions accepted st b =
     (let r = reference (vb_header b) in
      if r \<in> accepted then (fst st, snd st @ [vb_transactions b])
      else if has_transactions (vb_transactions b)
      then ((fst st)\<lparr> suspended_transactions := bm_insert r (vb_transactions b) (suspended_transactions (fst st)) \<rparr>, snd st)
      else st)"

definition resolve_transactions ::
  "block_manager \<Rightarrow> verified_block_header list \<Rightarrow> block_ref btreeset \<Rightarrow> verified_block list option
     \<Rightarrow> block_manager \<times> verified_transactions list" where
  "resolve_transactions bm accepted present blocks =
     (let refs = bs_from_list (map reference accepted);
          (bm1, txs) = foldl take_suspended_transactions (bm, []) refs in
      case blocks of
        None \<Rightarrow> (bm1, txs)
      | Some bls \<Rightarrow>
          (let (bm2, new) = foldl (sort_block_transactions (set refs \<union> set present)) (bm1, []) bls in (bm2, txs @ new)))"

definition write_block_headers_and_transactions_to_dag_state ::
  "dag_state \<Rightarrow> verified_block_header list \<Rightarrow> verified_transactions list \<Rightarrow> data_source \<Rightarrow> dag_state option" where
  "write_block_headers_and_transactions_to_dag_state ds hs txs source = do {
     ds1 \<leftarrow> accept_block_headers ds hs source;
     foldM (\<lambda>ds t. add_transactions ds t source) ds1 txs }"

definition try_accept_block_headers ::
  "(verified_block_header \<Rightarrow> 8 word list) \<Rightarrow> block_manager \<Rightarrow> dag_state \<Rightarrow> verified_block_header list \<Rightarrow> data_source
     \<Rightarrow> (verified_block_header list \<times> block_ref btreeset \<times> block_manager \<times> dag_state) option"
where
  "try_accept_block_headers sig bm ds hs source = do {
     present \<leftarrow> present_header_and_ancestor_refs_in_dag_state ds hs;
     (bm1, accepted, to_fetch) \<leftarrow> process_block_headers sig bm hs present;
     let (bm2, txs) = resolve_transactions bm1 accepted present None;
     ds' \<leftarrow> write_block_headers_and_transactions_to_dag_state ds accepted txs source;
     Some (accepted, to_fetch, bm2, ds') }"

definition try_accept_blocks ::
  "(verified_block_header \<Rightarrow> 8 word list) \<Rightarrow> block_manager \<Rightarrow> dag_state \<Rightarrow> verified_block list \<Rightarrow> data_source
     \<Rightarrow> (verified_block_header list \<times> block_ref btreeset \<times> block_manager \<times> dag_state) option"
where
  "try_accept_blocks sig bm ds blocks source = do {
     let hs = map vb_header blocks;
     present \<leftarrow> present_header_and_ancestor_refs_in_dag_state ds hs;
     (bm1, accepted, to_fetch) \<leftarrow> process_block_headers sig bm hs present;
     let (bm2, txs) = resolve_transactions bm1 accepted present (Some blocks);
     ds' \<leftarrow> write_block_headers_and_transactions_to_dag_state ds accepted txs source;
     Some (accepted, to_fetch, bm2, ds') }"

definition blocks_to_fetch :: "block_manager \<Rightarrow> (block_ref, authority_index btreeset) btreemap" where
  "blocks_to_fetch bm = headers_to_fetch (blm_suspender bm)"

subsection \<open>Writing to the DAG state\<close>

definition known :: "dag_state \<Rightarrow> block_ref set" where
  "known ds = {r. header_of ds r \<noteq> None}"

text \<open>
  What the block verifier establishes of a header (\<open>verified_well_formed\<close> in \<open>Verified_Headers\<close>), and a
  header of another authority whose acknowledgments can be read as well. The verifier does not check the
  index \<open>overlap_start_index\<close> that \<open>acknowledgments\<close> slices with, so this is a condition of its own.
\<close>

definition well_formed :: "consensus_context \<Rightarrow> verified_block_header \<Rightarrow> bool" where
  "well_formed ctx h =
     (bh_author h \<in> members (ctx_committee ctx) \<and> bh_round h \<noteq> 0 \<and> header_fits h \<and>
      (\<exists>ancs. ancestors h = Some ancs \<and> (\<forall>a \<in> set ancs. br_author a \<in> members (ctx_committee ctx) \<and> br_round a < bh_round h)))"

definition acceptable :: "consensus_context \<Rightarrow> verified_block_header \<Rightarrow> bool" where
  "acceptable ctx h = (well_formed ctx h \<and> bh_author h \<noteq> own_index ctx \<and> acknowledgments h \<noteq> None)"

text \<open>The DAG state takes the headers, and they are what it has more than before.\<close>

definition takes_headers :: "dag_state \<Rightarrow> verified_block_header list \<Rightarrow> data_source \<Rightarrow> bool" where
  "takes_headers ds hs source =
     (\<exists>ds'. accept_block_headers ds hs source = Some ds' \<and> dag_ok ds' \<and> ds_ctx ds' = ds_ctx ds \<and> last_commit ds' = last_commit ds \<and>
        (\<forall>r h. header_of ds' r = Some h \<longleftrightarrow> header_of ds r = Some h \<or> h \<in> set hs \<and> reference h = r))"

lemma accept_block_headers_run:
  assumes "dag_ok ds" "\<forall>h \<in> set hs. acceptable (ds_ctx ds) h" "distinct (map reference hs)" "reference ` set hs \<inter> known ds = {}"
  shows "takes_headers ds hs source"
  unfolding takes_headers_def
  using assms
proof (induction hs arbitrary: ds)
  case Nil
  then show ?case by (simp add: accept_block_headers_def)
next
  case (Cons h hs)
  have h: "bh_author h \<in> members (ds_committee ds)" "bh_round h \<noteq> 0" "header_fits h" "acknowledgments h \<noteq> None"
    "bh_author h \<noteq> own_index (ds_ctx ds)" using Cons.prems(2) by (auto simp: acceptable_def well_formed_def)
  have fresh: "header_of ds (reference h) = None" using Cons.prems(4) by (auto simp: known_def)
  from accept_block_header_ok [OF Cons.prems(1) h(1-4), of source] h(5) fresh obtain ds1 where
    1: "accept_block_header ds h source = Some ds1" "dag_ok ds1" "ds_ctx ds1 = ds_ctx ds" "last_commit ds1 = last_commit ds"
      "header_of ds1 = (header_of ds)(reference h \<mapsto> h)" by auto
  have "reference h \<notin> reference ` set hs" "reference ` set hs \<inter> known ds = {}" using Cons.prems(3,4) by auto
  moreover have "known ds1 = insert (reference h) (known ds)" by (auto simp: known_def 1(5))
  ultimately have "reference ` set hs \<inter> known ds1 = {}" by simp
  with Cons.IH [OF 1(2)] Cons.prems(2,3) 1(3) obtain ds2 where
    2: "accept_block_headers ds1 hs source = Some ds2" "dag_ok ds2" "ds_ctx ds2 = ds_ctx ds" "last_commit ds2 = last_commit ds1"
      "\<forall>r h. header_of ds2 r = Some h \<longleftrightarrow> header_of ds1 r = Some h \<or> h \<in> set hs \<and> reference h = r" by auto
  have "header_of ds2 r = Some g \<longleftrightarrow> header_of ds r = Some g \<or> g \<in> set (h # hs) \<and> reference g = r" for r g
    using 2(5) fresh by (auto simp: 1(5) split: if_splits)
  with 1 2 show ?case by (auto simp: accept_block_headers_def)
qed

text \<open>The transactions are among the recent ones of their author.\<close>

definition recorded :: "dag_state \<Rightarrow> verified_transactions \<Rightarrow> bool" where
  "recorded ds t =
     (case transactions_gtr (ds_fast ds) t of
        None \<Rightarrow> False
      | Some g \<Rightarrow> bm_contains_key (recent_transactions_by_authority ds ! tr_author (vt_transaction_ref t)) g)"

lemma recorded_insert:
  assumes "a < length (recent_transactions_by_authority ds)" "ds_ctx ds' = ds_ctx ds"
    "recent_transactions_by_authority ds' = (recent_transactions_by_authority ds)[a := bm_insert g t (recent_transactions_by_authority ds ! a)]"
  shows "recorded ds u \<Longrightarrow> recorded ds' u" "transactions_gtr (ds_fast ds) t = Some g \<Longrightarrow> a = tr_author (vt_transaction_ref t) \<Longrightarrow> recorded ds' t"
  using assms by (auto simp: recorded_def bm_contains_key_def nth_list_update split: option.splits)

lemma add_transactions_run:
  assumes ok: "dag_ok ds" and t: "tr_author (vt_transaction_ref t) \<in> members (ds_committee ds)"
  shows "\<exists>ds'. add_transactions ds t source = Some ds' \<and> dag_ok ds' \<and> ds_ctx ds' = ds_ctx ds \<and>
    last_commit ds' = last_commit ds \<and> header_of ds' = header_of ds \<and>
    (\<forall>u. recorded ds u \<longrightarrow> recorded ds' u) \<and> (vt_block_digest t \<noteq> None \<longrightarrow> recorded ds' t)"
proof (cases "transactions_gtr (ds_fast ds) t")
  case None
  with ok show ?thesis by (simp add: add_transactions_def transactions_gtr_def vt_block_ref_def split: if_splits)
next
  case (Some g)
  let ?a = "tr_author (vt_transaction_ref t)"
  have a: "?a < length (recent_transactions_by_authority ds)" "?a < length (tx_ref_to_block_digest_by_authority ds)"
    "?a < length (authorities (ds_committee ds))" using ok t by (simp_all add: dag_ok_def members_def size_of_def)
  let ?txs = "(recent_transactions_by_authority ds)[?a := bm_insert g t (recent_transactions_by_authority ds ! ?a)]"
  let ?ds = "\<lambda>acks. ds\<lparr> recent_transactions_by_authority := ?txs, pending_acknowledgments := acks \<rparr>"
  let ?ack = "has_transactions t \<and> threshold_clock_round ds - gc_depth (ds_ctx ds) \<le> tr_round (vt_transaction_ref t) \<and>
    source \<notin> {FastCommitSyncer, CommitSyncer, Recover}"
  have "\<exists>acks. update_transaction_metadata ds t source = Some (?ds acks)"
  proof (cases ?ack)
    case True
    then have "update_transaction_metadata ds t source =
        add_pending_acknowledgment (ds\<lparr> recent_transactions_by_authority := ?txs \<rparr>) (vt_transaction_ref t) (map_option br_digest (vt_block_ref t))"
      using a Some by (simp add: update_transaction_metadata_def update_vec_def Let_def threshold_clock_round_def authority_at_def)
    also have "\<exists>acks. \<dots> = Some (?ds acks)"
      using a(2) by (auto simp: add_pending_acknowledgment_def resolve_block_ref_def split: option.splits
          intro: exI [of _ "pending_acknowledgments ds"])
    finally show ?thesis .
  next
    case False
    then have "update_transaction_metadata ds t source = Some (?ds (pending_acknowledgments ds))"
      using a Some by (auto simp: update_transaction_metadata_def update_vec_def Let_def threshold_clock_round_def authority_at_def)
    then show ?thesis ..
  qed
  then obtain acks where upd: "update_transaction_metadata ds t source = Some (?ds acks)" ..
  have auth: "authority_at (ds_committee ds) ?a \<noteq> None" using a(3) by (simp add: authority_at_def)
  show ?thesis
  proof (cases "bm_contains_key (recent_transactions_by_authority ds ! ?a) g")
    case True
    with Some a(1) auth ok show ?thesis by (auto simp: add_transactions_def recorded_def)
  next
    case False
    let ?ds' = "(?ds acks)\<lparr> transactions_to_write := transactions_to_write (?ds acks) @ [t] \<rparr>"
    have "add_transactions ds t source = Some ?ds'" using False Some a(1) upd by (simp add: add_transactions_def)
    moreover have "dag_ok ?ds'" using ok Some by (auto simp: dag_ok_def last_commit_round_def)
    moreover have "header_of ?ds' = header_of ds" by (rule header_of_cong) simp_all
    moreover have "recorded ds u \<Longrightarrow> recorded ?ds' u" "recorded ?ds' t" for u
      using recorded_insert [of ?a ds ?ds' g t] a(1) Some by simp_all
    ultimately show ?thesis by simp
  qed
qed

lemma add_transactions_all:
  assumes "dag_ok ds" "\<forall>t \<in> set txs. tr_author (vt_transaction_ref t) \<in> members (ds_committee ds) \<and> vt_block_digest t \<noteq> None"
  shows "\<exists>ds'. foldM (\<lambda>ds t. add_transactions ds t source) ds txs = Some ds' \<and> dag_ok ds' \<and> ds_ctx ds' = ds_ctx ds \<and>
    last_commit ds' = last_commit ds \<and> header_of ds' = header_of ds \<and>
    (\<forall>u. recorded ds u \<or> u \<in> set txs \<longrightarrow> recorded ds' u)"
  using assms
proof (induction txs arbitrary: ds)
  case (Cons t txs)
  from add_transactions_run [OF Cons.prems(1), of t source] Cons.prems(2) obtain ds1 where
    1: "add_transactions ds t source = Some ds1" "dag_ok ds1" "ds_ctx ds1 = ds_ctx ds" "last_commit ds1 = last_commit ds"
      "header_of ds1 = header_of ds" "\<forall>u. recorded ds u \<longrightarrow> recorded ds1 u" "recorded ds1 t" by auto
  from Cons.IH [OF 1(2)] Cons.prems(2) 1(3) obtain ds2 where
    "foldM (\<lambda>ds t. add_transactions ds t source) ds1 txs = Some ds2" "dag_ok ds2" "ds_ctx ds2 = ds_ctx ds1"
    "last_commit ds2 = last_commit ds1" "header_of ds2 = header_of ds1" "\<forall>u. recorded ds1 u \<or> u \<in> set txs \<longrightarrow> recorded ds2 u" by auto
  with 1 show ?case by (intro exI [of _ ds2]) auto
qed simp

subsection \<open>Preparing a batch\<close>

lemma present_refs:
  assumes "dag_ok ds" "\<forall>h \<in> set hs. well_formed (ds_ctx ds) h"
  shows "\<exists>present. present_header_and_ancestor_refs_in_dag_state ds hs = Some present \<and>
    (\<forall>h \<in> set hs. (reference h \<in> set present \<longleftrightarrow> reference h \<in> known ds) \<and>
       (\<forall>ancs. ancestors h = Some ancs \<longrightarrow> (\<forall>a \<in> set ancs. a \<in> set present \<longleftrightarrow> a \<in> known ds)))"
proof -
  let ?f = "\<lambda>h. do { ancs \<leftarrow> ancestors h; Some (reference h # ancs) }"
  have "\<forall>h \<in> set hs. ?f h \<noteq> None" using assms(2) by (auto simp: well_formed_def)
  then obtain rs where rs: "mapM ?f hs = Some rs" using mapM_total [of hs ?f] by blast
  let ?refs = "remdups_adj (sort (concat rs))"
  have mem: "r \<in> set ?refs \<longleftrightarrow> (\<exists>h \<in> set hs. \<exists>ancs. ancestors h = Some ancs \<and> (r = reference h \<or> r \<in> set ancs))" for r
    using mapM_set [OF rs] assms(2) by (fastforce simp: well_formed_def Option.bind_eq_Some_conv)
  have "\<forall>r \<in> set ?refs. br_author r \<in> members (ds_committee ds)"
  proof
    fix r assume "r \<in> set ?refs"
    with mem obtain h ancs where "h \<in> set hs" "ancestors h = Some ancs" "r = reference h \<or> r \<in> set ancs" by blast
    with assms(2) show "br_author r \<in> members (ds_committee ds)" by (auto simp: well_formed_def)
  qed
  from contains_block_headers_exact [OF assms(1) this] have
    flags: "contains_block_headers ds ?refs = Some (map (\<lambda>r. r \<in> known ds) ?refs)" by (simp add: known_def)
  have "set (map fst (filter snd (zip xs (map P xs)))) = {x \<in> set xs. P x}" for P :: "block_ref \<Rightarrow> bool" and xs
    by (induction xs) auto
  with rs flags have "present_header_and_ancestor_refs_in_dag_state ds hs =
      Some (bs_from_list (map fst (filter snd (zip ?refs (map (\<lambda>r. r \<in> known ds) ?refs)))))"
    "set (bs_from_list (map fst (filter snd (zip ?refs (map (\<lambda>r. r \<in> known ds) ?refs))))) = {r \<in> set ?refs. r \<in> known ds}"
    by (simp_all add: present_header_and_ancestor_refs_in_dag_state_def Let_def del: remdups_adj_set set_sort)
  moreover have "reference h \<in> set ?refs" "ancestors h = Some ancs \<Longrightarrow> a \<in> set ancs \<Longrightarrow> a \<in> set ?refs" if "h \<in> set hs" for h ancs a
    using that assms(2) unfolding mem well_formed_def by blast+
  ultimately show ?thesis by (intro exI conjI) (assumption, blast)
qed

lemma kept_headers:
  assumes "blm_context bm = ctx" "\<forall>h \<in> set hs. well_formed ctx h"
  shows "\<exists>kept. filter_out_already_processed_and_sort bm hs present = Some kept \<and>
    set kept = {h \<in> set hs. reference h \<notin> set present \<and> reference h \<notin> suspended_refs (blm_suspender bm)}"
proof -
  let ?P = "\<lambda>h. \<not> (reference h \<in> set present \<or> is_block_ref_suspended (blm_suspender bm) (reference h))"
  let ?f = "\<lambda>h. if reference h \<in> set present \<or> is_block_ref_suspended (blm_suspender bm) (reference h)
         then do { authority_at (ctx_committee (blm_context bm)) (bh_author h); Some False } else Some True"
  have "?f h = Some (?P h)" if "h \<in> set hs" for h
    using assms that by (auto simp: well_formed_def authority_at_def members_def size_of_def)
  then have "filterM ?f hs = Some (filter ?P hs)"
    by (induction hs) auto
  then have "filter_out_already_processed_and_sort bm hs present = Some (sort_key bh_round (filter ?P hs))"
    by (simp add: filter_out_already_processed_and_sort_def)
  then show ?thesis by (auto simp: is_block_ref_suspended_def bm_contains_key_def suspended_refs_get)
qed

lemma received_metrics:
  assumes "blm_context bm = ctx" "length (received_block_rounds bm) = size_of (ctx_committee ctx)" "\<forall>h \<in> set hs. well_formed ctx h"
  shows "\<exists>rounds. foldM update_block_received_metrics bm hs = Some (bm\<lparr> received_block_rounds := rounds \<rparr>) \<and>
    length rounds = size_of (ctx_committee ctx)"
  using assms
proof (induction hs arbitrary: bm)
  case Nil
  then show ?case by (auto intro: exI [of _ "received_block_rounds bm"])
next
  case (Cons h hs)
  then have "bh_author h < size_of (ctx_committee ctx)" by (simp add: well_formed_def members_def)
  then obtain rounds where 1: "update_block_received_metrics bm h = Some (bm\<lparr> received_block_rounds := rounds \<rparr>)"
    "length rounds = size_of (ctx_committee ctx)"
    using Cons.prems by (auto simp: update_block_received_metrics_def authority_at_def size_of_def Let_def)
  with Cons.IH [of "bm\<lparr> received_block_rounds := rounds \<rparr>"] Cons.prems show ?case by auto
qed

lemma header_key_inject: "header_key sig h = header_key sig h' \<longleftrightarrow> h = h'"
  by (auto simp: header_key_def)

definition hm_invar :: "(verified_block_header \<Rightarrow> 8 word list) \<Rightarrow> header_map \<Rightarrow> bool" where
  "hm_invar sig m = sorted_wrt (\<lambda>e e'. header_key sig (fst e) < header_key sig (fst e')) m"

lemma hm_invar_distinct: "hm_invar sig m \<Longrightarrow> distinct (map fst m)"
  unfolding hm_invar_def by (induction m) auto

lemma hm_insert_set:
  "hm_invar sig m \<Longrightarrow> set (hm_insert sig h v m) = insert (h, v) {e \<in> set m. fst e \<noteq> h}"
proof (induction m)
  case (Cons e m)
  obtain h' v' where e: "e = (h', v')" by (cases e)
  have later: "\<forall>e' \<in> set m. header_key sig h' < header_key sig (fst e')" and "hm_invar sig m"
    using Cons.prems by (auto simp: hm_invar_def e)
  with Cons.IH show ?case
    by (auto simp: e header_key_inject not_less_iff_gr_or_eq dest: less_trans split: if_splits)
qed simp

lemma hm_invar_insert: "hm_invar sig m \<Longrightarrow> hm_invar sig (hm_insert sig h v m)"
proof (induction m)
  case (Cons e m)
  obtain h' v' where e: "e = (h', v')" by (cases e)
  have later: "\<forall>e' \<in> set m. header_key sig h' < header_key sig (fst e')" and m: "hm_invar sig m"
    using Cons.prems by (auto simp: hm_invar_def e)
  with Cons.IH hm_insert_set [OF m, of h v] show ?case
    by (auto simp: e hm_invar_def dest: less_trans split: if_splits)
qed (simp add: hm_invar_def)

definition missing_of_header :: "block_ref btreeset \<Rightarrow> verified_block_header \<Rightarrow> block_ref btreeset" where
  "missing_of_header present h =
     bs_from_list (filter (\<lambda>a. a \<notin> set present) (case ancestors h of None \<Rightarrow> [] | Some ancs \<Rightarrow> ancs))"

lemma find_missing_run:
  assumes "\<forall>h \<in> set hs. ancestors h \<noteq> None"
  shows "\<exists>m. find_missing_ancestors sig hs present = Some m \<and> distinct (map fst m) \<and>
    set m = (\<lambda>h. (h, missing_of_header present h)) ` set hs"
proof -
  let ?f = "\<lambda>m h. do { ancs \<leftarrow> ancestors h; Some (hm_insert sig h (bs_from_list (filter (\<lambda>a. a \<notin> set present) ancs)) m) }"
  have "\<exists>m'. foldM ?f m hs = Some m' \<and> hm_invar sig m' \<and>
      set m' = (\<lambda>h. (h, missing_of_header present h)) ` set hs \<union> {e \<in> set m. fst e \<notin> set hs}" if "hm_invar sig m" for m
    using assms that
  proof (induction hs arbitrary: m)
    case (Cons h hs)
    then obtain ancs where ancs: "ancestors h = Some ancs" by auto
    let ?m = "hm_insert sig h (missing_of_header present h) m"
    have step: "?f m h = Some ?m" by (simp add: ancs missing_of_header_def)
    from Cons.IH [of ?m] Cons.prems hm_invar_insert obtain m' where
      "foldM ?f ?m hs = Some m'" "hm_invar sig m'"
      "set m' = (\<lambda>h. (h, missing_of_header present h)) ` set hs \<union> {e \<in> set ?m. fst e \<notin> set hs}" by auto
    with step hm_insert_set [OF Cons.prems(2), of h "missing_of_header present h"] show ?case by auto
  qed auto
  from this [of "[]"] show ?thesis
    by (auto simp: find_missing_ancestors_def hm_invar_def dest: hm_invar_distinct [unfolded hm_invar_def])
qed

subsection \<open>Processing a batch\<close>

definition manager_ok :: "block_manager \<Rightarrow> dag_state \<Rightarrow> bool" where
  "manager_ok bm ds =
     (dag_ok ds \<and> wf_dag (header_of ds) \<and> blm_context bm = ds_ctx ds \<and> bsu_context (blm_suspender bm) = ds_ctx ds \<and>
      suspender_ok (known ds) (blm_suspender bm) \<and> length (received_block_rounds bm) = size_of (ds_committee ds) \<and>
      (\<forall>h \<in> held_headers (blm_suspender bm). acceptable (ds_ctx ds) h) \<and>
      (\<forall>r t. bm_get (suspended_transactions bm) r = Some t \<longrightarrow> r \<in> suspended_refs (blm_suspender bm) \<and> vt_block_ref t = Some r))"

text \<open>What the suspender makes of the batch: \<open>bs'\<close> is its new state.\<close>

definition batch_result ::
  "block_manager \<Rightarrow> dag_state \<Rightarrow> verified_block_header list \<Rightarrow> block_suspender \<Rightarrow> verified_block_header list \<Rightarrow> bool" where
  "batch_result bm ds hs bs' accepted =
     (suspender_ok (known ds \<union> reference ` set accepted) bs' \<and> causal_order (known ds) accepted \<and> bsu_context bs' = ds_ctx ds \<and>
      suspended_refs bs' \<union> reference ` set accepted =
        suspended_refs (blm_suspender bm) \<union> {r \<in> reference ` set hs. r \<notin> known ds} \<and>
      set accepted \<union> held_headers bs' \<subseteq> set hs \<union> held_headers (blm_suspender bm))"

lemma prepared_batch:
  assumes kept: "\<forall>h \<in> set kept. well_formed ctx h" "inj_on reference (set kept)"
    and present: "\<forall>h \<in> set kept. \<forall>ancs. ancestors h = Some ancs \<longrightarrow> (\<forall>a \<in> set ancs. a \<in> set present \<longleftrightarrow> a \<in> K)"
  shows "\<exists>m. find_missing_ancestors sig kept present = Some m \<and> distinct (map (reference \<circ> fst) m) \<and> fst ` set m = set kept \<and>
    (\<forall>e \<in> set m. entry_ok (ctx_committee ctx) K e)"
proof -
  have "\<forall>h \<in> set kept. ancestors h \<noteq> None" using kept(1) by (auto simp: well_formed_def)
  from find_missing_run [OF this, of sig present] obtain m where
    m: "find_missing_ancestors sig kept present = Some m" "distinct (map fst m)"
      "set m = (\<lambda>h. (h, missing_of_header present h)) ` set kept" by blast
  have keys: "fst ` set m = set kept" using m(3) by (simp add: image_image)
  have "distinct (map (reference \<circ> fst) m)" using m(2) kept(2) unfolding keys [symmetric] by (simp add: distinct_map comp_inj_on)
  moreover have "entry_ok (ctx_committee ctx) K (h, missing_of_header present h)" if h: "h \<in> set kept" for h
  proof -
    from kept(1) h obtain ancs where ancs: "ancestors h = Some ancs" "\<forall>a \<in> set ancs. br_author a \<in> members (ctx_committee ctx)"
      "bh_author h \<in> members (ctx_committee ctx)" by (auto simp: well_formed_def)
    with present h have "set (missing_of_header present h) = set ancs - K" by (auto simp: missing_of_header_def)
    with ancs show ?thesis by (auto simp: entry_ok_def missing_of_header_def)
  qed
  ultimately show ?thesis using m(1,3) keys by (intro exI [of _ m]) auto
qed

lemma process_block_headers_run:
  assumes ok: "manager_ok bm ds" and hs: "\<forall>h \<in> set hs. well_formed (ds_ctx ds) h" "inj_on reference (set hs)"
    and present: "\<forall>h \<in> set hs. (reference h \<in> set present \<longleftrightarrow> reference h \<in> known ds) \<and>
       (\<forall>ancs. ancestors h = Some ancs \<longrightarrow> (\<forall>a \<in> set ancs. a \<in> set present \<longleftrightarrow> a \<in> known ds))"
  shows "\<exists>bs' accepted tf rounds. process_block_headers sig bm hs present =
      Some (bm\<lparr> received_block_rounds := rounds, blm_suspender := bs' \<rparr>, accepted, tf) \<and>
    length rounds = size_of (ds_committee ds) \<and> batch_result bm ds hs bs' accepted"
proof -
  let ?bs = "blm_suspender bm" and ?K = "known ds"
  have bm: "blm_context bm = ds_ctx ds" "bsu_context ?bs = ds_ctx ds" "suspender_ok ?K ?bs"
    "length (received_block_rounds bm) = size_of (ds_committee ds)" using ok by (simp_all add: manager_ok_def)
  from kept_headers [OF bm(1) hs(1), of present] obtain kept where
    kept: "filter_out_already_processed_and_sort bm hs present = Some kept"
      "set kept = {h \<in> set hs. reference h \<notin> ?K \<and> reference h \<notin> suspended_refs ?bs}" using present by blast
  have acc: "\<forall>h \<in> set kept. well_formed (ds_ctx ds) h" "inj_on reference (set kept)"
    using hs kept(2) by (auto intro: inj_on_subset)
  from received_metrics [OF bm(1,4) acc(1)] obtain rounds where
    rounds: "foldM update_block_received_metrics bm kept = Some (bm\<lparr> received_block_rounds := rounds \<rparr>)"
      "length rounds = size_of (ds_committee ds)" by blast
  have "\<forall>h \<in> set kept. \<forall>ancs. ancestors h = Some ancs \<longrightarrow> (\<forall>a \<in> set ancs. a \<in> set present \<longleftrightarrow> a \<in> ?K)"
    using present kept(2) by blast
  from prepared_batch [OF acc this, of sig] obtain m where
    m: "find_missing_ancestors sig kept present = Some m" "distinct (map (reference \<circ> fst) m)" "fst ` set m = set kept"
      "\<forall>e \<in> set m. entry_ok (ctx_committee (bsu_context ?bs)) ?K e" by (auto simp: bm(2))
  have refs: "(reference \<circ> fst) ` set m = reference ` set kept" using m(3) by (metis image_comp)
  have fresh: "(reference \<circ> fst) ` set m \<inter> (?K \<union> suspended_refs ?bs) = {}" unfolding refs using kept(2) by auto
  from accept_or_suspend_run [OF bm(3) m(2) fresh m(4), unfolded bm(2) refs m(3)] obtain bs' accepted tf where
    run: "accept_or_suspend_received_headers ?bs m = Some (bs', accepted, tf)" "suspender_ok (?K \<union> reference ` set accepted) bs'"
      "causal_order ?K accepted" "bsu_context bs' = ds_ctx ds"
      "suspended_refs bs' \<union> reference ` set accepted = suspended_refs ?bs \<union> reference ` set kept"
      "set accepted \<union> held_headers bs' \<subseteq> set kept \<union> held_headers ?bs" by (elim exE conjE) (rule that; assumption)
  have "suspended_refs ?bs \<union> reference ` set kept = suspended_refs ?bs \<union> {r \<in> reference ` set hs. r \<notin> ?K}" using kept(2) by auto
  moreover have "set kept \<subseteq> set hs" using kept(2) by blast
  ultimately have "batch_result bm ds hs bs' accepted" using run(2-6) unfolding batch_result_def by auto
  moreover have "process_block_headers sig bm hs present =
      Some (bm\<lparr> received_block_rounds := rounds, blm_suspender := bs' \<rparr>, accepted, tf)"
    using kept(1) rounds(1) m(1) run(1) by (simp add: process_block_headers_def)
  ultimately show ?thesis using rounds(2) by blast
qed

lemma causal_order_closed:
  "causal_order K hs \<Longrightarrow> h \<in> set hs \<Longrightarrow> \<exists>ancs. ancestors h = Some ancs \<and> set ancs \<subseteq> K \<union> reference ` set hs"
proof (induction hs arbitrary: K)
  case (Cons g hs)
  then show ?case using Cons.IH [of "insert (reference g) K"] by (cases "h = g") auto
qed simp

lemma take_suspended_facts:
  "\<exists>m txs'. foldl take_suspended_transactions (bm, txs) refs = (bm\<lparr> suspended_transactions := m \<rparr>, txs') \<and>
     (\<forall>r. bm_get m r = (if r \<in> set refs then None else bm_get (suspended_transactions bm) r)) \<and>
     set txs' = set txs \<union> {t. \<exists>r \<in> set refs. bm_get (suspended_transactions bm) r = Some t}"
proof (induction refs arbitrary: bm txs)
  case Nil
  then show ?case by (auto intro: exI [of _ "suspended_transactions bm"])
next
  case (Cons r refs)
  show ?case
  proof (cases "bm_get (suspended_transactions bm) r")
    case None
    then have "take_suspended_transactions (bm, txs) r = (bm, txs)" by (simp add: take_suspended_transactions_def)
    moreover from Cons [of bm txs] obtain m txs' where
      "foldl take_suspended_transactions (bm, txs) refs = (bm\<lparr> suspended_transactions := m \<rparr>, txs')"
      "\<forall>x. bm_get m x = (if x \<in> set refs then None else bm_get (suspended_transactions bm) x)"
      "set txs' = set txs \<union> {u. \<exists>x \<in> set refs. bm_get (suspended_transactions bm) x = Some u}" by blast
    ultimately show ?thesis using None by (intro exI [of _ m] exI [of _ txs']) auto
  next
    case (Some t)
    let ?bm = "bm\<lparr> suspended_transactions := bm_remove r (suspended_transactions bm) \<rparr>"
    have step: "take_suspended_transactions (bm, txs) r = (?bm, txs @ [t])" using Some by (simp add: take_suspended_transactions_def)
    from Cons [of ?bm "txs @ [t]"] obtain m txs' where
      m: "foldl take_suspended_transactions (?bm, txs @ [t]) refs = (?bm\<lparr> suspended_transactions := m \<rparr>, txs')"
      "\<forall>x. bm_get m x = (if x \<in> set refs then None else bm_get (suspended_transactions ?bm) x)"
      "set txs' = set (txs @ [t]) \<union> {u. \<exists>x \<in> set refs. bm_get (suspended_transactions ?bm) x = Some u}" by blast
    have "insert t {u. \<exists>x \<in> set refs. bm_get (suspended_transactions ?bm) x = Some u} =
        {u. \<exists>x \<in> set (r # refs). bm_get (suspended_transactions bm) x = Some u}"
    proof (intro set_eqI iffI)
      fix u assume "u \<in> {u. \<exists>x \<in> set (r # refs). bm_get (suspended_transactions bm) x = Some u}"
      then obtain x where "x \<in> set (r # refs)" "bm_get (suspended_transactions bm) x = Some u" by blast
      with Some show "u \<in> insert t {u. \<exists>x \<in> set refs. bm_get (suspended_transactions ?bm) x = Some u}"
        by (cases "x = r") auto
    qed (use Some in \<open>auto split: if_splits\<close>)
    with m(3) have "set txs' = set txs \<union> {u. \<exists>x \<in> set (r # refs). bm_get (suspended_transactions bm) x = Some u}"
      unfolding set_append list.set by blast
    with step m(1,2) Some show ?thesis by (intro exI [of _ m] exI [of _ txs']) (simp only:, simp)
  qed
qed

text \<open>The transactions of the batch's own blocks: kept back exactly for the headers that are not accepted.\<close>

lemma sort_block_facts:
  assumes "\<forall>b \<in> set bls. \<forall>b' \<in> set bls. reference (vb_header b) = reference (vb_header b') \<longrightarrow> b = b'"
  shows "\<exists>m. foldl (sort_block_transactions A) (bm, txs) bls =
      (bm\<lparr> suspended_transactions := m \<rparr>, txs @ map vb_transactions (filter (\<lambda>b. reference (vb_header b) \<in> A) bls)) \<and>
     (\<forall>b \<in> set bls. reference (vb_header b) \<notin> A \<and> has_transactions (vb_transactions b) \<longrightarrow>
        bm_get m (reference (vb_header b)) = Some (vb_transactions b)) \<and>
     (\<forall>r. (\<exists>b \<in> set bls. reference (vb_header b) = r \<and> r \<notin> A \<and> has_transactions (vb_transactions b)) \<or>
        bm_get m r = bm_get (suspended_transactions bm) r)"
  using assms
proof (induction bls arbitrary: bm txs)
  case Nil
  then show ?case by (auto intro: exI [of _ "suspended_transactions bm"])
next
  case (Cons b bls)
  let ?r = "reference (vb_header b)"
  let ?keep = "?r \<notin> A \<and> has_transactions (vb_transactions b)"
  let ?bm = "if ?keep then bm\<lparr> suspended_transactions := bm_insert ?r (vb_transactions b) (suspended_transactions bm) \<rparr> else bm"
  let ?txs = "if ?r \<in> A then txs @ [vb_transactions b] else txs"
  have step: "sort_block_transactions A (bm, txs) b = (?bm, ?txs)" by (simp add: sort_block_transactions_def)
  from Cons.IH [of ?bm ?txs] Cons.prems obtain m where
    m: "foldl (sort_block_transactions A) (?bm, ?txs) bls =
        (?bm\<lparr> suspended_transactions := m \<rparr>, ?txs @ map vb_transactions (filter (\<lambda>b. reference (vb_header b) \<in> A) bls))"
      "\<forall>b \<in> set bls. reference (vb_header b) \<notin> A \<and> has_transactions (vb_transactions b) \<longrightarrow>
        bm_get m (reference (vb_header b)) = Some (vb_transactions b)"
      "\<forall>r. (\<exists>b \<in> set bls. reference (vb_header b) = r \<and> r \<notin> A \<and> has_transactions (vb_transactions b)) \<or>
        bm_get m r = bm_get (suspended_transactions ?bm) r" by auto
  have "bm_get m ?r = Some (vb_transactions b)" if keep: ?keep
  proof (cases "\<exists>b' \<in> set bls. reference (vb_header b') = ?r")
    case True
    with Cons.prems have "b \<in> set bls" by auto
    with m(2) keep show ?thesis by blast
  next
    case False
    with m(3) have "bm_get m ?r = bm_get (suspended_transactions ?bm) ?r" by blast
    with keep show ?thesis by simp
  qed
  moreover have "(\<exists>b' \<in> set (b # bls). reference (vb_header b') = r \<and> r \<notin> A \<and> has_transactions (vb_transactions b')) \<or>
      bm_get m r = bm_get (suspended_transactions bm) r" for r
    using m(3) [rule_format, of r] by (cases "r = ?r \<and> ?keep") (auto split: if_splits)
  ultimately show ?case using step m(1,2) by (intro exI [of _ m]) auto
qed

subsection \<open>Accepting a batch\<close>

text \<open>The parts of the invariant that speak of the suspended headers, in terms of the DAG.\<close>

lemma manager_okD:
  assumes "manager_ok bm ds"
  shows "\<And>r s. bm_get (suspended_headers (blm_suspender bm)) r = Some s \<Longrightarrow>
      reference (sus_header s) = r \<and> header_of ds r = None \<and> sus_missing s \<noteq> [] \<and>
      (\<exists>ancs. ancestors (sus_header s) = Some ancs \<and> set (sus_missing s) = {a \<in> set ancs. header_of ds a = None})"
    and "\<And>m. bm_get (blocks_to_fetch bm) m \<noteq> None \<longleftrightarrow>
      header_of ds m = None \<and> bm_get (suspended_headers (blm_suspender bm)) m = None \<and>
      (\<exists>r s. bm_get (suspended_headers (blm_suspender bm)) r = Some s \<and> m \<in> set (sus_missing s))"
proof -
  have ok: "suspended_ok (known ds) (\<lambda>_. {}) (blm_suspender bm)" "fetch_ok {} (known ds) (blm_suspender bm)"
    using assms by (simp_all add: manager_ok_def suspender_ok_def)
  show "reference (sus_header s) = r \<and> header_of ds r = None \<and> sus_missing s \<noteq> [] \<and>
      (\<exists>ancs. ancestors (sus_header s) = Some ancs \<and> set (sus_missing s) = {a \<in> set ancs. header_of ds a = None})"
    if "bm_get (suspended_headers (blm_suspender bm)) r = Some s" for r s
    using suspended_okD [OF ok(1) that] by (auto simp: known_def)
  show "bm_get (blocks_to_fetch bm) m \<noteq> None \<longleftrightarrow>
      header_of ds m = None \<and> bm_get (suspended_headers (blm_suspender bm)) m = None \<and>
      (\<exists>r s. bm_get (suspended_headers (blm_suspender bm)) r = Some s \<and> m \<in> set (sus_missing s))" for m
    using ok(2) unfolding fetch_ok_def blocks_to_fetch_def suspended_refs_get by (auto simp: known_def waiting_def)
qed

text \<open>The accepted headers together with what was known are a causally complete DAG.\<close>

lemma wf_dag_extend:
  assumes wf: "wf_dag (header_of ds)" and order: "causal_order (known ds) hs" and hs: "\<forall>h \<in> set hs. well_formed ctx h"
    and new: "\<forall>r h. header_of ds' r = Some h \<longleftrightarrow> header_of ds r = Some h \<or> h \<in> set hs \<and> reference h = r"
  shows "wf_dag (header_of ds')" "known ds' = known ds \<union> reference ` set hs"
proof -
  show known: "known ds' = known ds \<union> reference ` set hs"
  proof (intro set_eqI iffI)
    fix r assume "r \<in> known ds'"
    then obtain h where "header_of ds' r = Some h" by (auto simp: known_def)
    with new show "r \<in> known ds \<union> reference ` set hs" by (auto simp: known_def)
  next
    fix r assume "r \<in> known ds \<union> reference ` set hs"
    then obtain h where "header_of ds r = Some h \<or> h \<in> set hs \<and> reference h = r" by (auto simp: known_def)
    with new have "header_of ds' r = Some h" by blast
    then show "r \<in> known ds'" by (simp add: known_def)
  qed
  show "wf_dag (header_of ds')"
  proof (unfold wf_dag_def, intro allI impI)
    fix r h assume "header_of ds' r = Some h"
    with new consider "header_of ds r = Some h" | "h \<in> set hs" "reference h = r" by blast
    then show "reference h = r \<and> (\<exists>ancs. ancestors h = Some ancs \<and> (\<forall>a \<in> set ancs. br_round a < br_round r \<and> header_of ds' a \<noteq> None))"
    proof cases
      case 1
      have "header_of ds' a \<noteq> None" if "header_of ds a \<noteq> None" for a
        using that known by (auto simp: known_def set_eq_iff)
      with wf_dag_ancestors [OF wf 1] wf_dag_reference [OF wf 1] show ?thesis by auto
    next
      case 2
      from causal_order_closed [OF order 2(1)] known obtain ancs where "ancestors h = Some ancs" "set ancs \<subseteq> known ds'" by auto
      moreover from this hs 2 have "\<forall>a \<in> set ancs. br_round a < br_round r" by (auto simp: well_formed_def)
      ultimately show ?thesis using 2(2) by (auto simp: known_def)
    qed
  qed
qed

lemma write_batch:
  assumes ok: "manager_ok bm ds" and acc: "takes_headers ds accepted source" "\<forall>h \<in> set accepted. well_formed (ds_ctx ds) h"
    and res: "batch_result bm ds hs bs' accepted" "\<forall>h \<in> held_headers bs'. acceptable (ds_ctx ds) h"
    and rounds: "length rounds = size_of (ds_committee ds)"
    and txs: "\<forall>t \<in> set txs. tr_author (vt_transaction_ref t) \<in> members (ds_committee ds) \<and> vt_block_digest t \<noteq> None"
    and m: "\<forall>r t. bm_get m r = Some t \<longrightarrow> r \<in> suspended_refs bs' \<and> vt_block_ref t = Some r"
  shows "\<exists>ds'. write_block_headers_and_transactions_to_dag_state ds accepted txs source = Some ds' \<and>
    manager_ok (bm\<lparr> suspended_transactions := m, blm_suspender := bs', received_block_rounds := rounds \<rparr>) ds' \<and>
    ds_ctx ds' = ds_ctx ds \<and> (\<forall>t \<in> set txs. recorded ds' t) \<and> known ds' = known ds \<union> reference ` set accepted \<and>
    (\<forall>r h. header_of ds' r = Some h \<longleftrightarrow> header_of ds r = Some h \<or> h \<in> set accepted \<and> reference h = r)"
proof -
  have dag: "dag_ok ds" "wf_dag (header_of ds)" using ok by (simp_all add: manager_ok_def)
  have order: "causal_order (known ds) accepted" using res(1) by (simp add: batch_result_def)
  from acc(1) obtain ds1 where
    1: "accept_block_headers ds accepted source = Some ds1" "dag_ok ds1" "ds_ctx ds1 = ds_ctx ds"
      "\<forall>r h. header_of ds1 r = Some h \<longleftrightarrow> header_of ds r = Some h \<or> h \<in> set accepted \<and> reference h = r" by (auto simp: takes_headers_def)
  from add_transactions_all [OF 1(2), of txs source] txs 1(3) obtain ds2 where
    2: "foldM (\<lambda>ds t. add_transactions ds t source) ds1 txs = Some ds2" "dag_ok ds2" "ds_ctx ds2 = ds_ctx ds1" "header_of ds2 = header_of ds1"
      "\<forall>t \<in> set txs. recorded ds2 t" by auto
  have h2: "\<forall>r h. header_of ds2 r = Some h \<longleftrightarrow> header_of ds r = Some h \<or> h \<in> set accepted \<and> reference h = r" using 1(4) 2(4) by simp
  note ext = wf_dag_extend [OF dag(2) order acc(2) h2]
  have "manager_ok (bm\<lparr> suspended_transactions := m, blm_suspender := bs', received_block_rounds := rounds \<rparr>) ds2"
    using 1(3) 2(2,3) ext(1) ok res rounds m unfolding manager_ok_def batch_result_def ext(2) by auto
  with 1(1-3) 2(1,3,5) h2 ext(2) show ?thesis
    by (intro exI [of _ ds2]) (simp add: write_block_headers_and_transactions_to_dag_state_def)
qed

text \<open>A verified block: its transactions carry the references of its header.\<close>

definition block_ok :: "verified_block \<Rightarrow> bool" where
  "block_ok b = (vt_transaction_ref (vb_transactions b) = header_transaction_ref (vb_header b) \<and>
     vt_block_digest (vb_transactions b) = Some (vbh_digest (vb_header b)))"

lemma block_ok_ref: "block_ok b \<Longrightarrow> vt_block_ref (vb_transactions b) = Some (reference (vb_header b))"
  by (simp add: block_ok_def vt_block_ref_def header_transaction_ref_def reference_def)

definition blocks_of :: "verified_block_header list \<Rightarrow> verified_block list \<Rightarrow> bool" where
  "blocks_of hs bls = (vb_header ` set bls \<subseteq> set hs \<and> (\<forall>b \<in> set bls. block_ok b) \<and>
     (\<forall>b \<in> set bls. \<forall>b' \<in> set bls. reference (vb_header b) = reference (vb_header b') \<longrightarrow> b = b'))"

lemma resolve_transactions_None: "resolve_transactions bm accepted present None = resolve_transactions bm accepted present (Some [])"
  by (simp add: resolve_transactions_def Let_def split: prod.splits)

lemma manager_ok_suspended_author:
  assumes "manager_ok bm ds" "bm_get (suspended_transactions bm) r = Some t"
  shows "tr_author (vt_transaction_ref t) \<in> members (ds_committee ds) \<and> vt_block_digest t \<noteq> None \<and> r \<in> suspended_refs (blm_suspender bm)"
proof -
  have r: "r \<in> suspended_refs (blm_suspender bm)" "vt_block_ref t = Some r" using assms by (auto simp: manager_ok_def)
  then obtain s where "bm_get (suspended_headers (blm_suspender bm)) r = Some s" by (auto simp: suspended_refs_get)
  moreover have "suspended_ok (known ds) (\<lambda>_. {}) (blm_suspender bm)" "bsu_context (blm_suspender bm) = ds_ctx ds"
    using assms(1) by (simp_all add: manager_ok_def suspender_ok_def)
  ultimately have "br_author r \<in> members (ds_committee ds)" using suspended_okD by fastforce
  with r show ?thesis by (auto simp: vt_block_ref_def)
qed

lemma resolve_transactions_run:
  assumes ok: "manager_ok bm ds" and hs: "\<forall>h \<in> set hs. well_formed (ds_ctx ds) h" and bls: "blocks_of hs bls"
    and res: "batch_result bm ds hs bs' accepted" and present: "\<forall>h \<in> set hs. reference h \<in> set present \<longleftrightarrow> reference h \<in> known ds"
  defines "old \<equiv> bm_get (suspended_transactions bm)" and "K \<equiv> known ds \<union> reference ` set accepted"
  shows "\<exists>m txs. resolve_transactions (bm\<lparr> received_block_rounds := rounds, blm_suspender := bs' \<rparr>) accepted present (Some bls) =
      (bm\<lparr> suspended_transactions := m, blm_suspender := bs', received_block_rounds := rounds \<rparr>, txs) \<and>
    (\<forall>t \<in> set txs. tr_author (vt_transaction_ref t) \<in> members (ds_committee ds) \<and> vt_block_digest t \<noteq> None) \<and>
    (\<forall>r t. bm_get m r = Some t \<longrightarrow> r \<in> suspended_refs bs' \<and> vt_block_ref t = Some r) \<and>
    (\<forall>b \<in> set bls. if reference (vb_header b) \<in> K then vb_transactions b \<in> set txs
       else has_transactions (vb_transactions b) \<longrightarrow> bm_get m (reference (vb_header b)) = Some (vb_transactions b)) \<and>
    (\<forall>r t. old r = Some t \<longrightarrow> (if r \<in> K then t \<in> set txs else bm_get m r \<noteq> None))"
proof -
  let ?refs = "bs_from_list (map reference accepted)" and ?bm = "bm\<lparr> received_block_rounds := rounds, blm_suspender := bs' \<rparr>"
  have uniq: "\<forall>b \<in> set bls. \<forall>b' \<in> set bls. reference (vb_header b) = reference (vb_header b') \<longrightarrow> b = b'"
    and sub: "b \<in> set bls \<Longrightarrow> block_ok b \<and> vb_header b \<in> set hs" for b using bls by (auto simp: blocks_of_def)
  from take_suspended_facts [of ?bm "[]" ?refs] obtain m1 txs1 where
    1: "foldl take_suspended_transactions (?bm, []) ?refs = (?bm\<lparr> suspended_transactions := m1 \<rparr>, txs1)"
      "\<forall>r. bm_get m1 r = (if r \<in> reference ` set accepted then None else old r)"
      "set txs1 = {t. \<exists>r \<in> reference ` set accepted. old r = Some t}" by (auto simp: old_def)
  from sort_block_facts [OF uniq, of "set ?refs \<union> set present" "?bm\<lparr> suspended_transactions := m1 \<rparr>" "[]"] obtain m where
    2: "foldl (sort_block_transactions (set ?refs \<union> set present)) (?bm\<lparr> suspended_transactions := m1 \<rparr>, []) bls =
        (?bm\<lparr> suspended_transactions := m \<rparr>, map vb_transactions (filter (\<lambda>b. reference (vb_header b) \<in> set ?refs \<union> set present) bls))"
      "\<forall>b \<in> set bls. reference (vb_header b) \<notin> set ?refs \<union> set present \<and> has_transactions (vb_transactions b) \<longrightarrow>
        bm_get m (reference (vb_header b)) = Some (vb_transactions b)"
      "\<forall>r. (\<exists>b \<in> set bls. reference (vb_header b) = r \<and> r \<notin> set ?refs \<union> set present \<and> has_transactions (vb_transactions b)) \<or>
        bm_get m r = bm_get m1 r" by auto
  let ?txs = "txs1 @ map vb_transactions (filter (\<lambda>b. reference (vb_header b) \<in> set ?refs \<union> set present) bls)"
  have run: "resolve_transactions ?bm accepted present (Some bls) =
      (bm\<lparr> suspended_transactions := m, blm_suspender := bs', received_block_rounds := rounds \<rparr>, ?txs)"
    using 1(1) 2(1) by (simp add: resolve_transactions_def Let_def)
  have here: "reference (vb_header b) \<in> set ?refs \<union> set present \<longleftrightarrow> reference (vb_header b) \<in> K" if "b \<in> set bls" for b
    using present sub [OF that] by (auto simp: K_def)
  have refs: "suspended_refs bs' \<union> reference ` set accepted = suspended_refs (blm_suspender bm) \<union> {r \<in> reference ` set hs. r \<notin> known ds}"
    using res by (simp add: batch_result_def)
  have held: "r \<notin> known ds \<and> r \<in> suspended_refs (blm_suspender bm) \<and> vt_block_ref t = Some r" if "old r = Some t" for r t
  proof -
    have "r \<in> suspended_refs (blm_suspender bm)" "vt_block_ref t = Some r" using ok that by (auto simp: manager_ok_def old_def)
    moreover from this(1) obtain s where "bm_get (suspended_headers (blm_suspender bm)) r = Some s" by (auto simp: suspended_refs_get)
    ultimately show ?thesis using manager_okD(1) [OF ok] by (auto simp: known_def)
  qed
  have "\<forall>t \<in> set ?txs. tr_author (vt_transaction_ref t) \<in> members (ds_committee ds) \<and> vt_block_digest t \<noteq> None"
    using 1(3) manager_ok_suspended_author [OF ok] sub hs by (fastforce simp: old_def block_ok_def header_transaction_ref_def well_formed_def)
  moreover have "r \<in> suspended_refs bs' \<and> vt_block_ref t = Some r" if r: "bm_get m r = Some t" for r t
  proof (cases "\<exists>b \<in> set bls. reference (vb_header b) = r \<and> r \<notin> set ?refs \<union> set present \<and> has_transactions (vb_transactions b)")
    case True
    then obtain b where b: "b \<in> set bls" "reference (vb_header b) = r" "r \<notin> set ?refs \<union> set present" "has_transactions (vb_transactions b)" by blast
    with 2(2) r have "t = vb_transactions b" by auto
    moreover have "r \<notin> K" "r \<in> reference ` set hs" using here [OF b(1)] b(2,3) sub [OF b(1)] by auto
    ultimately show ?thesis using refs block_ok_ref sub [OF b(1)] b(2) by (auto simp: K_def)
  next
    case False
    with 2(3) have "bm_get m r = bm_get m1 r" by blast
    with 1(2) r have "old r = Some t" "r \<notin> reference ` set accepted" by (simp_all split: if_splits)
    with held refs show ?thesis by blast
  qed
  moreover have "if r \<in> K then t \<in> set ?txs else bm_get m r \<noteq> None" if "old r = Some t" for r t
  proof (cases "r \<in> K")
    case True
    with held [OF that] 1(3) that show ?thesis by (auto simp: K_def)
  next
    case False
    then have "bm_get m1 r = Some t" using 1(2) that by (auto simp: K_def)
    with False 2(2,3) show ?thesis by (metis option.distinct(1))
  qed
  moreover have "\<forall>b \<in> set bls. if reference (vb_header b) \<in> K then vb_transactions b \<in> set ?txs
       else has_transactions (vb_transactions b) \<longrightarrow> bm_get m (reference (vb_header b)) = Some (vb_transactions b)"
    using 2(2) here by auto
  ultimately show ?thesis using run by blast
qed

text \<open>Whatever the suspender releases, the DAG state takes it, and only headers of peers stay suspended.\<close>

definition batch_fits ::
  "(verified_block_header \<Rightarrow> 8 word list) \<Rightarrow> block_manager \<Rightarrow> dag_state \<Rightarrow> verified_block_header list \<Rightarrow> data_source \<Rightarrow> bool" where
  "batch_fits sig bm ds hs source =
     (\<forall>present bm1 accepted tf. present_header_and_ancestor_refs_in_dag_state ds hs = Some present \<and>
        process_block_headers sig bm hs present = Some (bm1, accepted, tf) \<and> batch_result bm ds hs (blm_suspender bm1) accepted \<longrightarrow>
        takes_headers ds accepted source \<and> (\<forall>h \<in> held_headers (blm_suspender bm1). acceptable (ds_ctx ds) h))"

text \<open>Both entry points of the block manager, with the blocks \<open>bls\<close> that come with the headers.\<close>

lemma accept_batch_run:
  assumes ok: "manager_ok bm ds" and hs: "\<forall>h \<in> set hs. well_formed (ds_ctx ds) h" "inj_on reference (set hs)" and bls: "blocks_of hs bls"
    and fits: "batch_fits sig bm ds hs source"
  shows "\<exists>present bm1 accepted tf bm' txs ds'. present_header_and_ancestor_refs_in_dag_state ds hs = Some present \<and>
    process_block_headers sig bm hs present = Some (bm1, accepted, tf) \<and>
    resolve_transactions bm1 accepted present (Some bls) = (bm', txs) \<and>
    write_block_headers_and_transactions_to_dag_state ds accepted txs source = Some ds' \<and>
    manager_ok bm' ds' \<and> causal_order (known ds) accepted \<and> set accepted \<subseteq> set hs \<union> held_headers (blm_suspender bm) \<and>
    (\<forall>r h. header_of ds' r = Some h \<longleftrightarrow> header_of ds r = Some h \<or> h \<in> set accepted \<and> reference h = r) \<and>
    (\<forall>r \<in> reference ` set hs \<union> suspended_refs (blm_suspender bm). header_of ds' r = None \<longrightarrow> r \<in> suspended_refs (blm_suspender bm')) \<and>
    (\<forall>b \<in> set bls. if header_of ds' (reference (vb_header b)) \<noteq> None then recorded ds' (vb_transactions b)
       else has_transactions (vb_transactions b) \<longrightarrow>
         bm_get (suspended_transactions bm') (reference (vb_header b)) = Some (vb_transactions b)) \<and>
    (\<forall>r t. bm_get (suspended_transactions bm) r = Some t \<longrightarrow>
       (if header_of ds' r \<noteq> None then recorded ds' t else bm_get (suspended_transactions bm') r \<noteq> None))"
proof -
  have "dag_ok ds" using ok by (simp add: manager_ok_def)
  from present_refs [OF this hs(1)] obtain present where
    p: "present_header_and_ancestor_refs_in_dag_state ds hs = Some present"
      "\<forall>h \<in> set hs. (reference h \<in> set present \<longleftrightarrow> reference h \<in> known ds) \<and>
       (\<forall>ancs. ancestors h = Some ancs \<longrightarrow> (\<forall>a \<in> set ancs. a \<in> set present \<longleftrightarrow> a \<in> known ds))" by blast
  from process_block_headers_run [OF ok hs p(2), of sig] obtain bs' accepted tf rounds where
    b: "process_block_headers sig bm hs present = Some (bm\<lparr> received_block_rounds := rounds, blm_suspender := bs' \<rparr>, accepted, tf)"
      "length rounds = size_of (ds_committee ds)" "batch_result bm ds hs bs' accepted" by blast
  have "\<forall>h \<in> set hs. reference h \<in> set present \<longleftrightarrow> reference h \<in> known ds" using p(2) by blast
  from resolve_transactions_run [OF ok hs(1) bls b(3) this, of rounds] obtain m txs where
    t: "resolve_transactions (bm\<lparr> received_block_rounds := rounds, blm_suspender := bs' \<rparr>) accepted present (Some bls) =
        (bm\<lparr> suspended_transactions := m, blm_suspender := bs', received_block_rounds := rounds \<rparr>, txs)"
      "\<forall>t \<in> set txs. tr_author (vt_transaction_ref t) \<in> members (ds_committee ds) \<and> vt_block_digest t \<noteq> None"
      "\<forall>r t. bm_get m r = Some t \<longrightarrow> r \<in> suspended_refs bs' \<and> vt_block_ref t = Some r"
      "\<forall>b \<in> set bls. if reference (vb_header b) \<in> known ds \<union> reference ` set accepted then vb_transactions b \<in> set txs
       else has_transactions (vb_transactions b) \<longrightarrow> bm_get m (reference (vb_header b)) = Some (vb_transactions b)"
      "\<forall>r t. bm_get (suspended_transactions bm) r = Some t \<longrightarrow>
        (if r \<in> known ds \<union> reference ` set accepted then t \<in> set txs else bm_get m r \<noteq> None)" by blast
  have "\<forall>h \<in> set accepted. well_formed (ds_ctx ds) h"
    using b(3) hs(1) ok by (auto simp: batch_result_def manager_ok_def acceptable_def)
  with write_batch [OF ok _ _ b(3) _ b(2) t(2,3), of source] fits [unfolded batch_fits_def] p(1) b(1,3) obtain ds' where
    w: "write_block_headers_and_transactions_to_dag_state ds accepted txs source = Some ds'"
      "manager_ok (bm\<lparr> suspended_transactions := m, blm_suspender := bs', received_block_rounds := rounds \<rparr>) ds'"
      "\<forall>t \<in> set txs. recorded ds' t" "known ds' = known ds \<union> reference ` set accepted"
      "\<forall>r h. header_of ds' r = Some h \<longleftrightarrow> header_of ds r = Some h \<or> h \<in> set accepted \<and> reference h = r" by auto
  have known: "header_of ds' r \<noteq> None \<longleftrightarrow> r \<in> known ds \<union> reference ` set accepted" for r using w(4) by (auto simp: known_def)
  have refs: "suspended_refs bs' \<union> reference ` set accepted = suspended_refs (blm_suspender bm) \<union> {r \<in> reference ` set hs. r \<notin> known ds}"
    and order: "causal_order (known ds) accepted" "set accepted \<subseteq> set hs \<union> held_headers (blm_suspender bm)"
    using b(3) by (simp_all add: batch_result_def)
  have "r \<in> suspended_refs bs'" if "r \<in> reference ` set hs \<union> suspended_refs (blm_suspender bm)" "header_of ds' r = None" for r
    using that known [of r] refs by blast
  moreover have "\<forall>b \<in> set bls. if header_of ds' (reference (vb_header b)) \<noteq> None then recorded ds' (vb_transactions b)
       else has_transactions (vb_transactions b) \<longrightarrow> bm_get m (reference (vb_header b)) = Some (vb_transactions b)"
    using t(4) w(3) unfolding known by (simp split: if_splits)
  moreover have "\<forall>r t. bm_get (suspended_transactions bm) r = Some t \<longrightarrow>
       (if header_of ds' r \<noteq> None then recorded ds' t else bm_get m r \<noteq> None)"
    using t(5) w(3) unfolding known by (simp split: if_splits)
  ultimately show ?thesis using p(1) b(1) t(1) w(1,2,5) order by (intro exI conjI) (assumption | simp)+
qed

text \<open>A batch of headers of peers.\<close>

lemma peers_batch:
  assumes ok: "manager_ok bm ds" and hs: "\<forall>h \<in> set hs. acceptable (ds_ctx ds) h"
  shows "batch_fits sig bm ds hs source"
  unfolding batch_fits_def
proof (intro allI impI, elim conjE)
  fix bm1 accepted assume res: "batch_result bm ds hs (blm_suspender bm1) accepted"
  have acc: "\<forall>h \<in> set accepted \<union> held_headers (blm_suspender bm1). acceptable (ds_ctx ds) h"
    using res hs ok unfolding batch_result_def manager_ok_def by blast
  have "causal_order (known ds) accepted" using res by (simp add: batch_result_def)
  with accept_block_headers_run [of ds accepted source] acc causal_order_fresh [of "known ds" accepted] ok
  show "takes_headers ds accepted source \<and> (\<forall>h \<in> held_headers (blm_suspender bm1). acceptable (ds_ctx ds) h)"
    by (auto simp: manager_ok_def)
qed

text \<open>An own block: its round is above all own ones, its ancestors are known, and nobody refers to it yet.\<close>

definition own_block_new :: "block_manager \<Rightarrow> dag_state \<Rightarrow> verified_block_header \<Rightarrow> bool" where
  "own_block_new bm ds h =
     (well_formed (ds_ctx ds) h \<and> acknowledgments h \<noteq> None \<and> bh_author h = own_index (ds_ctx ds) \<and>
      (\<forall>r. header_of ds r \<noteq> None \<and> br_author r = bh_author h \<longrightarrow> br_round r < bh_round h) \<and>
      (\<forall>ancs. ancestors h = Some ancs \<longrightarrow> set ancs \<subseteq> known ds) \<and> waiting (blm_suspender bm) (reference h) = {})"

lemma own_block_free:
  assumes ok: "manager_ok bm ds" and h: "own_block_new bm ds h"
  shows "bm_get (suspended_headers (blm_suspender bm)) (reference h) = None"
proof (rule ccontr)
  assume "bm_get (suspended_headers (blm_suspender bm)) (reference h) \<noteq> None"
  then obtain s where s: "bm_get (suspended_headers (blm_suspender bm)) (reference h) = Some s" by blast
  then have "acceptable (ds_ctx ds) (sus_header s)" using ok by (auto simp: manager_ok_def held_headers_def)
  moreover have "reference (sus_header s) = reference h" using manager_okD(1) [OF ok s] by blast
  ultimately show False using h by (simp add: acceptable_def own_block_new_def reference_def)
qed

text \<open>A single header that is not suspended and that nobody waits for.\<close>

lemma process_free_header:
  assumes ok: "manager_ok bm ds" and wf: "well_formed (ds_ctx ds) h" and wait: "waiting (blm_suspender bm) (reference h) = {}"
    and free: "bm_get (suspended_headers (blm_suspender bm)) (reference h) = None"
    and present: "reference h \<notin> set present" "\<forall>ancs. ancestors h = Some ancs \<longrightarrow> set ancs \<subseteq> set present"
  shows "\<exists>bm1. process_block_headers sig bm [h] present = Some (bm1, [h], []) \<and>
    suspended_headers (blm_suspender bm1) = suspended_headers (blm_suspender bm) \<and> suspended_transactions bm1 = suspended_transactions bm"
proof -
  let ?bs = "blm_suspender bm"
  have bm: "blm_context bm = ds_ctx ds" "suspender_ok (known ds) ?bs" "length (received_block_rounds bm) = size_of (ds_committee ds)"
    "\<forall>h \<in> held_headers ?bs. acceptable (ds_ctx ds) h" using ok by (simp_all add: manager_ok_def)
  have "set (children_of ?bs (reference h)) = waiting ?bs (reference h)" using bm(2) by (simp add: suspender_ok_def children_ok_def)
  then have "children_of ?bs (reference h) = []" using wait by simp
  then have none: "bm_get (missing_ancestors ?bs) (reference h) = None \<or> bm_get (missing_ancestors ?bs) (reference h) = Some []"
    by (auto simp: children_of_def split: option.splits)
  from wf obtain ancs where ancs: "ancestors h = Some ancs" by (auto simp: well_formed_def)
  have kept: "filter_out_already_processed_and_sort bm [h] present = Some [h]"
    using present(1) free by (simp add: filter_out_already_processed_and_sort_def is_block_ref_suspended_def bm_contains_key_def)
  from received_metrics [OF bm(1,3), of "[h]"] wf obtain rounds where
    rounds: "foldM update_block_received_metrics bm [h] = Some (bm\<lparr> received_block_rounds := rounds \<rparr>)" by auto
  have "filter (\<lambda>a. a \<notin> set present) ancs = []" using present(2) ancs by (auto simp: filter_empty_conv)
  then have missing: "find_missing_ancestors sig [h] present = Some [(h, [])]"
    using ancs by (simp add: find_missing_ancestors_def bs_from_list_def bs_extend_def)
  have "\<exists>bs'. accept_or_suspend_received_headers ?bs [(h, [])] = Some (bs', [h], []) \<and> suspended_headers bs' = suspended_headers ?bs"
    using none by (auto simp: accept_or_suspend_received_headers_def resolve_or_suspend_headers_def resolve_or_suspend_header_def
        recursively_unsuspend_dependents_def unsuspend_children_def Let_def)
  with kept rounds missing show ?thesis by (auto simp: process_block_headers_def)
qed

lemma process_own_block:
  assumes ok: "manager_ok bm ds" and h: "own_block_new bm ds h"
    and present: "reference h \<notin> set present" "\<forall>ancs. ancestors h = Some ancs \<longrightarrow> set ancs \<subseteq> set present"
  shows "\<exists>bm1. process_block_headers sig bm [h] present = Some (bm1, [h], []) \<and>
    suspended_headers (blm_suspender bm1) = suspended_headers (blm_suspender bm) \<and> suspended_transactions bm1 = suspended_transactions bm"
  using process_free_header [OF ok _ _ own_block_free [OF ok h] present] h by (simp add: own_block_new_def)

lemma own_batch:
  assumes ok: "manager_ok bm ds" and h: "own_block_new bm ds h"
  shows "batch_fits sig bm ds [h] source"
  unfolding batch_fits_def
proof (intro allI impI, elim conjE)
  fix present bm1 accepted tf
  assume p: "present_header_and_ancestor_refs_in_dag_state ds [h] = Some present"
    and run: "process_block_headers sig bm [h] present = Some (bm1, accepted, tf)"
  have dag: "dag_ok ds" "\<forall>g \<in> held_headers (blm_suspender bm). acceptable (ds_ctx ds) g" using ok by (simp_all add: manager_ok_def)
  have own: "well_formed (ds_ctx ds) h" "bh_author h = own_index (ds_ctx ds)"
    "\<forall>r. header_of ds r \<noteq> None \<and> br_author r = bh_author h \<longrightarrow> br_round r < bh_round h"
    "\<forall>ancs. ancestors h = Some ancs \<longrightarrow> set ancs \<subseteq> known ds" "acknowledgments h \<noteq> None" using h by (simp_all add: own_block_new_def)
  have fresh: "header_of ds (reference h) = None" using own(3) by (metis less_irrefl reference_simps(1,2))
  from present_refs [OF dag(1), of "[h]"] own(1) p have
    "reference h \<notin> set present" "\<forall>ancs. ancestors h = Some ancs \<longrightarrow> set ancs \<subseteq> set present"
    using fresh own(4) by (auto simp: known_def)
  from process_own_block [OF ok h this, of sig] run have
    res: "accepted = [h]" "suspended_headers (blm_suspender bm1) = suspended_headers (blm_suspender bm)" by auto
  have "g \<notin> set (get_uncommitted_block_headers_at_slot ds (header_slot h))" for g
    using at_slot_subset [OF dag(1), of g "header_slot h"] own(3) [rule_format, of "reference g"] by (auto simp: header_slot_def)
  then have "get_uncommitted_block_headers_at_slot ds (header_slot h) = []" by (meson list.set_sel(1))
  from accept_block_header_ok [OF dag(1), of h source] this own(1,5) fresh have "takes_headers ds [h] source"
    by (auto simp: takes_headers_def accept_block_headers_def well_formed_def split: if_splits)
  with res dag(2) show "takes_headers ds accepted source \<and> (\<forall>h \<in> held_headers (blm_suspender bm1). acceptable (ds_ctx ds) h)"
    by (simp add: held_headers_def)
qed

lemma own_block_run:
  assumes ok: "manager_ok bm ds" and b: "own_block_new bm ds (vb_header b)" "block_ok b"
  shows "\<exists>bm' ds1 ds'. try_accept_blocks sig bm ds [b] source = Some ([vb_header b], [], bm', ds') \<and> manager_ok bm' ds' \<and>
    accept_block_header ds (vb_header b) source = Some ds1 \<and> add_transactions ds1 (vb_transactions b) source = Some ds' \<and>
    header_of ds' = (header_of ds)(reference (vb_header b) \<mapsto> vb_header b) \<and> recorded ds' (vb_transactions b) \<and>
    suspended_headers (blm_suspender bm') = suspended_headers (blm_suspender bm)"
proof -
  let ?h = "vb_header b"
  have wf: "\<forall>h \<in> set [?h]. well_formed (ds_ctx ds) h" "inj_on reference (set [?h])" "blocks_of [?h] [b]"
    using b by (simp_all add: own_block_new_def blocks_of_def)
  from accept_batch_run [OF ok wf own_batch [OF ok b(1)], of sig source] obtain present bm1 accepted tf bm' txs ds' where
    run: "present_header_and_ancestor_refs_in_dag_state ds [?h] = Some present"
      "process_block_headers sig bm [?h] present = Some (bm1, accepted, tf)" "resolve_transactions bm1 accepted present (Some [b]) = (bm', txs)"
      "write_block_headers_and_transactions_to_dag_state ds accepted txs source = Some ds'"
    and post: "manager_ok bm' ds'"
      "\<forall>r h. header_of ds' r = Some h \<longleftrightarrow> header_of ds r = Some h \<or> h \<in> set accepted \<and> reference h = r"
      "\<forall>b \<in> set [b]. if header_of ds' (reference (vb_header b)) \<noteq> None then recorded ds' (vb_transactions b)
       else has_transactions (vb_transactions b) \<longrightarrow>
         bm_get (suspended_transactions bm') (reference (vb_header b)) = Some (vb_transactions b)"
    by (elim exE conjE) (rule that; assumption)
  have fresh: "header_of ds (reference ?h) = None" using b(1) by (metis less_irrefl own_block_new_def reference_simps(1,2))
  from present_refs [of ds "[?h]"] wf(1) run(1) ok have
    "reference ?h \<notin> set present" "\<forall>ancs. ancestors ?h = Some ancs \<longrightarrow> set ancs \<subseteq> set present"
    using fresh b(1) by (auto simp: known_def manager_ok_def own_block_new_def)
  from process_own_block [OF ok b(1) this, of sig] run(2) have
    res: "accepted = [?h]" "tf = []" "suspended_headers (blm_suspender bm1) = suspended_headers (blm_suspender bm)"
      "suspended_transactions bm1 = suspended_transactions bm" by auto
  have "bm_get (suspended_transactions bm) (reference ?h) = None"
    using ok own_block_free [OF ok b(1)] unfolding manager_ok_def suspended_refs_get by (metis not_Some_eq)
  then have txs: "bm' = bm1" "txs = [vb_transactions b]"
    using run(3) by (simp_all add: res resolve_transactions_def take_suspended_transactions_def sort_block_transactions_def
        bs_from_list_def bs_extend_def Let_def)
  from run(4) obtain ds1 where
    1: "accept_block_header ds ?h source = Some ds1" "add_transactions ds1 (vb_transactions b) source = Some ds'"
    by (auto simp: res txs write_block_headers_and_transactions_to_dag_state_def accept_block_headers_def Option.bind_eq_Some_conv)
  have "header_of ds' r = Some g \<longleftrightarrow> ((header_of ds)(reference ?h \<mapsto> ?h)) r = Some g" for r g
    using post(2) [rule_format, of r g] fresh by (auto simp: res)
  then have "header_of ds' r = ((header_of ds)(reference ?h \<mapsto> ?h)) r" for r by (metis option.exhaust)
  then have "header_of ds' = (header_of ds)(reference ?h \<mapsto> ?h)" by (rule ext)
  moreover have "try_accept_blocks sig bm ds [b] source = Some ([?h], [], bm1, ds')"
    using run by (simp add: try_accept_blocks_def res txs)
  ultimately show ?thesis using 1 post(1,3) res(3) by (auto simp: txs)
qed

subsection \<open>Properties\<close>

text \<open>C11: \<open>try_accept_block_headers\<close> does not panic on headers of other authorities that are well formed, as
  the block verifier makes sure, and whose acknowledgments can be read, which it does not check, and
  keeps the block manager and the DAG consistent. The returned headers come from the batch or were
  suspended before, are new to the DAG, each has all its ancestors in the DAG or earlier in the list, and
  they are exactly what is added to the DAG, so the DAG stays causally complete. Every other header of the batch, or suspended before, is suspended, with
  exactly its ancestors that are not in the DAG (at least one) as missing, and the blocks to fetch are
  exactly the missing ones that are not suspended themselves.\<close>

theorem try_accept_block_headers_correct:
  assumes "manager_ok bm ds" "inj_on reference (set hs)"
    and "\<forall>h \<in> set hs. well_formed (ds_ctx ds) h \<and> bh_author h \<noteq> own_index (ds_ctx ds) \<and> acknowledgments h \<noteq> None"
  shows "\<exists>accepted tf bm' ds'. try_accept_block_headers sig bm ds hs source = Some (accepted, tf, bm', ds') \<and>
    manager_ok bm' ds' \<and> wf_dag (header_of ds') \<and> causal_order (known ds) accepted \<and>
    set accepted \<subseteq> set hs \<union> held_headers (blm_suspender bm) \<and>
    (\<forall>r h. header_of ds' r = Some h \<longleftrightarrow> header_of ds r = Some h \<or> h \<in> set accepted \<and> reference h = r) \<and>
    (\<forall>r \<in> reference ` set hs \<union> suspended_refs (blm_suspender bm). header_of ds' r = None \<longrightarrow> r \<in> suspended_refs (blm_suspender bm')) \<and>
    (\<forall>r s. bm_get (suspended_headers (blm_suspender bm')) r = Some s \<longrightarrow>
       reference (sus_header s) = r \<and> header_of ds' r = None \<and> sus_missing s \<noteq> [] \<and>
       (\<exists>ancs. ancestors (sus_header s) = Some ancs \<and> set (sus_missing s) = {a \<in> set ancs. header_of ds' a = None})) \<and>
    (\<forall>m. bm_get (blocks_to_fetch bm') m \<noteq> None \<longleftrightarrow>
       header_of ds' m = None \<and> bm_get (suspended_headers (blm_suspender bm')) m = None \<and>
       (\<exists>r s. bm_get (suspended_headers (blm_suspender bm')) r = Some s \<and> m \<in> set (sus_missing s)))"
proof -
  have wf: "\<forall>h \<in> set hs. well_formed (ds_ctx ds) h" and acc: "\<forall>h \<in> set hs. acceptable (ds_ctx ds) h"
    using assms(3) by (simp_all add: acceptable_def)
  have "blocks_of hs []" by (simp add: blocks_of_def)
  from accept_batch_run [OF assms(1) wf assms(2) this peers_batch [OF assms(1) acc], of sig source] obtain present bm1 accepted tf bm' txs ds' where
    run: "present_header_and_ancestor_refs_in_dag_state ds hs = Some present"
      "process_block_headers sig bm hs present = Some (bm1, accepted, tf)" "resolve_transactions bm1 accepted present (Some []) = (bm', txs)"
      "write_block_headers_and_transactions_to_dag_state ds accepted txs source = Some ds'"
    and post: "manager_ok bm' ds'" "causal_order (known ds) accepted" "set accepted \<subseteq> set hs \<union> held_headers (blm_suspender bm)"
      "\<forall>r h. header_of ds' r = Some h \<longleftrightarrow> header_of ds r = Some h \<or> h \<in> set accepted \<and> reference h = r"
      "\<forall>r \<in> reference ` set hs \<union> suspended_refs (blm_suspender bm). header_of ds' r = None \<longrightarrow> r \<in> suspended_refs (blm_suspender bm')"
    by (elim exE conjE) (rule that; assumption)
  have "try_accept_block_headers sig bm ds hs source = Some (accepted, tf, bm', ds')"
    using run by (simp add: try_accept_block_headers_def resolve_transactions_None)
  moreover have "wf_dag (header_of ds')" using post(1) by (simp add: manager_ok_def)
  ultimately show ?thesis using post manager_okD [OF post(1)] by blast
qed

text \<open>C12: \<open>try_accept_blocks\<close> does not panic on blocks of other authorities that are well formed, as the
  block verifier makes sure, and whose acknowledgments can be read, which it does not check, and loses no
  transactions. The transactions of a block, or those kept back from an earlier batch, are in the DAG
  state once the header is, and until then they are kept back under the block's reference (unless there
  are none).\<close>

theorem try_accept_blocks_keeps_transactions:
  assumes "manager_ok bm ds" "inj_on (reference \<circ> vb_header) (set blocks)" "\<forall>b \<in> set blocks. block_ok b"
    and "\<forall>b \<in> set blocks. well_formed (ds_ctx ds) (vb_header b) \<and> bh_author (vb_header b) \<noteq> own_index (ds_ctx ds) \<and>
      acknowledgments (vb_header b) \<noteq> None"
  shows "\<exists>accepted tf bm' ds'. try_accept_blocks sig bm ds blocks source = Some (accepted, tf, bm', ds') \<and>
    manager_ok bm' ds' \<and>
    (\<forall>r h. header_of ds' r = Some h \<longleftrightarrow> header_of ds r = Some h \<or> h \<in> set accepted \<and> reference h = r) \<and>
    (\<forall>b \<in> set blocks. if header_of ds' (reference (vb_header b)) \<noteq> None then recorded ds' (vb_transactions b)
       else reference (vb_header b) \<in> suspended_refs (blm_suspender bm') \<and>
         (has_transactions (vb_transactions b) \<longrightarrow>
           bm_get (suspended_transactions bm') (reference (vb_header b)) = Some (vb_transactions b))) \<and>
    (\<forall>r t. bm_get (suspended_transactions bm) r = Some t \<longrightarrow>
       (if header_of ds' r \<noteq> None then recorded ds' t else bm_get (suspended_transactions bm') r \<noteq> None))"
proof -
  let ?hs = "map vb_header blocks"
  have bls: "blocks_of ?hs blocks" using assms(3,2) by (auto simp: blocks_of_def inj_on_def)
  have acc: "\<forall>h \<in> set ?hs. acceptable (ds_ctx ds) h" using assms(4) by (auto simp: acceptable_def)
  have wf: "\<forall>h \<in> set ?hs. well_formed (ds_ctx ds) h" using acc by (simp add: acceptable_def)
  have "inj_on reference (set ?hs)" using assms(2) by (auto simp: inj_on_def)
  from accept_batch_run [OF assms(1) wf this bls peers_batch [OF assms(1) acc], of sig source] obtain present bm1 accepted tf bm' txs ds' where
    run: "present_header_and_ancestor_refs_in_dag_state ds ?hs = Some present"
      "process_block_headers sig bm ?hs present = Some (bm1, accepted, tf)" "resolve_transactions bm1 accepted present (Some blocks) = (bm', txs)"
      "write_block_headers_and_transactions_to_dag_state ds accepted txs source = Some ds'"
    and post: "manager_ok bm' ds'"
      "\<forall>r h. header_of ds' r = Some h \<longleftrightarrow> header_of ds r = Some h \<or> h \<in> set accepted \<and> reference h = r"
      "\<forall>r \<in> reference ` set ?hs \<union> suspended_refs (blm_suspender bm). header_of ds' r = None \<longrightarrow> r \<in> suspended_refs (blm_suspender bm')"
      "\<forall>b \<in> set blocks. if header_of ds' (reference (vb_header b)) \<noteq> None then recorded ds' (vb_transactions b)
       else has_transactions (vb_transactions b) \<longrightarrow>
         bm_get (suspended_transactions bm') (reference (vb_header b)) = Some (vb_transactions b)"
      "\<forall>r t. bm_get (suspended_transactions bm) r = Some t \<longrightarrow>
       (if header_of ds' r \<noteq> None then recorded ds' t else bm_get (suspended_transactions bm') r \<noteq> None)"
    by (elim exE conjE) (rule that; assumption)
  have "try_accept_blocks sig bm ds blocks source = Some (accepted, tf, bm', ds')"
    using run by (simp add: try_accept_blocks_def)
  moreover have "\<forall>b \<in> set blocks. if header_of ds' (reference (vb_header b)) \<noteq> None then recorded ds' (vb_transactions b)
       else reference (vb_header b) \<in> suspended_refs (blm_suspender bm') \<and>
         (has_transactions (vb_transactions b) \<longrightarrow>
           bm_get (suspended_transactions bm') (reference (vb_header b)) = Some (vb_transactions b))"
    using post(3,4) by simp
  ultimately show ?thesis using post(1,2,5) by blast
qed

subsection \<open>Witnesses\<close>

text \<open>A freshly created block manager satisfies the invariant.\<close>

lemma manager_ok_new:
  assumes "dag_ok ds" "wf_dag (header_of ds)"
  shows "manager_ok (block_manager_new (ds_ctx ds)) ds"
  using assms dag_ok_committee [OF assms(1)]
  by (simp add: manager_ok_def block_manager_new_def block_suspender_new_def suspender_ok_def suspended_ok_def children_ok_def
      children_of_def waiting_def fetch_ok_def held_headers_def)

lemma sync_acceptable:
  assumes "0 < a" "a < n" "0 < r" "r \<le> u32_max"
  shows "acceptable (sync_context n) (sync_header n r a)"
  using assms by (auto simp: acceptable_def well_formed_def sync_context_def example_context_def header_fits_def own_first_facts)

theorem try_accept_block_headers_witness:
  "\<exists>ds accepted tf bm' ds'. sync_state 4 3 = Some ds \<and>
    try_accept_block_headers (\<lambda>_. []) (block_manager_new (sync_context 4)) ds [sync_header 4 5 1, sync_header 4 4 2] BlockBundleStream =
      Some (accepted, tf, bm', ds') \<and> wf_dag (header_of ds') \<and> sync_ref 5 1 \<in> suspended_refs (blm_suspender bm')"
proof -
  from sync_state_run [of 4 3] obtain ds where ds: "sync_state 4 3 = Some ds" "dag_ok ds" "ds_ctx ds = sync_context 4"
    "header_of ds = sync_dag 4 (up_to 3)" by (auto simp: u32_max_def)
  let ?hs = "[sync_header 4 5 1, sync_header 4 4 2]" and ?bm = "block_manager_new (sync_context 4)"
  have ok: "manager_ok ?bm ds" using manager_ok_new [OF ds(2)] ds(3,4) sync_wf_dag by simp
  have acc: "\<forall>h \<in> set ?hs. well_formed (ds_ctx ds) h \<and> bh_author h \<noteq> own_index (ds_ctx ds) \<and> acknowledgments h \<noteq> None"
    using sync_acceptable [of 1 4 5] sync_acceptable [of 2 4 4] by (simp add: acceptable_def ds(3) u32_max_def)
  have inj: "inj_on reference (set ?hs)" by (simp add: inj_on_def)
  from try_accept_block_headers_correct [OF ok inj acc, of "\<lambda>_. []" BlockBundleStream] obtain accepted tf bm' ds' where
    run: "try_accept_block_headers (\<lambda>_. []) ?bm ds ?hs BlockBundleStream = Some (accepted, tf, bm', ds')"
    and wf: "wf_dag (header_of ds')" and sub: "set accepted \<subseteq> set ?hs \<union> held_headers (blm_suspender ?bm)"
    and new: "\<forall>r h. header_of ds' r = Some h \<longleftrightarrow> header_of ds r = Some h \<or> h \<in> set accepted \<and> reference h = r"
    and rest: "\<forall>r \<in> reference ` set ?hs \<union> suspended_refs (blm_suspender ?bm).
        header_of ds' r = None \<longrightarrow> r \<in> suspended_refs (blm_suspender bm')" by (elim exE conjE) (rule that; assumption)
  have sub': "set accepted \<subseteq> set ?hs" using sub by (simp add: held_headers_def block_manager_new_def block_suspender_new_def)
  have "header_of ds' (sync_ref 4 0) = None"
    using new sub' by (cases "header_of ds' (sync_ref 4 0)") (auto simp: ds(4) sync_dag_def up_to_def)
  moreover have "sync_ref 4 0 \<in> set (map (sync_ref 4) (own_first 4 1))" by (simp add: own_first_facts)
  ultimately have "header_of ds' (sync_ref 5 1) \<noteq> Some (sync_header 4 5 1)"
    using wf_dag_ancestor [OF wf, of "sync_ref 5 1" "sync_header 4 5 1" "map (sync_ref 4) (own_first 4 1)" "sync_ref 4 0"] by auto
  moreover have "header_of ds' (sync_ref 5 1) = Some h \<Longrightarrow> h = sync_header 4 5 1" for h
    using new sub' by (auto simp: ds(4) sync_dag_def up_to_def)
  ultimately have "header_of ds' (sync_ref 5 1) = None" by (cases "header_of ds' (sync_ref 5 1)") auto
  then have "sync_ref 5 1 \<in> suspended_refs (blm_suspender bm')" using rest by simp
  with ds(1) run wf show ?thesis by blast
qed

definition sync_block :: "nat \<Rightarrow> round \<Rightarrow> authority_index \<Rightarrow> verified_block" where
  "sync_block n r a = \<lparr> vb_header = sync_header n r a, vb_transactions = \<lparr> vt_transactions = [[1]],
     vt_transaction_ref = header_transaction_ref (sync_header n r a), vt_block_digest = Some (of_nat a) \<rparr> \<rparr>"

theorem try_accept_blocks_witness:
  "\<exists>ds accepted tf bm' ds'. sync_state 4 3 = Some ds \<and>
    try_accept_blocks (\<lambda>_. []) (block_manager_new (sync_context 4)) ds [sync_block 4 4 2] BlockBundleStream =
      Some (accepted, tf, bm', ds') \<and>
    (if header_of ds' (sync_ref 4 2) \<noteq> None then recorded ds' (vb_transactions (sync_block 4 4 2))
     else bm_get (suspended_transactions bm') (sync_ref 4 2) = Some (vb_transactions (sync_block 4 4 2)))"
proof -
  from sync_state_run [of 4 3] obtain ds where ds: "sync_state 4 3 = Some ds" "dag_ok ds" "ds_ctx ds = sync_context 4"
    "header_of ds = sync_dag 4 (up_to 3)" by (auto simp: u32_max_def)
  let ?bs = "[sync_block 4 4 2]" and ?bm = "block_manager_new (sync_context 4)"
  have ok: "manager_ok ?bm ds" using manager_ok_new [OF ds(2)] ds(3,4) sync_wf_dag by simp
  have "vbh_digest (sync_header 4 4 2) = of_nat 2" using sync_header_simps(1) [of 4 4 2] by (simp add: reference_def sync_ref_def)
  then have bok: "\<forall>b \<in> set ?bs. block_ok b" by (simp add: sync_block_def block_ok_def)
  have acc: "\<forall>b \<in> set ?bs. well_formed (ds_ctx ds) (vb_header b) \<and> bh_author (vb_header b) \<noteq> own_index (ds_ctx ds) \<and>
      acknowledgments (vb_header b) \<noteq> None"
    using sync_acceptable [of 2 4 4] by (simp add: acceptable_def ds(3) u32_max_def sync_block_def)
  have inj: "inj_on (reference \<circ> vb_header) (set ?bs)" by simp
  from try_accept_blocks_keeps_transactions [OF ok inj bok acc, of "\<lambda>_. []" BlockBundleStream] obtain accepted tf bm' ds' where
    "try_accept_blocks (\<lambda>_. []) ?bm ds ?bs BlockBundleStream = Some (accepted, tf, bm', ds')"
    "\<forall>b \<in> set ?bs. if header_of ds' (reference (vb_header b)) \<noteq> None then recorded ds' (vb_transactions b)
       else reference (vb_header b) \<in> suspended_refs (blm_suspender bm') \<and>
         (has_transactions (vb_transactions b) \<longrightarrow>
           bm_get (suspended_transactions bm') (reference (vb_header b)) = Some (vb_transactions b))"
    by (elim exE conjE) (rule that; assumption)
  moreover have "has_transactions (vb_transactions (sync_block 4 4 2))" "reference (vb_header (sync_block 4 4 2)) = sync_ref 4 2"
    by (simp_all add: sync_block_def has_transactions_def)
  ultimately show ?thesis using ds(1) by (intro exI conjI) (assumption | force split: if_splits)+
qed

end
