(* ===== verification/Consensus_Error.thy ===== *)
theory Consensus_Error
  imports Commit
begin

section \<open>Errors\<close>

text \<open>
  \<open>crates/starfish/core/src/error.rs\<close>: the errors with which a header, a batch of transactions
  or a commit is rejected, and the quick validations of authority indices and requested references. The
  errors of external libraries that some constructors carry are strings. A fallible function
  of the code returns \<open>'a consensus_result\<close>; a function that may also panic returns an option
  of it, composed by \<open>bind_result\<close>.
\<close>

datatype (plugins only: size) consensus_error =
    MalformedHeader string
  | MalformedShard string
  | MalformedTransactions string
  | MalformedCommit string
  | SerializationFailure string
  | DeserializationFailure string
  | TransactionTooLarge nat nat
  | TooManyTransactions nat nat
  | TooManyTransactionBytes nat nat
  | UnexpectedAuthority authority_index authority_index
  | WrongEpoch nat nat
  | UnexpectedGenesisHeader
  | UnexpectedGenesisRequested authority_index
  | UnexpectedNumberOfHeadersFetched authority_index nat nat
  | UnexpectedLastOwnHeader authority_index block_ref
  | TooManyFetchedTransactionsReturned authority_index
  | TooManyAuthoritiesProvided authority_index
  | InvalidSizeOfHighestAcceptedRounds nat nat
  | InvalidAuthorityIndex authority_index nat
  | InvalidAuthorityIndexRequested authority_index nat authority_index
  | MalformedSignature string
  | SignatureVerificationFailure string
  | TransactionCommitmentFailure round authority_index authority_index
  | TransactionCommitmentMismatch transaction_ref
  | SynchronizerSaturated authority_index
  | TransactionSynchronizerSaturated
  | BlockRejected block_ref string
  | InvalidAncestorPosition authority_index authority_index nat
  | InvalidAncestorRound round round
  | InvalidGenesisAncestor block_ref
  | TooManyAncestors nat nat
  | CommitRangeExceededAfterScanning commit_index commit_index string
  | TooManyCommitsFromPeer authority_index commit_index commit_index
  | DuplicatedAncestorsAuthority authority_index
  | InsufficientParentStakes stake stake
  | InvalidTransaction string
  | NoCommitReceived authority_index
  | UnexpectedStartCommit authority_index commit_index commit
  | UnexpectedCommitSequence authority_index commit commit
  | NotEnoughCommitVotes stake authority_index commit
  | UnexpectedBlockHeaderForCommit authority_index block_ref block_ref
  | UnexpectedTransactionForCommit authority_index generic_transaction_ref
  | FetchedTransactionsMismatch authority_index nat nat
  | RocksDBFailure string
  | NetworkConfig string
  | NetworkClientConnection string
  | NetworkRequest string
  | NetworkRequestTimeout string
  | AccumulatorSenderClosed
  | Shutdown
  | EncoderResetFailed string
  | AddShardFailed string
  | ShardsEncodingFailed string
  | ShardsDecodingFailed string
  | InsufficientShardsInDecoder nat nat
  | ShardsVecIsTooSmall nat nat
  | TooBigHeaderRoundInABundle round round
  | IncorrectShardProof authority_index round
  | TooBigShardRoundInABundle round round
  | InconsistentTransactionRefVariants
  | TransactionRefVariantMismatch bool string string
  | FailedToFetchBlockHeaders nat
  | MissingVotingBlockHeaderInStorage block_ref
  | FastCommitSyncNotEnabled

type_synonym 'a consensus_result = "consensus_error + 'a"

definition bind_result :: "'a consensus_result option \<Rightarrow> ('a \<Rightarrow> 'b consensus_result option) \<Rightarrow> 'b consensus_result option" where
  "bind_result m f = do { r \<leftarrow> m; case r of Inl e \<Rightarrow> Some (Inl e) | Inr x \<Rightarrow> f x }"

definition ensure :: "bool \<Rightarrow> consensus_error \<Rightarrow> unit consensus_result" where
  "ensure b e = (if b then Inr () else Inl e)"

primrec quick_validation_authority_indices :: "committee \<Rightarrow> authority_index list \<Rightarrow> unit consensus_result" where
  "quick_validation_authority_indices c [] = Inr ()"
| "quick_validation_authority_indices c (a # as) =
     (if \<not> is_valid_index c a then Inl (InvalidAuthorityIndex a (size_of c))
      else quick_validation_authority_indices c as)"

primrec quick_validation_requested_block_refs ::
  "committee \<Rightarrow> authority_index \<Rightarrow> block_ref list \<Rightarrow> unit consensus_result" where
  "quick_validation_requested_block_refs c peer [] = Inr ()"
| "quick_validation_requested_block_refs c peer (r # rs) =
     (if \<not> is_valid_index c (br_author r) then Inl (InvalidAuthorityIndexRequested (br_author r) (size_of c) peer)
      else if br_round r = GENESIS_ROUND then Inl (UnexpectedGenesisRequested peer)
      else quick_validation_requested_block_refs c peer rs)"

primrec quick_validation_requested_tx_refs ::
  "committee \<Rightarrow> authority_index \<Rightarrow> generic_transaction_ref list \<Rightarrow> unit consensus_result" where
  "quick_validation_requested_tx_refs c peer [] = Inr ()"
| "quick_validation_requested_tx_refs c peer (r # rs) =
     (if \<not> is_valid_index c (gtr_author r) then Inl (InvalidAuthorityIndexRequested (gtr_author r) (size_of c) peer)
      else if gtr_round r = GENESIS_ROUND then Inl (UnexpectedGenesisRequested peer)
      else quick_validation_requested_tx_refs c peer rs)"

lemma bind_result_simps [simp]:
  "bind_result None f = None" "bind_result (Some (Inl e)) f = Some (Inl e)" "bind_result (Some (Inr x)) f = f x"
  by (simp_all add: bind_result_def)

lemma bind_result_ok: "bind_result m f = Some (Inr y) \<longleftrightarrow> (\<exists>x. m = Some (Inr x) \<and> f x = Some (Inr y))"
  by (cases m) (auto simp: bind_result_def split: sum.splits)

lemma ensure_simps [simp]: "ensure True e = Inr ()" "ensure False e = Inl e" "ensure b e = Inr u \<longleftrightarrow> b"
  by (simp_all add: ensure_def)

lemma quick_validation_authorities_ok:
  "quick_validation_authority_indices c as = Inr () \<longleftrightarrow> (\<forall>a \<in> set as. is_valid_index c a)"
  by (induction as) auto

lemma quick_validation_block_refs_ok:
  "quick_validation_requested_block_refs c peer rs = Inr () \<longleftrightarrow>
     (\<forall>r \<in> set rs. is_valid_index c (br_author r) \<and> br_round r \<noteq> GENESIS_ROUND)"
  by (induction rs) auto

end
