(* ===== verification/Leader_Schedule.thy ===== *)
theory Leader_Schedule
  imports Dag_State_Commits
begin

section \<open>The leader schedule\<close>

text \<open>
  \<open>crates/starfish/core/src/leader_schedule.rs\<close>: the election of a leader by stake, the table
  that replaces badly scored leaders by well scored ones, and its renewal every
  \<open>num_commits_per_schedule\<close> commits. The random choices of the \<open>rand\<close> crate, which are
  functions of a 32-byte seed, are the record \<open>random_source\<close>; \<open>random_ok\<close> is what its
  documentation promises. Main results: good and bad nodes are disjoint and ordered by score,
  an elected leader is a member that is not a bad node, and a renewal never panics on
  consecutive windows.
\<close>

type_synonym rng_seed = "8 word list"

definition to_le_bytes :: "nat \<Rightarrow> 8 word list" where
  "to_le_bytes n = map (\<lambda>i. word_of_nat (n div 256 ^ i)) [0..<4]"

text \<open>
  \<open>shuffle\<close>, \<open>choose_multiple_weighted\<close> and \<open>choose\<close> of \<open>SliceRandom\<close>, each with the generator
  \<open>StdRng::from_seed\<close> of the given seed; the weights are the stakes converted to \<open>f32\<close>.
\<close>

record random_source =
  rng_shuffle :: "rng_seed \<Rightarrow> (authority_index \<times> nat) list \<Rightarrow> (authority_index \<times> nat) list"
  rng_choose_multiple_weighted ::
    "rng_seed \<Rightarrow> (authority_index \<times> stake) list \<Rightarrow> nat \<Rightarrow> (authority_index \<times> stake) list option"
  rng_choose ::
    "rng_seed \<Rightarrow> (authority_index \<times> string \<times> stake) list \<Rightarrow> (authority_index \<times> string \<times> stake) option"

record leader_swap_table =
  good_nodes :: "(authority_index \<times> string \<times> stake) list"
  bad_nodes :: "(authority_index, string \<times> stake) btreemap"
  lst_scores_desc :: "(authority_index \<times> nat) list"
  lst_reputation_scores :: reputation_scores

definition default_range :: commit_range where
  "default_range = CommitRange 0 0"

definition default_swap_table :: leader_swap_table where
  "default_swap_table = \<lparr> good_nodes = [], bad_nodes = [], lst_scores_desc = [],
     lst_reputation_scores = \<lparr> scores_per_authority = [], rs_commit_range = default_range \<rparr> \<rparr>"

primrec retrieve_loop ::
  "committee \<Rightarrow> nat \<Rightarrow> stake \<Rightarrow> (authority_index \<times> nat) list \<Rightarrow> (authority_index \<times> string \<times> stake) list option"
where
  "retrieve_loop c threshold acc [] = Some []"
| "retrieve_loop c threshold acc (x # xs) = do {
     s \<leftarrow> stake_at c (fst x);
     let acc' = wrap_u64 (acc + s);
     if wrap_u64 (threshold * total_stake c) div 100 < acc' then Some []
     else do {
       a \<leftarrow> authority_at c (fst x);
       rest \<leftarrow> retrieve_loop c threshold acc' xs;
       Some ((fst x, a_hostname a, a_stake a) # rest) } }"

definition retrieve_first_nodes ::
  "committee \<Rightarrow> (authority_index \<times> nat) list \<Rightarrow> nat \<Rightarrow> (authority_index \<times> string \<times> stake) list option" where
  "retrieve_first_nodes c xs threshold = retrieve_loop c threshold 0 xs"

definition table_seed :: "commit_index \<Rightarrow> rng_seed" where
  "table_seed i = replicate 28 0 @ to_le_bytes i"

definition swap_table_new_inner ::
  "random_source \<Rightarrow> committee \<Rightarrow> nat \<Rightarrow> commit_index \<Rightarrow> reputation_scores \<Rightarrow> leader_swap_table option" where
  "swap_table_new_inner rng c threshold i scores = do {
     assert_that (threshold \<le> 33);
     if scores_per_authority scores = [] then Some default_swap_table
     else do {
       by_score \<leftarrow> authorities_by_score c scores;
       assert_that (length by_score = size_of c);
       let sorted_desc = sort_key (\<lambda>x. - int (snd x)) (rng_shuffle rng (table_seed i) by_score);
       good \<leftarrow> retrieve_first_nodes c sorted_desc threshold;
       bad \<leftarrow> retrieve_first_nodes c (rev sorted_desc) threshold;
       Some \<lparr> good_nodes = good, bad_nodes = fold (\<lambda>(a, v). bm_insert a v) bad [],
              lst_scores_desc = sorted_desc, lst_reputation_scores = scores \<rparr> } }"

definition swap_table_new ::
  "random_source \<Rightarrow> consensus_context \<Rightarrow> commit_index \<Rightarrow> reputation_scores \<Rightarrow> leader_swap_table option" where
  "swap_table_new rng ctx i scores =
     swap_table_new_inner rng (ctx_committee ctx) (consensus_bad_nodes_stake_threshold ctx) i scores"

definition swap_seed :: "round \<Rightarrow> nat \<Rightarrow> rng_seed" where
  "swap_seed r offset = replicate 24 0 @ to_le_bytes r @ to_le_bytes offset"

definition swap_leader ::
  "random_source \<Rightarrow> leader_swap_table \<Rightarrow> authority_index \<Rightarrow> round \<Rightarrow> nat \<Rightarrow> authority_index option option" where
  "swap_leader rng t leader r offset =
     (if bm_contains_key (bad_nodes t) leader then do {
        assert_that (offset = 0);
        (a, _) \<leftarrow> rng_choose rng (swap_seed r offset) (good_nodes t);
        Some (Some a) }
      else Some None)"

subsection \<open>The schedule\<close>

definition CONSENSUS_COMMITS_PER_SCHEDULE :: nat where
  "CONSENSUS_COMMITS_PER_SCHEDULE = 300"

record leader_schedule =
  ls_swap_table :: leader_swap_table
  ls_context :: consensus_context
  num_commits_per_schedule :: nat

definition leader_schedule_new :: "consensus_context \<Rightarrow> leader_swap_table \<Rightarrow> leader_schedule" where
  "leader_schedule_new ctx t =
     \<lparr> ls_swap_table = t, ls_context = ctx, num_commits_per_schedule = CONSENSUS_COMMITS_PER_SCHEDULE \<rparr>"

definition calculate_seed_index :: "commit_ref \<Rightarrow> commit_info \<Rightarrow> commit_index" where
  "calculate_seed_index r info =
     (let e = range_end (rs_commit_range (ci_reputation_scores info))
      in if e = GENESIS_COMMIT_INDEX then cr_index r else e)"

definition recover_leader_swap_table ::
  "random_source \<Rightarrow> consensus_context \<Rightarrow> dag_state \<Rightarrow> leader_swap_table option" where
  "recover_leader_swap_table rng ctx ds =
     (case recover_last_commit_info ds of
        None \<Rightarrow> Some default_swap_table
      | Some (r, info) \<Rightarrow> swap_table_new rng ctx (calculate_seed_index r info) (ci_reputation_scores info))"

definition leader_schedule_from_store ::
  "random_source \<Rightarrow> consensus_context \<Rightarrow> dag_state \<Rightarrow> leader_schedule option" where
  "leader_schedule_from_store rng ctx ds = do {
     t \<leftarrow> recover_leader_swap_table rng ctx ds;
     scoring_subdags_count ds;
     Some (leader_schedule_new ctx t) }"

definition leader_schedule_reinitialize ::
  "random_source \<Rightarrow> leader_schedule \<Rightarrow> dag_state \<Rightarrow> leader_schedule option" where
  "leader_schedule_reinitialize rng ls ds = do {
     t \<leftarrow> recover_leader_swap_table rng (ls_context ls) ds;
     scoring_subdags_count ds;
     Some (ls\<lparr> ls_swap_table := t \<rparr>) }"

definition commits_until_leader_schedule_update :: "leader_schedule \<Rightarrow> dag_state \<Rightarrow> nat option" where
  "commits_until_leader_schedule_update ls ds = do {
     n \<leftarrow> scoring_subdags_count ds;
     if num_commits_per_schedule ls < n then Some 0
     else if n = num_commits_per_schedule ls then Some 0
     else Some (num_commits_per_schedule ls - n) }"

definition leader_schedule_updated :: "dag_state \<Rightarrow> bool" where
  "leader_schedule_updated ds = is_scoring_subdag_empty ds"

definition election_seed :: "round \<Rightarrow> rng_seed" where
  "election_seed r = replicate 28 0 @ to_le_bytes r"

definition elect_leader_stake_based ::
  "random_source \<Rightarrow> committee \<Rightarrow> round \<Rightarrow> nat \<Rightarrow> authority_index option" where
  "elect_leader_stake_based rng c r offset = do {
     assert_that (offset < size_of c);
     let choices = map (\<lambda>(i, a). (i, a_stake a)) (authorities_enum c);
     picks \<leftarrow> rng_choose_multiple_weighted rng (election_seed r) choices (size_of c);
     map_option fst (vec_get picks offset) }"

definition elect_leader ::
  "random_source \<Rightarrow> leader_schedule \<Rightarrow> round \<Rightarrow> nat \<Rightarrow> authority_index option" where
  "elect_leader rng ls r offset = do {
     leader \<leftarrow> elect_leader_stake_based rng (ctx_committee (ls_context ls)) r offset;
     swapped \<leftarrow> swap_leader rng (ls_swap_table ls) leader r offset;
     Some (case swapped of Some a \<Rightarrow> a | None \<Rightarrow> leader) }"

definition range_validation :: "leader_swap_table \<Rightarrow> leader_swap_table \<Rightarrow> unit option" where
  "range_validation new_table old_table =
     (let old = rs_commit_range (lst_reputation_scores old_table);
          new = rs_commit_range (lst_reputation_scores new_table)
      in if old = default_range then Some ()
         else if is_next_range old new then is_equal_size old new \<bind> assert_that
         else None)"

definition persist_scores :: "dag_state \<Rightarrow> reputation_scores \<Rightarrow> dag_state option" where
  "persist_scores ds scores = add_commit_info (clear_scoring_subdag ds) scores"

definition update_score_metrics :: "committee \<Rightarrow> reputation_scores \<Rightarrow> unit option" where
  "update_score_metrics c scores = do {
     mapM (\<lambda>(i, _). do { a \<leftarrow> to_authority_index c i; authority_at c a })
       (List.enumerate 0 (scores_per_authority scores));
     Some () }"

definition apply_reputation_scores_inner :: "leader_schedule \<Rightarrow> leader_swap_table \<Rightarrow> leader_schedule option" where
  "apply_reputation_scores_inner ls t = do {
     update_score_metrics (ctx_committee (ls_context ls)) (lst_reputation_scores t);
     Some (ls\<lparr> ls_swap_table := t \<rparr>) }"

definition update_leader_schedule ::
  "random_source \<Rightarrow> leader_schedule \<Rightarrow> dag_state \<Rightarrow> (leader_schedule \<times> dag_state) option" where
  "update_leader_schedule rng ls ds = do {
     scores \<leftarrow> calculate_scoring_subdag_scores ds;
     last_commit_index \<leftarrow> scoring_subdag_commit_range ds;
     t \<leftarrow> swap_table_new rng (ls_context ls) last_commit_index scores;
     ds' \<leftarrow> persist_scores ds scores;
     range_validation t (ls_swap_table ls);
     ls' \<leftarrow> apply_reputation_scores_inner ls t;
     Some (ls', ds') }"

definition update_from_commit_scores ::
  "random_source \<Rightarrow> leader_schedule \<Rightarrow> dag_state \<Rightarrow> commit_index \<Rightarrow> (authority_index \<times> nat) list
     \<Rightarrow> (leader_schedule \<times> dag_state) option" where
  "update_from_commit_scores rng ls ds i scores_desc =
     (let e = i - 1 in
      if e = GENESIS_COMMIT_INDEX then Some (ls, ds)
      else if e \<le> last_commit_info_index ds then Some (ls, ds)
      else do {
        scores \<leftarrow> from_scores_desc (size_of (ctx_committee (ls_context ls)))
          (commit_range_new (e - (num_commits_per_schedule ls - 1)) e) scores_desc;
        t \<leftarrow> swap_table_new rng (ls_context ls) e scores;
        ds' \<leftarrow> persist_scores ds scores;
        ls' \<leftarrow> apply_reputation_scores_inner ls t;
        Some (ls', ds') })"

subsection \<open>Assumptions on the random choices\<close>

definition random_ok :: "random_source \<Rightarrow> bool" where
  "random_ok rng =
     ((\<forall>seed xs. mset (rng_shuffle rng seed xs) = mset xs) \<and>
      (\<forall>seed xs. xs \<noteq> [] \<longrightarrow> (\<exists>x \<in> set xs. rng_choose rng seed xs = Some x)) \<and>
      (\<forall>seed. rng_choose rng seed [] = None) \<and>
      (\<forall>seed xs. 0 < sum_list (map snd xs) \<longrightarrow>
         (\<exists>ys. rng_choose_multiple_weighted rng seed xs (length xs) = Some ys \<and> mset ys = mset xs)))"

lemma random_okD:
  assumes "random_ok rng"
  shows random_shuffle: "mset (rng_shuffle rng seed xs) = mset xs"
    and random_choose: "ys \<noteq> [] \<Longrightarrow> \<exists>y \<in> set ys. rng_choose rng seed ys = Some y"
    and random_choose_Nil: "rng_choose rng seed [] = None"
    and random_weighted: "0 < sum_list (map snd zs) \<Longrightarrow>
      \<exists>ws. rng_choose_multiple_weighted rng seed zs (length zs) = Some ws \<and> mset ws = mset zs"
  using assms by (simp_all add: random_ok_def)

text \<open>Different rounds, offsets and commit indices (all 32-bit) give different seeds.\<close>

lemma base_256_digits:
  fixes n :: nat
  shows "n = a + 256 * q \<Longrightarrow> q = b + 256 * r \<Longrightarrow> r = c + 256 * s \<Longrightarrow> s = d \<Longrightarrow> n = a + 256 * (b + 256 * (c + 256 * d))"
  by simp

lemma to_le_bytes_inject:
  assumes "to_le_bytes n = to_le_bytes m" "n < 4294967296" "m < 4294967296"
  shows "n = m"
proof -
  have digits: "n = n mod 256 + 256 * (n div 256 mod 256 + 256 * (n div 65536 mod 256 + 256 * (n div 16777216 mod 256)))"
    if "n < 4294967296" for n :: nat
  proof -
    have "n = n mod 256 + 256 * (n div 256)" by simp
    moreover have "n div 256 = n div 256 mod 256 + 256 * (n div 65536)"
      using mod_mult_div_eq [of "n div 256" 256] by (simp add: div_mult2_eq [symmetric])
    moreover have "n div 65536 = n div 65536 mod 256 + 256 * (n div 16777216)"
      using mod_mult_div_eq [of "n div 65536" 256] by (simp add: div_mult2_eq [symmetric])
    moreover have "n div 16777216 = n div 16777216 mod 256"
      using that by (simp add: less_mult_imp_div_less)
    ultimately show ?thesis by (rule base_256_digits)
  qed
  have "word_of_nat (n div 256 ^ i) = (word_of_nat (m div 256 ^ i) :: 8 word)" if "i < 4" for i
    using assms(1) that by (auto simp: to_le_bytes_def)
  moreover have "unat (word_of_nat k :: 8 word) = k mod 256" for k by (simp add: unat_of_nat)
  ultimately have "n div 256 ^ i mod 256 = m div 256 ^ i mod 256" if "i < 4" for i using that by metis
  from this [of 0] this [of 1] this [of 2] this [of 3] have
    "n mod 256 = m mod 256" "n div 256 mod 256 = m div 256 mod 256" "n div 65536 mod 256 = m div 65536 mod 256"
    "n div 16777216 mod 256 = m div 16777216 mod 256" by simp_all
  then show ?thesis
    using digits [OF assms(2)] digits [OF assms(3)] by argo
qed

subsection \<open>The swap table\<close>

definition node_of :: "committee \<Rightarrow> authority_index \<times> nat \<Rightarrow> authority_index \<times> string \<times> stake" where
  "node_of c x = (fst x, a_hostname (authorities c ! fst x), a_stake (authorities c ! fst x))"

definition list_stake :: "committee \<Rightarrow> (authority_index \<times> nat) list \<Rightarrow> stake" where
  "list_stake c xs = sum_list (map (\<lambda>x. a_stake (authorities c ! fst x)) xs)"

lemma list_stake_simps [simp]:
  "list_stake c [] = 0" "list_stake c (x # xs) = a_stake (authorities c ! fst x) + list_stake c xs"
  "list_stake c (xs @ ys) = list_stake c xs + list_stake c ys" "list_stake c (rev xs) = list_stake c xs"
  by (simp_all add: list_stake_def rev_map [symmetric])

lemma list_stake_distinct:
  "distinct (map fst xs) \<Longrightarrow> list_stake c xs = stake_sum c (fst ` set xs)"
  by (simp add: list_stake_def stake_sum_def sum_list_distinct_conv_sum_set distinct_map
      sum.reindex [of fst "set xs"] o_def)

lemma retrieve_loop_prefix:
  assumes "fst ` set xs \<subseteq> members c" "acc + list_stake c xs < 18446744073709551616"
    "acc \<le> wrap_u64 (threshold * total_stake c) div 100"
  shows "\<exists>k \<le> length xs. retrieve_loop c threshold acc xs = Some (map (node_of c) (take k xs)) \<and>
    acc + list_stake c (take k xs) \<le> wrap_u64 (threshold * total_stake c) div 100 \<and>
    (k < length xs \<longrightarrow> wrap_u64 (threshold * total_stake c) div 100 < acc + list_stake c (take (Suc k) xs))"
  using assms
proof (induction xs arbitrary: acc)
  case (Cons x xs)
  let ?s = "a_stake (authorities c ! fst x)" and ?limit = "wrap_u64 (threshold * total_stake c) div 100"
  have m: "fst x \<in> members c" using Cons.prems(1) by simp
  have st: "stake_at c (fst x) = Some ?s" "authority_at c (fst x) = Some (authorities c ! fst x)"
    using m by (simp_all add: stake_at_Some authority_at_def members_def size_of_def)
  have wrap: "wrap_u64 (acc + ?s) = acc + ?s" using Cons.prems(2) by simp
  show ?case
  proof (cases "?limit < acc + ?s")
    case True
    with st wrap Cons.prems(3) show ?thesis by (intro exI [of _ 0]) simp
  next
    case False
    with Cons.IH [of "acc + ?s"] Cons.prems obtain k where
      "k \<le> length xs" "retrieve_loop c threshold (acc + ?s) xs = Some (map (node_of c) (take k xs))"
      "acc + ?s + list_stake c (take k xs) \<le> ?limit"
      "k < length xs \<longrightarrow> ?limit < acc + ?s + list_stake c (take (Suc k) xs)" by (auto simp: add.assoc)
    with st wrap False show ?thesis
      by (intro exI [of _ "Suc k"]) (simp add: node_of_def add.assoc)
  qed
qed simp

lemma authorities_by_score_enumerate:
  assumes "committee_ok c" "length (scores_per_authority s) = size_of c"
  shows "authorities_by_score c s = Some (enumerate 0 (scores_per_authority s))"
proof -
  have "mapM (\<lambda>(i, score). do { a \<leftarrow> to_authority_index c i; Some (a, score) }) (enumerate 0 (scores_per_authority s)) =
      Some (map (\<lambda>x. x) (enumerate 0 (scores_per_authority s)))"
    using assms by (intro mapM_SomeI) (auto simp: to_authority_index_def in_set_enumerate_eq size_of_def committee_ok_def)
  then show ?thesis by (simp add: authorities_by_score_def)
qed

text \<open>The authorities in descending order of their scores.\<close>

definition ranking :: "random_source \<Rightarrow> commit_index \<Rightarrow> reputation_scores \<Rightarrow> (authority_index \<times> nat) list" where
  "ranking rng i s =
     sort_key (\<lambda>x. - int (snd x)) (rng_shuffle rng (table_seed i) (enumerate 0 (scores_per_authority s)))"

lemma ranking_mset: "random_ok rng \<Longrightarrow> mset (ranking rng i s) = mset (enumerate 0 (scores_per_authority s))"
  by (simp add: ranking_def random_shuffle)

lemma ranking_facts:
  assumes "random_ok rng" "length (scores_per_authority s) = size_of c"
  shows "length (ranking rng i s) = size_of c" "distinct (map fst (ranking rng i s))"
    "fst ` set (ranking rng i s) = members c"
    "x \<in> set (ranking rng i s) \<Longrightarrow> snd x = scores_per_authority s ! fst x"
    "list_stake c (ranking rng i s) = stake_sum c (members c)"
proof -
  note m = ranking_mset [OF assms(1), of i s]
  have set: "set (ranking rng i s) = set (enumerate 0 (scores_per_authority s))"
    by (rule mset_eq_setD [OF m])
  show "length (ranking rng i s) = size_of c" using mset_eq_length [OF m] assms(2) by simp
  have "mset (map fst (ranking rng i s)) = mset (map fst (enumerate 0 (scores_per_authority s)))"
    unfolding mset_map m ..
  also have "map fst (enumerate 0 (scores_per_authority s)) = [0..<size_of c]" using assms(2) by simp
  finally have idx: "mset (map fst (ranking rng i s)) = mset [0..<size_of c]" .
  then show d: "distinct (map fst (ranking rng i s))" by (metis distinct_upt mset_eq_imp_distinct_iff)
  show f: "fst ` set (ranking rng i s) = members c"
    using mset_eq_setD [OF idx] by (simp add: members_def atLeast0LessThan)
  show "x \<in> set (ranking rng i s) \<Longrightarrow> snd x = scores_per_authority s ! fst x"
    unfolding set by (simp add: in_set_enumerate_eq)
  show "list_stake c (ranking rng i s) = stake_sum c (members c)" using list_stake_distinct [OF d] f by simp
qed

lemma fold_bm_insert_keys:
  "fst ` set (fold (\<lambda>(a, v). bm_insert a v) xs m) = fst ` set xs \<union> fst ` set m"
  by (induction xs arbitrary: m) (auto simp: case_prod_beta)

lemma bm_invar_fold: "bm_invar m \<Longrightarrow> bm_invar (fold (\<lambda>(a, v). bm_insert a v) xs m)"
  by (induction xs arbitrary: m) (auto simp: case_prod_beta)

lemma sorted_ranking: "sorted_wrt (\<lambda>x y. snd y \<le> snd x) (ranking rng i s)"
proof -
  have "sorted (map (\<lambda>x. - int (snd x)) (ranking rng i s))" by (simp add: ranking_def)
  then show ?thesis by (simp add: sorted_map)
qed

lemma ranking_split:
  assumes "x \<in> set (take k (ranking rng i s))" "y \<in> set (drop l (ranking rng i s))" "k \<le> l"
  shows "snd y \<le> snd x"
proof -
  have "y \<in> set (drop k (ranking rng i s))" using set_drop_subset_set_drop [OF assms(3)] assms(2) by (rule subsetD)
  moreover have "sorted_wrt (\<lambda>x y. snd y \<le> snd x) (take k (ranking rng i s) @ drop k (ranking rng i s))"
    using sorted_ranking by simp
  ultimately show ?thesis using assms(1) unfolding sorted_wrt_append by simp
qed

text \<open>A prefix and a suffix that each stay within a third of the stake do not overlap.\<close>

lemma light_parts_disjoint:
  assumes "committee_ok c" "list_stake c xs = total_stake c" "threshold \<le> 33" "k \<le> length xs" "m \<le> length xs"
    and "list_stake c (take k xs) * 100 \<le> threshold * total_stake c"
    and "list_stake c (take m (rev xs)) * 100 \<le> threshold * total_stake c"
  shows "k \<le> length xs - m"
proof (rule ccontr)
  assume "\<not> ?thesis"
  then have le: "length xs - m \<le> k" by simp
  have "list_stake c xs = list_stake c (take (length xs - m) xs) + list_stake c (drop (length xs - m) xs)"
    by (metis append_take_drop_id list_stake_simps(3))
  moreover have "list_stake c (take (length xs - m) xs) \<le> list_stake c (take k xs)"
  proof -
    have "take k xs = take (length xs - m) xs @ take (k - (length xs - m)) (drop (length xs - m) xs)"
      using le by (metis le_add_diff_inverse take_add)
    then show ?thesis by simp
  qed
  moreover have "list_stake c (drop (length xs - m) xs) = list_stake c (take m (rev xs))"
    by (simp add: take_rev)
  ultimately have "total_stake c * 100 \<le> 2 * (threshold * total_stake c)" using assms(2,6,7) by linarith
  also have "threshold * total_stake c \<le> 33 * total_stake c" using assms(3) by simp
  finally show False using assms(1) by (simp add: committee_ok_def)
qed

lemma swap_table_run:
  assumes c: "committee_ok c" "33 * total_stake c < 18446744073709551616" and t: "threshold \<le> 33"
    and s: "length (scores_per_authority s) = size_of c" and rng: "random_ok rng"
  shows "\<exists>tab k l. swap_table_new_inner rng c threshold i s = Some tab \<and> k \<le> l \<and> l \<le> size_of c \<and>
    good_nodes tab = map (node_of c) (take k (ranking rng i s)) \<and>
    fst ` set (bad_nodes tab) = fst ` set (drop l (ranking rng i s)) \<and> bm_invar (bad_nodes tab) \<and>
    lst_reputation_scores tab = s \<and> lst_scores_desc tab = ranking rng i s \<and>
    list_stake c (take k (ranking rng i s)) * 100 \<le> threshold * total_stake c \<and>
    list_stake c (drop l (ranking rng i s)) * 100 \<le> threshold * total_stake c \<and>
    (k < size_of c \<longrightarrow> threshold * total_stake c < (list_stake c (take (Suc k) (ranking rng i s)) * 100))"
proof -
  let ?R = "ranking rng i s" and ?limit = "wrap_u64 (threshold * total_stake c) div 100"
  note R = ranking_facts [OF rng s, where i = i]
  have total: "list_stake c ?R = total_stake c" using R(5) c(1) by (simp add: stake_sum_members committee_ok_def)
  have "threshold * total_stake c \<le> 33 * total_stake c" using t by simp
  from le_less_trans [OF this c(2)] have lim: "?limit = threshold * total_stake c div 100" by simp
  have small: "list_stake c xs < 18446744073709551616" if "xs = ?R \<or> xs = rev ?R" for xs
    using that total c(1) by (auto simp: committee_ok_def)
  obtain k where k: "k \<le> length ?R" "retrieve_first_nodes c ?R threshold = Some (map (node_of c) (take k ?R))"
    "list_stake c (take k ?R) \<le> ?limit" "k < length ?R \<longrightarrow> ?limit < list_stake c (take (Suc k) ?R)"
    using retrieve_loop_prefix [of ?R c 0 threshold] small [of ?R] R(3) by (auto simp: retrieve_first_nodes_def)
  obtain m where m: "m \<le> length ?R" "retrieve_first_nodes c (rev ?R) threshold = Some (map (node_of c) (take m (rev ?R)))"
    "list_stake c (take m (rev ?R)) \<le> ?limit"
    using retrieve_loop_prefix [of "rev ?R" c 0 threshold] small [of "rev ?R"] R(3) by (auto simp: retrieve_first_nodes_def)
  have bounds: "list_stake c (take k ?R) * 100 \<le> threshold * total_stake c"
    "list_stake c (take m (rev ?R)) * 100 \<le> threshold * total_stake c"
    "k < length ?R \<longrightarrow> threshold * total_stake c < list_stake c (take (Suc k) ?R) * 100"
    using k(3,4) m(3) unfolding lim by (auto simp: less_eq_div_iff_mult_less_eq div_less_iff_less_mult)
  have kl: "k \<le> length ?R - m" by (rule light_parts_disjoint [OF c(1) total t k(1) m(1) bounds(1,2)])
  let ?bad = "fold (\<lambda>(a, v). bm_insert a v) (map (node_of c) (take m (rev ?R))) []"
  have "fst ` set ?bad = fst ` set (drop (length ?R - m) ?R)"
    by (simp add: fold_bm_insert_keys take_rev image_image node_of_def del: fold_map)
  moreover have "bm_invar ?bad" by (rule bm_invar_fold) simp
  moreover have "scores_per_authority s \<noteq> []" using s c(1) by (auto simp: committee_ok_def size_of_def)
  ultimately show ?thesis
    using authorities_by_score_enumerate [OF c(1) s] s t k(2) m(2) kl bounds R(1)
    apply -
    apply (rule exI [of _ "\<lparr> good_nodes = map (node_of c) (take k ?R), bad_nodes = ?bad, lst_scores_desc = ?R,
          lst_reputation_scores = s \<rparr>"])
    apply (rule exI [of _ k])
    apply (rule exI [of _ "length ?R - m"])
    apply (simp add: swap_table_new_inner_def Let_def ranking_def [symmetric] take_rev)
    done
qed

lemma drop_take_fst_disjoint:
  assumes "distinct (map fst xs)" "k \<le> l"
  shows "fst ` set (take k xs) \<inter> fst ` set (drop l xs) = {}"
proof -
  have "distinct (map fst (take k xs) @ map fst (drop k xs))"
    using assms(1) by (metis append_take_drop_id map_append)
  then have "fst ` set (take k xs) \<inter> fst ` set (drop k xs) = {}" by simp
  then show ?thesis using set_drop_subset_set_drop [OF assms(2), of xs] by blast
qed

lemma list_stake_part:
  "distinct (map fst xs) \<Longrightarrow> list_stake c (take k xs) = stake_sum c (fst ` set (take k xs))"
  "distinct (map fst xs) \<Longrightarrow> list_stake c (drop k xs) = stake_sum c (fst ` set (drop k xs))"
  by (rule list_stake_distinct; simp add: take_map [symmetric] drop_map [symmetric])+

text \<open>
  C26: the swap table built from the scores of a committee never panics for a threshold of at
  most 33 percent; its good nodes and its bad nodes are disjoint, each group holds at most
  the threshold's share of the stake, and no bad node has a better score than a good node.
\<close>

theorem swap_table_separates:
  assumes "committee_ok c" "33 * total_stake c < 18446744073709551616" "threshold \<le> 33"
    "length (scores_per_authority s) = size_of c" "random_ok rng"
  shows "\<exists>t. swap_table_new_inner rng c threshold i s = Some t \<and>
    fst ` set (good_nodes t) \<inter> fst ` set (bad_nodes t) = {} \<and>
    100 * stake_sum c (fst ` set (good_nodes t)) \<le> threshold * total_stake c \<and>
    100 * stake_sum c (fst ` set (bad_nodes t)) \<le> threshold * total_stake c \<and>
    (\<forall>g \<in> fst ` set (good_nodes t). \<forall>b \<in> fst ` set (bad_nodes t).
       scores_per_authority s ! b \<le> scores_per_authority s ! g)"
proof -
  let ?R = "ranking rng i s"
  from swap_table_run [OF assms, of i] obtain t k l where
    t: "swap_table_new_inner rng c threshold i s = Some t" "k \<le> l" "good_nodes t = map (node_of c) (take k ?R)"
      "fst ` set (bad_nodes t) = fst ` set (drop l ?R)"
      "list_stake c (take k ?R) * 100 \<le> threshold * total_stake c" "list_stake c (drop l ?R) * 100 \<le> threshold * total_stake c"
    by blast
  note R = ranking_facts [OF assms(5,4), where i = i]
  have good: "fst ` set (good_nodes t) = fst ` set (take k ?R)" by (simp add: t(3) image_image node_of_def)
  have score: "scores_per_authority s ! fst x = snd x" if "x \<in> set (take k ?R) \<or> x \<in> set (drop l ?R)" for x
    using R(4) [of x] that by (metis in_set_takeD in_set_dropD)
  have "scores_per_authority s ! fst y \<le> scores_per_authority s ! fst x"
    if "x \<in> set (take k ?R)" "y \<in> set (drop l ?R)" for x y
    using ranking_split [OF that t(2)] that by (simp add: score)
  then have "\<forall>g \<in> fst ` set (good_nodes t). \<forall>b \<in> fst ` set (bad_nodes t).
      scores_per_authority s ! b \<le> scores_per_authority s ! g"
    unfolding good t(4) by simp
  moreover have "100 * stake_sum c (fst ` set (good_nodes t)) \<le> threshold * total_stake c"
    "100 * stake_sum c (fst ` set (bad_nodes t)) \<le> threshold * total_stake c"
    using t(5,6) list_stake_part [OF R(2), of c] unfolding good t(4) by (simp_all add: mult.commute)
  moreover have "fst ` set (good_nodes t) \<inter> fst ` set (bad_nodes t) = {}"
    unfolding good t(4) by (rule drop_take_fst_disjoint [OF R(2) t(2)])
  ultimately show ?thesis using t(1) by blast
qed

definition example_rng :: random_source where
  "example_rng = \<lparr> rng_shuffle = (\<lambda>_ xs. xs), rng_choose_multiple_weighted = (\<lambda>_ xs n. Some (rev xs)),
     rng_choose = (\<lambda>_ xs. case xs of [] \<Rightarrow> None | x # _ \<Rightarrow> Some x) \<rparr>"

lemma example_rng_ok: "random_ok example_rng"
  by (auto simp: random_ok_def example_rng_def split: list.splits)

definition example_scores :: "nat list \<Rightarrow> reputation_scores" where
  "example_scores xs = \<lparr> scores_per_authority = xs, rs_commit_range = commit_range_new 1 300 \<rparr>"

theorem swap_table_separates_witness:
  "\<exists>t. swap_table_new_inner example_rng (example_committee 7) 20 300 (example_scores [5, 1, 9, 4, 4, 7, 3]) = Some t \<and>
    fst ` set (good_nodes t) \<inter> fst ` set (bad_nodes t) = {} \<and>
    100 * stake_sum (example_committee 7) (fst ` set (good_nodes t)) \<le> 20 * total_stake (example_committee 7) \<and>
    100 * stake_sum (example_committee 7) (fst ` set (bad_nodes t)) \<le> 20 * total_stake (example_committee 7) \<and>
    (\<forall>g \<in> fst ` set (good_nodes t). \<forall>b \<in> fst ` set (bad_nodes t).
       scores_per_authority (example_scores [5, 1, 9, 4, 4, 7, 3]) ! b \<le> scores_per_authority (example_scores [5, 1, 9, 4, 4, 7, 3]) ! g)"
  by (rule swap_table_separates)
    (simp_all add: example_committee_ok example_rng_ok example_scores_def, simp_all add: example_committee_def size_of_def)

subsection \<open>Election\<close>

lemma elect_leader_stake_based_member:
  assumes "committee_ok c" "offset < size_of c" "random_ok rng"
  shows "\<exists>a \<in> members c. elect_leader_stake_based rng c r offset = Some a"
proof -
  let ?choices = "map (\<lambda>(i, a). (i, a_stake a)) (authorities_enum c)"
  have "map snd (map (\<lambda>(i, a). (i, a_stake a)) (map (\<lambda>(i, a). (wrap_u8 i, a)) (enumerate n xs))) = map a_stake xs" for n xs
    by (induction xs arbitrary: n) auto
  then have "map snd ?choices = map a_stake (authorities c)" unfolding authorities_enum_def .
  then have "0 < sum_list (map snd ?choices)" using assms(1) by (simp only:) (simp add: committee_ok_def)
  then obtain ys where ys: "rng_choose_multiple_weighted rng (election_seed r) ?choices (length ?choices) = Some ys"
    "mset ys = mset ?choices" using random_weighted [OF assms(3)] by blast
  have len: "length ?choices = size_of c" by (simp add: authorities_enum_def size_of_def)
  then have "offset < length ys" using assms(2) mset_eq_length [OF ys(2)] by simp
  moreover from this have "ys ! offset \<in> set ?choices" using mset_eq_setD [OF ys(2)] nth_mem by blast
  then have "fst (ys ! offset) \<in> fst ` set ?choices" by blast
  then have "fst (ys ! offset) \<in> set (map fst (authorities_enum c))" by (force simp: case_prod_beta)
  then have "fst (ys ! offset) \<in> members c"
    unfolding authorities_enum_indices [OF assms(1)] by (simp add: members_def)
  ultimately show ?thesis using ys(1) len assms(2) by (auto simp: elect_leader_stake_based_def)
qed

lemma swap_leader_good:
  assumes "random_ok rng" "good_nodes t \<noteq> []"
  shows "\<exists>s. swap_leader rng t a r 0 = Some s \<and>
    (case s of None \<Rightarrow> a \<notin> fst ` set (bad_nodes t) | Some b \<Rightarrow> b \<in> fst ` set (good_nodes t))"
proof (cases "bm_contains_key (bad_nodes t) a")
  case True
  obtain x where "x \<in> set (good_nodes t)" "rng_choose rng (swap_seed r 0) (good_nodes t) = Some x"
    using random_choose [OF assms] by blast
  with True show ?thesis by (auto simp: swap_leader_def case_prod_beta)
next
  case False
  then show ?thesis by (simp add: swap_leader_def bm_contains_key_def bm_get_None_iff)
qed

text \<open>
  C27: with a swap table built from scores, the election of a leader never panics, returns a
  committee member and never one of the table's bad nodes, provided no single authority holds
  more than the threshold's share of the stake.
\<close>

theorem elect_leader_avoids_bad_nodes:
  assumes "committee_ok (ctx_committee (ls_context ls))" "33 * total_stake (ctx_committee (ls_context ls)) < 18446744073709551616"
    "consensus_bad_nodes_stake_threshold (ls_context ls) \<le> 33"
    "length (scores_per_authority s) = size_of (ctx_committee (ls_context ls))" "random_ok rng"
    "swap_table_new rng (ls_context ls) i s = Some (ls_swap_table ls)"
    "\<forall>a \<in> set (authorities (ctx_committee (ls_context ls))). 100 * a_stake a \<le>
       consensus_bad_nodes_stake_threshold (ls_context ls) * total_stake (ctx_committee (ls_context ls))"
  shows "\<exists>a \<in> members (ctx_committee (ls_context ls)).
    elect_leader rng ls r 0 = Some a \<and> a \<notin> fst ` set (bad_nodes (ls_swap_table ls))"
proof -
  let ?c = "ctx_committee (ls_context ls)" and ?t = "ls_swap_table ls" and ?R = "ranking rng i s"
  let ?thr = "consensus_bad_nodes_stake_threshold (ls_context ls)"
  from swap_table_run [OF assms(1-5), of i] assms(6) obtain k l where
    k: "k \<le> l" "good_nodes ?t = map (node_of ?c) (take k ?R)" "fst ` set (bad_nodes ?t) = fst ` set (drop l ?R)"
      "k < size_of ?c \<longrightarrow> ?thr * total_stake ?c < list_stake ?c (take (Suc k) ?R) * 100"
    by (auto simp: swap_table_new_def)
  note R = ranking_facts [OF assms(5,4), where i = i]
  have size: "0 < size_of ?c" using assms(1) by (simp add: committee_ok_def size_of_def)
  have "k \<noteq> 0"
  proof
    assume "k = 0"
    with k(4) size have big: "?thr * total_stake ?c < list_stake ?c (take (Suc 0) ?R) * 100" by simp
    obtain x xs where R': "?R = x # xs" using R(1) size by (cases ?R) auto
    then have "fst x < size_of ?c" using R(3) by (auto simp: members_def)
    then have "authorities ?c ! fst x \<in> set (authorities ?c)" by (simp add: size_of_def)
    with assms(7) big show False by (auto simp: R' mult.commute)
  qed
  then have "good_nodes ?t \<noteq> []" using k(2) R(1) size by auto
  moreover obtain a where a: "a \<in> members ?c" "elect_leader_stake_based rng ?c r 0 = Some a"
    using elect_leader_stake_based_member [OF assms(1) size assms(5)] by blast
  ultimately obtain w where w: "swap_leader rng ?t a r 0 = Some w"
    "case w of None \<Rightarrow> a \<notin> fst ` set (bad_nodes ?t) | Some b \<Rightarrow> b \<in> fst ` set (good_nodes ?t)"
    using swap_leader_good [OF assms(5)] by blast
  have good: "fst ` set (good_nodes ?t) = fst ` set (take k ?R)" by (simp add: k(2) image_image node_of_def)
  have "b \<in> members ?c \<and> b \<notin> fst ` set (bad_nodes ?t)" if "b \<in> fst ` set (good_nodes ?t)" for b
    using that drop_take_fst_disjoint [OF R(2) k(1)] R(3) set_take_subset [of k ?R] unfolding good k(3) by blast
  with a w show ?thesis by (cases w) (auto simp: elect_leader_def)
qed

definition example_schedule :: "committee \<Rightarrow> nat list \<Rightarrow> leader_schedule" where
  "example_schedule c xs = leader_schedule_new (example_context c)
     (case swap_table_new example_rng (example_context c) 300 (example_scores xs) of Some t \<Rightarrow> t | None \<Rightarrow> default_swap_table)"

lemma example_table_run:
  "committee_ok c \<Longrightarrow> 33 * total_stake c < 18446744073709551616 \<Longrightarrow> length xs = size_of c \<Longrightarrow>
     swap_table_new example_rng (ls_context (example_schedule c xs)) 300 (example_scores xs) = Some (ls_swap_table (example_schedule c xs))"
  using swap_table_run [of c 20 "example_scores xs" example_rng 300]
  by (auto simp: example_schedule_def leader_schedule_new_def swap_table_new_def example_context_def example_scores_def
      example_rng_ok split: option.splits)

lemma example_schedule_context [simp]: "ls_context (example_schedule c xs) = example_context c"
  by (simp add: example_schedule_def leader_schedule_new_def)

lemma example_context_simps [simp]:
  "ctx_committee (example_context c) = c" "consensus_bad_nodes_stake_threshold (example_context c) = 20"
  by (simp_all add: example_context_def)

theorem elect_leader_avoids_bad_nodes_witness:
  "\<exists>a \<in> members (ctx_committee (ls_context (example_schedule (example_committee 7) [5, 1, 9, 4, 4, 7, 3]))).
    elect_leader example_rng (example_schedule (example_committee 7) [5, 1, 9, 4, 4, 7, 3]) 8 0 = Some a \<and>
    a \<notin> fst ` set (bad_nodes (ls_swap_table (example_schedule (example_committee 7) [5, 1, 9, 4, 4, 7, 3])))"
proof (rule elect_leader_avoids_bad_nodes)
  let ?ls = "example_schedule (example_committee 7) [5, 1, 9, 4, 4, 7, 3]"
  show "swap_table_new example_rng (ls_context ?ls) 300 (example_scores [5, 1, 9, 4, 4, 7, 3]) = Some (ls_swap_table ?ls)"
    by (rule example_table_run) (simp_all add: example_committee_ok, simp_all add: example_committee_def size_of_def)
  show "\<forall>a \<in> set (authorities (ctx_committee (ls_context ?ls))). 100 * a_stake a \<le>
      consensus_bad_nodes_stake_threshold (ls_context ?ls) * total_stake (ctx_committee (ls_context ?ls))"
    by (simp add: example_committee_def)
qed (simp_all add: example_committee_ok example_rng_ok example_scores_def, simp_all add: example_committee_def size_of_def)

text \<open>
  C29: when the single best scored authority holds more than the threshold's share of the
  stake, the table has no good node, and the election then panics in exactly those rounds
  whose elected authority is a bad node.
\<close>

theorem heavy_best_node_panics:
  assumes "committee_ok (ctx_committee (ls_context ls))" "33 * total_stake (ctx_committee (ls_context ls)) < 18446744073709551616"
    "consensus_bad_nodes_stake_threshold (ls_context ls) \<le> 33"
    "length (scores_per_authority s) = size_of (ctx_committee (ls_context ls))" "random_ok rng"
    "swap_table_new rng (ls_context ls) i s = Some (ls_swap_table ls)"
    "best \<in> members (ctx_committee (ls_context ls))"
    "\<forall>a \<in> members (ctx_committee (ls_context ls)) - {best}. scores_per_authority s ! a < scores_per_authority s ! best"
    "consensus_bad_nodes_stake_threshold (ls_context ls) * total_stake (ctx_committee (ls_context ls)) <
       100 * a_stake (authorities (ctx_committee (ls_context ls)) ! best)"
  shows "good_nodes (ls_swap_table ls) = [] \<and>
    (elect_leader rng ls r 0 = None \<longleftrightarrow>
      (\<exists>a \<in> fst ` set (bad_nodes (ls_swap_table ls)). elect_leader_stake_based rng (ctx_committee (ls_context ls)) r 0 = Some a))"
proof -
  let ?c = "ctx_committee (ls_context ls)" and ?t = "ls_swap_table ls" and ?R = "ranking rng i s"
  let ?thr = "consensus_bad_nodes_stake_threshold (ls_context ls)"
  from swap_table_run [OF assms(1-5), of i] assms(6) obtain k where
    k: "good_nodes ?t = map (node_of ?c) (take k ?R)" "list_stake ?c (take k ?R) * 100 \<le> ?thr * total_stake ?c"
    by (auto simp: swap_table_new_def)
  note R = ranking_facts [OF assms(5,4), where i = i]
  have size: "0 < size_of ?c" using assms(1) by (simp add: committee_ok_def size_of_def)
  obtain x xs where R': "?R = x # xs" using R(1) size by (cases ?R) auto
  obtain y where y: "y \<in> set ?R" "fst y = best" using assms(7) R(3) by (metis imageE)
  have "snd y \<le> snd x" using y(1) sorted_ranking [of rng i s] by (auto simp: R')
  moreover have "snd x = scores_per_authority s ! fst x" "snd y = scores_per_authority s ! best" "fst x \<in> members ?c"
    using R(4) [of x] R(4) [OF y(1)] y(2) R(3) by (auto simp: R')
  ultimately have "fst x = best" using assms(8) by (metis DiffI linorder_not_le singletonD)
  then have "k = 0" using k(2) assms(9) by (cases k) (auto simp: R')
  then have none: "good_nodes ?t = []" using k(1) by simp
  obtain a where a: "elect_leader_stake_based rng ?c r 0 = Some a"
    using elect_leader_stake_based_member [OF assms(1) size assms(5)] by blast
  have "swap_leader rng ?t a r 0 = (if a \<in> fst ` set (bad_nodes ?t) then None else Some None)"
    using none random_choose_Nil [OF assms(5)] bm_get_Some_iff [of "bad_nodes ?t" a]
    by (auto simp: swap_leader_def bm_contains_key_def)
  then have "elect_leader rng ls r 0 = (if a \<in> fst ` set (bad_nodes ?t) then None else Some a)"
    using a by (simp add: elect_leader_def)
  then show ?thesis using none a by auto
qed

definition heavy_committee :: committee where
  "heavy_committee = \<lparr> committee_epoch = 0, total_stake = 10, quorum_threshold = 7, validity_threshold = 4,
     authorities = \<lparr> a_stake = 5, a_hostname = [] \<rparr> # replicate 5 \<lparr> a_stake = 1, a_hostname = [] \<rparr>, info_length = 4 \<rparr>"

lemma heavy_committee_ok: "committee_ok heavy_committee"
  by (simp add: committee_ok_def heavy_committee_def size_of_def div_ceil_def sum_list_replicate)

lemma heavy_schedule_table:
  "swap_table_new example_rng (ls_context (example_schedule heavy_committee [9, 1, 1, 1, 1, 1])) 300 (example_scores [9, 1, 1, 1, 1, 1]) =
     Some (ls_swap_table (example_schedule heavy_committee [9, 1, 1, 1, 1, 1]))"
  by (rule example_table_run) (simp_all add: heavy_committee_ok, simp_all add: heavy_committee_def size_of_def)

lemma heavy_schedule_bad_node: "5 \<in> fst ` set (bad_nodes (ls_swap_table (example_schedule heavy_committee [9, 1, 1, 1, 1, 1])))"
proof -
  let ?xs = "[(0, 9), (1, 1), (2, 1), (3, 1), (4, 1), (5, 1)] :: (authority_index \<times> nat) list"
  have rank: "sort_key (\<lambda>x. - int (snd x)) ?xs = ?xs" by simp
  have scores: "authorities_by_score heavy_committee (example_scores [9, 1, 1, 1, 1, 1]) = Some ?xs"
    by (subst authorities_by_score_enumerate)
      (simp_all add: heavy_committee_ok example_scores_def, simp_all add: heavy_committee_def size_of_def)
  have nodes: "retrieve_first_nodes heavy_committee ?xs 20 = Some []"
    "retrieve_first_nodes heavy_committee (rev ?xs) 20 = Some [(5, [], 1), (4, [], 1)]"
    by (simp_all add: retrieve_first_nodes_def heavy_committee_def stake_at_def authority_at_def wrap_u64_def)
  have "swap_table_new example_rng (ls_context (example_schedule heavy_committee [9, 1, 1, 1, 1, 1])) 300 (example_scores [9, 1, 1, 1, 1, 1]) =
      Some \<lparr> good_nodes = [], bad_nodes = [(4, [], 1), (5, [], 1)], lst_scores_desc = ?xs,
             lst_reputation_scores = example_scores [9, 1, 1, 1, 1, 1] \<rparr>"
    unfolding swap_table_new_def swap_table_new_inner_def example_schedule_context example_context_simps scores
    using rank nodes
    by (simp add: example_rng_def Let_def, simp add: example_scores_def heavy_committee_def size_of_def)
  with heavy_schedule_table show ?thesis by simp
qed

theorem heavy_best_node_panics_witness:
  "good_nodes (ls_swap_table (example_schedule heavy_committee [9, 1, 1, 1, 1, 1])) = [] \<and>
   elect_leader example_rng (example_schedule heavy_committee [9, 1, 1, 1, 1, 1]) 3 0 = None"
proof -
  let ?ls = "example_schedule heavy_committee [9, 1, 1, 1, 1, 1]"
  have mem: "members heavy_committee = {0, 1, 2, 3, 4, 5}"
    by (auto simp: members_def size_of_def heavy_committee_def)
  have *: "good_nodes (ls_swap_table ?ls) = [] \<and>
    (elect_leader example_rng ?ls 3 0 = None \<longleftrightarrow>
      (\<exists>a \<in> fst ` set (bad_nodes (ls_swap_table ?ls)). elect_leader_stake_based example_rng (ctx_committee (ls_context ?ls)) 3 0 = Some a))"
  proof (rule heavy_best_node_panics [OF _ _ _ _ example_rng_ok heavy_schedule_table, where best = 0])
    show "\<forall>a \<in> members (ctx_committee (ls_context ?ls)) - {0}.
        scores_per_authority (example_scores [9, 1, 1, 1, 1, 1]) ! a < scores_per_authority (example_scores [9, 1, 1, 1, 1, 1]) ! 0"
      by (simp add: mem example_scores_def)
  qed (simp_all add: heavy_committee_ok mem example_scores_def, simp_all add: heavy_committee_def size_of_def)
  have "elect_leader_stake_based example_rng heavy_committee 3 0 = Some 5"
    by (simp add: elect_leader_stake_based_def example_rng_def heavy_committee_def size_of_def authorities_enum_def
        eval_nat_numeral)
  moreover note heavy_schedule_bad_node
  ultimately show ?thesis using * by auto
qed

subsection \<open>Renewing the schedule\<close>

lemma update_score_metrics_total:
  assumes "committee_ok c" "length (scores_per_authority s) = size_of c"
  shows "update_score_metrics c s = Some ()"
proof -
  obtain ys where "mapM (\<lambda>(i, _). do { a \<leftarrow> to_authority_index c i; authority_at c a })
      (List.enumerate 0 (scores_per_authority s)) = Some ys"
    using committee_indices_total [OF assms(2,1)] by blast
  then show ?thesis by (simp add: update_score_metrics_def)
qed

text \<open>The range of the window that starts after the one the old table was built from.\<close>

definition follows_window :: "commit_range \<Rightarrow> commit_range \<Rightarrow> bool" where
  "follows_window old new =
     (old = default_range \<or>
      range_hi old = range_lo new \<and> range_lo old \<le> range_hi old \<and> range_lo new \<le> range_hi new \<and>
      range_hi old - range_lo old = range_hi new - range_lo new)"

lemma range_validation_ok:
  "follows_window (rs_commit_range (lst_reputation_scores old)) (rs_commit_range (lst_reputation_scores new)) \<Longrightarrow>
     range_validation new old = Some ()"
  by (auto simp: follows_window_def range_validation_def is_next_range_def is_equal_size_def range_size_def Let_def)

text \<open>
  C28: renewing the leader schedule from the scored window never panics when the window
  follows the one of the current table; afterwards the scores and the committed rounds are
  buffered for the last commit, nothing is left to score, a full window of commits is due
  before the next renewal, and the new table is the one built from the window's scores.
\<close>

theorem update_leader_schedule_renews:
  assumes "committee_ok (ds_committee ds)" "33 * total_stake (ds_committee ds) < 18446744073709551616"
    "ls_context ls = ds_ctx ds" "consensus_bad_nodes_stake_threshold (ds_ctx ds) \<le> 33" "random_ok rng"
    "scoring_ok (ds_committee ds) (ds_scoring_subdag ds)" "ss_commit_range (ds_scoring_subdag ds) = Some r"
    "last_commit ds = Some lc" "0 < num_commits_per_schedule ls"
    "follows_window (rs_commit_range (lst_reputation_scores (ls_swap_table ls))) r"
  shows "\<exists>ls' ds' scores. update_leader_schedule rng ls ds = Some (ls', ds') \<and>
    calculate_scoring_subdag_scores ds = Some scores \<and> rs_commit_range scores = r \<and>
    swap_table_new rng (ds_ctx ds) (range_end r) scores = Some (ls_swap_table ls') \<and>
    leader_schedule_updated ds' \<and> commits_until_leader_schedule_update ls' ds' = Some (num_commits_per_schedule ls) \<and>
    commit_info_to_write ds' = commit_info_to_write ds @
      [(tcm_reference lc, \<lparr> ci_committed_rounds = last_committed_rounds ds, ci_reputation_scores = scores \<rparr>)]"
proof -
  let ?c = "ds_committee ds"
  define scores where "scores = \<lparr> scores_per_authority =
    map (\<lambda>a. wrap_u64 (votes_stake (ss_votes (ds_scoring_subdag ds)) a)) [0..<size_of ?c], rs_commit_range = r \<rparr>"
  have sc: "calculate_scoring_subdag_scores ds = Some scores"
    using distributed_votes_scores_run [OF assms(6)] assms(7)
    by (simp add: calculate_scoring_subdag_scores_def calculate_distributed_vote_scores_def scores_def)
  have len: "length (scores_per_authority scores) = size_of ?c" "rs_commit_range scores = r" by (simp_all add: scores_def)
  from swap_table_run [OF assms(1,2,4) len(1) assms(5), of "range_end r"] obtain t where
    t: "swap_table_new rng (ds_ctx ds) (range_end r) scores = Some t" "lst_reputation_scores t = scores"
    by (auto simp: swap_table_new_def)
  have val: "range_validation t (ls_swap_table ls) = Some ()"
    using range_validation_ok [of "ls_swap_table ls" t] assms(10) t(2) len(2) by simp
  have app: "apply_reputation_scores_inner ls t = Some (ls\<lparr> ls_swap_table := t \<rparr>)"
    using update_score_metrics_total [OF assms(1) len(1)] assms(3) t(2) by (simp add: apply_reputation_scores_inner_def)
  show ?thesis
    using sc t val app len(2) assms(3,7,8,9)
    by (auto simp: update_leader_schedule_def scoring_subdag_commit_range_def persist_scores_def add_commit_info_def
        clear_scoring_subdag_def scoring_is_empty_def scoring_clear_def Let_def leader_schedule_updated_def
        is_scoring_subdag_empty_def commits_until_leader_schedule_update_def scoring_subdags_count_def scored_subdags_count_def)
qed

definition example_scored_state :: dag_state where
  "example_scored_state = initial_state (\<lambda>_. 0) (example_context (example_committee 4)) mem_store_new
     (Some \<lparr> tcm_inner = CommitV1 \<lparr> c1_index = 2, c1_previous_digest = 0, c1_timestamp_ms = 0,
       c1_leader = BlockRef 2 1 7, c1_blocks = [], c1_committed_transactions = [] \<rparr>, tcm_digest = 3 \<rparr>)
     [0, 0, 0, 0] example_scoring"

theorem update_leader_schedule_renews_witness:
  "\<exists>ls' ds' scores. update_leader_schedule example_rng
      (leader_schedule_new (example_context (example_committee 4)) default_swap_table) example_scored_state = Some (ls', ds') \<and>
    calculate_scoring_subdag_scores example_scored_state = Some scores \<and> rs_commit_range scores = commit_range_new 1 2 \<and>
    leader_schedule_updated ds' \<and> commits_until_leader_schedule_update ls' ds' = Some 300"
proof -
  let ?ls = "leader_schedule_new (example_context (example_committee 4)) default_swap_table"
  have ds: "ds_ctx example_scored_state = example_context (example_committee 4)"
    "ds_scoring_subdag example_scored_state = example_scoring" "\<exists>lc. last_commit example_scored_state = Some lc"
    by (simp_all add: example_scored_state_def initial_state_def Let_def)
  then obtain lc where lc: "last_commit example_scored_state = Some lc" by blast
  have "total_stake (example_committee 4) = 4" by (simp add: example_committee_def)
  with update_leader_schedule_renews [of example_scored_state ?ls example_rng "commit_range_new 1 2" lc] ds(1,2) lc
  show ?thesis
    by (auto simp: example_committee_ok example_rng_ok example_scoring_ok leader_schedule_new_def
        CONSENSUS_COMMITS_PER_SCHEDULE_def follows_window_def default_swap_table_def, auto simp: example_scoring_def)
qed

end
