(* ===== verification/Linearizer.thy ===== *)
theory Linearizer
  imports Commit_Views Leader_Schedule
begin

section \<open>The linearizer\<close>

text \<open>
  \<open>crates/starfish/core/src/linearizer.rs\<close>: expands a committed leader into the ordered
  sub-dag of headers not yet committed, counts the acknowledgments in it and builds the
  commit. The DAG state and the leader schedule, shared by locks in the code, are arguments.
  The depth-first search keeps its stack with the top first. A hash of a commit is the
  parameter \<open>digest_of\<close>. Main results: a sub-dag is exactly the uncommitted history of its
  leader, each header once; no header and no transaction is committed twice; the commit
  timestamp lies between timestamps of honest parents.
\<close>

record linearizer =
  lz_context :: consensus_context
  transactions_ack_tracker :: "(block_ref, stake_aggregator) btreemap"
  traversed_headers_tracker :: "block_ref btreeset"

definition linearizer_new :: "consensus_context \<Rightarrow> linearizer" where
  "linearizer_new ctx = \<lparr> lz_context = ctx, transactions_ack_tracker = [], traversed_headers_tracker = [] \<rparr>"

definition clear_state :: "linearizer \<Rightarrow> linearizer" where
  "clear_state lz = lz\<lparr> transactions_ack_tracker := [], traversed_headers_tracker := [] \<rparr>"

subsection \<open>The sub-dag of a leader\<close>

definition keep_ancestor :: "round list \<Rightarrow> round \<Rightarrow> block_ref set \<Rightarrow> block_ref \<Rightarrow> bool option" where
  "keep_ancestor rounds lower traversed a =
     (if a \<in> traversed then Some False
      else do { committed \<leftarrow> vec_get rounds (br_author a); Some (committed < br_round a \<and> lower \<le> br_round a) })"

definition push_ancestors ::
  "verified_block_header list \<Rightarrow> block_ref set \<Rightarrow> verified_block_header list
     \<Rightarrow> (verified_block_header list \<times> block_ref set) option" where
  "push_ancestors buffer traversed hs =
     foldM (\<lambda>(buf, tr) h. do { assert_that (reference h \<notin> tr); Some (h # buf, insert (reference h) tr) })
       (buffer, traversed) hs"

partial_function (option) linearize_loop ::
  "(block_ref list \<Rightarrow> verified_block_header option list) \<Rightarrow> round list \<Rightarrow> round \<Rightarrow> verified_block_header list
     \<Rightarrow> verified_block_header list \<Rightarrow> block_ref set \<Rightarrow> verified_block_header list option"
where
  "linearize_loop get rounds lower buffer to_commit traversed =
     (case buffer of
        [] \<Rightarrow> Some to_commit
      | x # rest \<Rightarrow> do {
          ancs \<leftarrow> ancestors x;
          refs \<leftarrow> filterM (keep_ancestor rounds lower traversed) ancs;
          hs \<leftarrow> mapM (\<lambda>h. h) (get refs);
          (buffer', traversed') \<leftarrow> push_ancestors rest traversed hs;
          linearize_loop get rounds lower buffer' (to_commit @ [x]) traversed' })"

definition linearize_sub_dag ::
  "(block_ref list \<Rightarrow> verified_block_header option list) \<Rightarrow> verified_block_header \<Rightarrow> round list \<Rightarrow> round
     \<Rightarrow> verified_block_header list option"
where
  "linearize_sub_dag get leader rounds max_linearizer_depth = do {
     to_commit \<leftarrow> linearize_loop get rounds (bh_round leader - max_linearizer_depth)
       [leader] [] {reference leader};
     Some (sort_sub_dag_blocks to_commit) }"

subsection \<open>Timestamps\<close>

primrec median_loop :: "stake \<Rightarrow> stake \<Rightarrow> (timestamp_ms \<times> stake) list \<Rightarrow> timestamp_ms option" where
  "median_loop half acc [] = None"
| "median_loop half acc (x # xs) =
     (let acc' = wrap_u64 (acc + snd x) in if half < acc' then Some (fst x) else median_loop half acc' xs)"

definition median_timestamps_by_stake_inner :: "(timestamp_ms \<times> stake) list \<Rightarrow> stake \<Rightarrow> timestamp_ms option" where
  "median_timestamps_by_stake_inner timestamps stakes =
     (let sorted_ts = sort_key fst timestamps
      in case median_loop (stakes div 2) 0 sorted_ts of
           Some ts \<Rightarrow> Some ts
         | None \<Rightarrow> if sorted_ts = [] then None else Some (fst (last sorted_ts)))"

datatype median_error = NoBlockHeaders | StakeBelowQuorum stake stake

definition median_timestamp_by_stake ::
  "committee \<Rightarrow> verified_block_header list \<Rightarrow> (median_error + timestamp_ms) option" where
  "median_timestamp_by_stake c hs = do {
     (timestamps, total) \<leftarrow> foldM (\<lambda>(ts, total) h. do {
         a \<leftarrow> authority_at c (bh_author h);
         Some (ts @ [(bh_timestamp_ms h, a_stake a)], wrap_u64 (total + a_stake a)) }) ([], 0) hs;
     if timestamps = [] then Some (Inl NoBlockHeaders)
     else if total < quorum_threshold c then Some (Inl (StakeBelowQuorum total (quorum_threshold c)))
     else map_option Inr (median_timestamps_by_stake_inner timestamps total) }"

definition prev_round :: "round \<Rightarrow> round" where
  "prev_round r = (if r = 0 then u32_max else r - 1)"

definition calculate_commit_timestamp ::
  "committee \<Rightarrow> (block_ref list \<Rightarrow> verified_block_header option list) \<Rightarrow> verified_block_header \<Rightarrow> timestamp_ms
     \<Rightarrow> timestamp_ms option"
where
  "calculate_commit_timestamp c get leader last_commit_ts = do {
     ancs \<leftarrow> ancestors leader;
     hs \<leftarrow> mapM (\<lambda>h. h) (get (filter (\<lambda>r. br_round r = prev_round (bh_round leader)) ancs));
     median \<leftarrow> median_timestamp_by_stake c hs;
     case median of Inl _ \<Rightarrow> None | Inr ts \<Rightarrow> Some (max ts last_commit_ts) }"

subsection \<open>Acknowledgments\<close>

definition add_ack ::
  "round \<Rightarrow> authority_index \<Rightarrow> linearizer \<times> block_ref list \<Rightarrow> block_ref \<Rightarrow> (linearizer \<times> block_ref list) option" where
  "add_ack r authority st block_ref =
     (let (lz, out) = st; c = ctx_committee (lz_context lz) in
      if br_round block_ref < r - gc_depth (lz_context lz) then Some st
      else do {
        let agg = (case bm_get (transactions_ack_tracker lz) block_ref of Some a \<Rightarrow> a | None \<Rightarrow> sa_new);
        let was_below_threshold = (\<not> sa_reached_threshold QuorumThreshold agg c);
        (reached, agg') \<leftarrow> sa_add QuorumThreshold agg authority c;
        let lz' = lz\<lparr> transactions_ack_tracker := bm_insert block_ref agg' (transactions_ack_tracker lz) \<rparr>;
        Some (lz', if reached \<and> was_below_threshold \<and>
            (\<not> consensus_commit_transactions_only_for_traversed_headers (lz_context lz) \<or>
             block_ref \<in> set (traversed_headers_tracker lz))
          then out @ [block_ref] else out) })"

definition add_committed_transaction_acks ::
  "linearizer \<Rightarrow> round \<Rightarrow> authority_index \<Rightarrow> block_ref list \<Rightarrow> (linearizer \<times> block_ref list) option" where
  "add_committed_transaction_acks lz r authority acks = foldM (add_ack r authority) (lz, []) acks"

definition record_traversed_headers :: "linearizer \<Rightarrow> verified_block_header list \<Rightarrow> linearizer" where
  "record_traversed_headers lz hs =
     (if \<not> consensus_commit_transactions_only_for_traversed_headers (lz_context lz) then lz
      else lz\<lparr> traversed_headers_tracker := fold (\<lambda>h. bs_insert (reference h)) hs (traversed_headers_tracker lz) \<rparr>)"

definition evict_linearizer :: "linearizer \<Rightarrow> round \<Rightarrow> linearizer" where
  "evict_linearizer lz solid_commit_leader_round =
     (let lower_bound_round = solid_commit_leader_round - gc_depth (lz_context lz) * 2;
          bound = BlockRef (lower_bound_round + 1) 0 0;
          lz1 = lz\<lparr> transactions_ack_tracker := bm_split_off bound (transactions_ack_tracker lz) \<rparr>
      in if consensus_commit_transactions_only_for_traversed_headers (lz_context lz)
         then lz1\<lparr> traversed_headers_tracker := bs_split_off bound (traversed_headers_tracker lz1) \<rparr> else lz1)"

definition get_transaction_ack_authors ::
  "linearizer \<Rightarrow> dag_state \<Rightarrow> generic_transaction_ref list
     \<Rightarrow> (generic_transaction_ref, authority_index btreeset) btreemap option" where
  "get_transaction_ack_authors lz ds missing =
     foldM (\<lambda>m g. do {
         br \<leftarrow> (case g of GBlockRef b \<Rightarrow> Some (Some b) | GTransactionRef t \<Rightarrow> resolve_block_ref ds t);
         Some (case br of
             None \<Rightarrow> m
           | Some b \<Rightarrow> (case bm_get (transactions_ack_tracker lz) b of
               None \<Rightarrow> m | Some agg \<Rightarrow> bm_insert g (sa_votes agg) m)) }) [] missing"

subsection \<open>Building commits\<close>

definition collect_acks ::
  "linearizer \<Rightarrow> verified_block_header list \<Rightarrow> (linearizer \<times> block_ref list) option" where
  "collect_acks lz hs =
     foldM (\<lambda>(lz, out) h. do {
         acks \<leftarrow> acknowledgments h;
         (lz', refs) \<leftarrow> add_committed_transaction_acks lz (bh_round h) (bh_author h) acks;
         Some (lz', out @ refs) }) (lz, []) hs"

definition committed_transaction_refs ::
  "dag_state \<Rightarrow> bool \<Rightarrow> block_ref list \<Rightarrow> generic_transaction_ref list option" where
  "committed_transaction_refs ds fast refs =
     (if fast then
        mapM (\<lambda>(r, commitment). do { d \<leftarrow> commitment;
            Some (GTransactionRef (TransactionRef (br_round r) (br_author r) d)) })
          (zip refs (get_transactions_commitments_batch ds refs))
      else Some (map GBlockRef refs))"

definition collect_sub_dag_and_commit ::
  "(commit \<Rightarrow> digest) \<Rightarrow> linearizer \<Rightarrow> dag_state \<Rightarrow> verified_block_header \<Rightarrow> (authority_index \<times> nat) list
     \<Rightarrow> (pending_sub_dag \<times> trusted_commit \<times> linearizer) option"
where
  "collect_sub_dag_and_commit digest_of lz ds leader scores_desc = do {
     let ctx = lz_context lz;
     to_commit \<leftarrow> linearize_sub_dag (get_verified_block_headers ds) leader (last_committed_rounds ds) (gc_depth ctx);
     ts \<leftarrow> calculate_commit_timestamp (ctx_committee ctx) (get_verified_block_headers ds) leader (last_commit_timestamp_ms ds);
     let lz1 = record_traversed_headers lz to_commit;
     (lz2, refs) \<leftarrow> collect_acks lz1 to_commit;
     assert_that (length refs = card (set refs));
     txs \<leftarrow> committed_transaction_refs ds (consensus_fast_commit_sync ctx) refs;
     c \<leftarrow> Commit_new (consensus_fast_commit_sync ctx) (last_commit_index ds + 1) (last_commit_digest ds) ts
       (reference leader) (map reference to_commit) txs scores_desc;
     let commit = new_trusted digest_of c;
     Some (pending_sub_dag_new (reference leader) to_commit (commit_block_headers c) (commit_committed_transactions c)
             ts (tcm_reference commit) scores_desc,
           commit, lz2) }"

text \<open>The state of the loop is the linearizer, the DAG state and the sub-dags built so far.\<close>

definition pending_sub_dag_step ::
  "(commit \<Rightarrow> digest) \<Rightarrow> (authority_index \<times> nat) list \<Rightarrow> pending_sub_dag list \<times> linearizer \<times> dag_state
     \<Rightarrow> nat \<times> verified_block_header \<Rightarrow> (pending_sub_dag list \<times> linearizer \<times> dag_state) option"
where
  "pending_sub_dag_step digest_of scores st il = do {
     let (sds, lz, ds) = st;
     (sd, commit, lz') \<leftarrow> collect_sub_dag_and_commit digest_of lz ds (snd il) (if fst il = 0 then scores else []);
     ds' \<leftarrow> add_commit ds commit;
     Some (sds @ [sd], lz', ds') }"

definition get_pending_sub_dags ::
  "(commit \<Rightarrow> digest) \<Rightarrow> leader_schedule \<Rightarrow> linearizer \<Rightarrow> dag_state \<Rightarrow> verified_block_header list
     \<Rightarrow> (pending_sub_dag list \<times> linearizer \<times> dag_state) option"
where
  "get_pending_sub_dags digest_of ls lz ds leaders =
     (if leaders = [] then Some ([], lz, ds)
      else foldM (pending_sub_dag_step digest_of
          (if leader_schedule_updated ds then lst_scores_desc (ls_swap_table ls) else []))
        ([], lz, ds) (List.enumerate 0 leaders))"

subsection \<open>The traversal visits the uncommitted history\<close>

definition uncommitted :: "round list \<Rightarrow> round \<Rightarrow> block_ref \<Rightarrow> bool" where
  "uncommitted rounds lower a = (rounds ! br_author a < br_round a \<and> lower \<le> br_round a)"

inductive_set fresh_refs ::
  "(block_ref \<Rightarrow> verified_block_header option) \<Rightarrow> round list \<Rightarrow> round \<Rightarrow> block_ref \<Rightarrow> block_ref set"
  for get rounds lower leader where
  fresh_leader: "leader \<in> fresh_refs get rounds lower leader"
| fresh_step: "x \<in> fresh_refs get rounds lower leader \<Longrightarrow> get x = Some h \<Longrightarrow> ancestors h = Some ancs \<Longrightarrow> a \<in> set ancs \<Longrightarrow>
     uncommitted rounds lower a \<Longrightarrow> a \<in> fresh_refs get rounds lower leader"

text \<open>The ancestors of a header are by different authorities (which the block verifier checks).\<close>

definition linear_dag :: "nat \<Rightarrow> (block_ref \<Rightarrow> verified_block_header option) \<Rightarrow> bool" where
  "linear_dag n get =
     (\<forall>r h ancs. get r = Some h \<longrightarrow> ancestors h = Some ancs \<longrightarrow>
       distinct (map br_author ancs) \<and> (\<forall>a \<in> set ancs. br_author a < n))"

definition closed_refs ::
  "(block_ref \<Rightarrow> verified_block_header option) \<Rightarrow> round list \<Rightarrow> round \<Rightarrow> block_ref set \<Rightarrow> block_ref set \<Rightarrow> bool" where
  "closed_refs get rounds lower X S =
     (\<forall>x \<in> X. \<forall>h ancs a. get x = Some h \<longrightarrow> ancestors h = Some ancs \<longrightarrow> a \<in> set ancs \<longrightarrow> uncommitted rounds lower a \<longrightarrow> a \<in> S)"

lemma push_ancestors_run:
  "distinct (map reference hs) \<Longrightarrow> reference ` set hs \<inter> tr = {} \<Longrightarrow>
     push_ancestors buf tr hs = Some (rev hs @ buf, tr \<union> reference ` set hs)"
  unfolding push_ancestors_def
  by (induction hs arbitrary: buf tr) (auto simp: image_iff)

lemma mapM_present:
  "\<forall>r \<in> set refs. get r \<noteq> None \<Longrightarrow> mapM (\<lambda>h. h) (map get refs) = Some (map (\<lambda>r. the (get r)) refs)"
  by (induction refs) auto

lemma keep_ancestor_run:
  assumes "\<forall>a \<in> set ancs. br_author a < length rounds"
  shows "filterM (keep_ancestor rounds lower tr) ancs = Some (filter (\<lambda>a. a \<notin> tr \<and> uncommitted rounds lower a) ancs)"
  using assms by (intro filterM_SomeI) (auto simp: keep_ancestor_def uncommitted_def)

lemma linearize_step:
  assumes wf: "wf_dag g" and lin: "linear_dag (length rounds) g" and x: "g (reference x) = Some x"
  shows "\<exists>ancs hs. ancestors x = Some ancs \<and> distinct (map reference hs) \<and>
    reference ` set hs = {a \<in> set ancs. a \<notin> tr \<and> uncommitted rounds lower a} \<and>
    (\<forall>h \<in> set hs. g (reference h) = Some h \<and> bh_round h < bh_round x) \<and>
    linearize_loop (map g) rounds lower (x # rest) acc tr =
      linearize_loop (map g) rounds lower (rev hs @ rest) (acc @ [x]) (tr \<union> reference ` set hs)"
proof -
  from wf_dag_ancestors [OF wf x] obtain ancs where ancs: "ancestors x = Some ancs"
    "\<forall>a \<in> set ancs. br_round a < bh_round x" "\<forall>a \<in> set ancs. g a \<noteq> None" by auto
  have d: "distinct ancs" "\<forall>a \<in> set ancs. br_author a < length rounds"
    using lin x ancs(1) unfolding linear_dag_def distinct_map by blast+
  let ?refs = "filter (\<lambda>a. a \<notin> tr \<and> uncommitted rounds lower a) ancs"
  let ?hs = "map (\<lambda>r. the (g r)) ?refs"
  have ref: "reference (the (g r)) = r" "g r = Some (the (g r))" if "r \<in> set ancs" for r
    using ancs(3) that wf_dag_reference [OF wf] by force+
  have refs: "map reference ?hs = ?refs" unfolding map_map by (rule map_idI) (simp add: ref(1))
  then have set: "reference ` set ?hs = {a \<in> set ancs. a \<notin> tr \<and> uncommitted rounds lower a}"
    by (metis image_set set_filter)
  have "push_ancestors rest tr ?hs = Some (rev ?hs @ rest, tr \<union> reference ` set ?hs)"
    using d(1) refs set by (intro push_ancestors_run) auto
  moreover have "mapM (\<lambda>h. h) (map g ?refs) = Some ?hs" using ancs(3) by (intro mapM_present) auto
  ultimately have "linearize_loop (map g) rounds lower (x # rest) acc tr =
      linearize_loop (map g) rounds lower (rev ?hs @ rest) (acc @ [x]) (tr \<union> reference ` set ?hs)"
    using ancs(1) keep_ancestor_run [OF d(2), of lower tr] by (subst linearize_loop.simps) simp
  moreover have "\<forall>h \<in> set ?hs. g (reference h) = Some h \<and> bh_round h < bh_round x"
  proof
    fix h assume "h \<in> set ?hs"
    then obtain r where r: "r \<in> set ancs" "h = the (g r)" by auto
    from ref [OF r(1)] r(2) have "reference h = r" "g r = Some h" by simp_all
    with ancs(2) r(1) show "g (reference h) = Some h \<and> bh_round h < bh_round x" by force
  qed
  moreover have "distinct (map reference ?hs)" using refs d(1) by simp
  ultimately show ?thesis using ancs(1) set by blast
qed

definition loop_inv ::
  "(block_ref \<Rightarrow> verified_block_header option) \<Rightarrow> round list \<Rightarrow> round \<Rightarrow> verified_block_header list
     \<Rightarrow> verified_block_header list \<Rightarrow> block_ref set \<Rightarrow> bool" where
  "loop_inv g rounds lower buffer acc tr =
     ((\<forall>x \<in> set (buffer @ acc). g (reference x) = Some x) \<and> distinct (map reference (buffer @ acc)) \<and>
      tr = reference ` set (buffer @ acc) \<and> closed_refs g rounds lower (reference ` set acc) tr)"

lemma loop_inv_step:
  assumes inv: "loop_inv g rounds lower (x # rest) acc tr" and ancs: "ancestors x = Some ancs"
    and hs: "distinct (map reference hs)" "reference ` set hs = {a \<in> set ancs. a \<notin> tr \<and> uncommitted rounds lower a}"
      "\<forall>h \<in> set hs. g (reference h) = Some h"
  shows "loop_inv g rounds lower (rev hs @ rest) (acc @ [x]) (tr \<union> reference ` set hs)"
proof -
  have fresh: "reference ` set hs \<inter> tr = {}" using hs(2) by auto
  have x: "g (reference x) = Some x" using inv by (simp add: loop_inv_def)
  have "closed_refs g rounds lower (reference ` set (acc @ [x])) (tr \<union> reference ` set hs)"
    using inv ancs x unfolding hs(2) loop_inv_def closed_refs_def by fastforce
  moreover have "distinct (map reference ((rev hs @ rest) @ acc @ [x]))"
    using inv hs(1) fresh by (auto simp: loop_inv_def rev_map [symmetric])
  ultimately show ?thesis using inv hs(3) by (auto simp: loop_inv_def)
qed

text \<open>Each step replaces a header on the stack by finitely many of lower rounds.\<close>

lemma linearize_loop_total:
  assumes wf: "wf_dag g" and lin: "linear_dag (length rounds) g" and inv: "loop_inv g rounds lower buffer acc tr"
  shows "\<exists>res. linearize_loop (map g) rounds lower buffer acc tr = Some res \<and>
    (\<forall>x \<in> set res. g (reference x) = Some x) \<and> distinct (map reference res) \<and> tr \<subseteq> reference ` set res \<and>
    closed_refs g rounds lower (reference ` set res) (reference ` set res) \<and>
    (\<forall>S. tr \<subseteq> S \<longrightarrow> closed_refs g rounds lower S S \<longrightarrow> reference ` set res \<subseteq> S)"
  using inv
proof (induction "mset buffer" arbitrary: buffer acc tr rule: wf_induct_rule [OF wf_mult [OF wf_measure [of bh_round]]])
  case 1
  show ?case
  proof (cases buffer)
    case Nil
    then have "linearize_loop (map g) rounds lower buffer acc tr = Some acc" by (subst linearize_loop.simps) simp
    with 1(2) Nil show ?thesis by (auto simp: loop_inv_def)
  next
    case (Cons x rest)
    have x: "g (reference x) = Some x" using 1(2) Cons by (simp add: loop_inv_def)
    from linearize_step [OF wf lin x, where tr = tr and lower = lower and rest = rest and acc = acc] obtain ancs hs where
      st: "ancestors x = Some ancs" "distinct (map reference hs)"
        "reference ` set hs = {a \<in> set ancs. a \<notin> tr \<and> uncommitted rounds lower a}"
        "\<forall>h \<in> set hs. g (reference h) = Some h" "\<forall>h \<in> set hs. bh_round h < bh_round x"
        "linearize_loop (map g) rounds lower (x # rest) acc tr =
          linearize_loop (map g) rounds lower (rev hs @ rest) (acc @ [x]) (tr \<union> reference ` set hs)" by blast
    let ?tr = "tr \<union> reference ` set hs"
    have "(mset rest + mset hs, mset rest + {#x#}) \<in> mult (measure bh_round)"
      using st(5) by (intro one_step_implies_mult) auto
    then have desc: "(mset (rev hs @ rest), mset buffer) \<in> mult (measure bh_round)"
      by (simp add: Cons add.commute)
    note IH = 1(1) [OF desc loop_inv_step [OF 1(2) [unfolded Cons] st(1-4)]]
    obtain res where
      res: "linearize_loop (map g) rounds lower (rev hs @ rest) (acc @ [x]) ?tr = Some res"
        "\<forall>x \<in> set res. g (reference x) = Some x" "distinct (map reference res)" "?tr \<subseteq> reference ` set res"
        "closed_refs g rounds lower (reference ` set res) (reference ` set res)"
        "\<forall>S. ?tr \<subseteq> S \<longrightarrow> closed_refs g rounds lower S S \<longrightarrow> reference ` set res \<subseteq> S"
      using IH by (elim exE conjE) (rule that; assumption)
    have "reference ` set res \<subseteq> S" if S: "tr \<subseteq> S" "closed_refs g rounds lower S S" for S
    proof (rule res(6) [rule_format])
      have "reference x \<in> S" using S(1) 1(2) Cons by (auto simp: loop_inv_def)
      with S(2) x st(1) have "reference ` set hs \<subseteq> S" unfolding st(3) closed_refs_def by blast
      with S(1) show "?tr \<subseteq> S" by blast
    qed (rule S(2))
    then have all: "\<forall>S. tr \<subseteq> S \<longrightarrow> closed_refs g rounds lower S S \<longrightarrow> reference ` set res \<subseteq> S" by blast
    have "linearize_loop (map g) rounds lower buffer acc tr = Some res" "tr \<subseteq> reference ` set res"
      using res(1,4) st(6) Cons by simp_all
    with res(2,3,5) all show ?thesis by (intro exI [of _ res]) simp
  qed
qed

lemma linearize_sub_dag_run:
  assumes wf: "wf_dag g" and lin: "linear_dag (length rounds) g" and l: "g (reference leader) = Some leader"
  shows "\<exists>hs. linearize_sub_dag (map g) leader rounds depth = Some hs \<and> distinct (map reference hs) \<and>
    reference ` set hs = fresh_refs g rounds (bh_round leader - depth) (reference leader) \<and>
    (\<forall>h \<in> set hs. g (reference h) = Some h) \<and> sorted (map (\<lambda>h. (bh_round h, bh_author h)) hs)"
proof -
  let ?lower = "bh_round leader - depth" and ?l = "reference leader"
  let ?F = "fresh_refs g rounds ?lower ?l"
  have "loop_inv g rounds ?lower [leader] [] {?l}" using l by (simp add: loop_inv_def closed_refs_def)
  from linearize_loop_total [OF wf lin this] obtain res where
    res: "linearize_loop (map g) rounds ?lower [leader] [] {?l} = Some res"
      "\<forall>x \<in> set res. g (reference x) = Some x" "distinct (map reference res)" "?l \<in> reference ` set res"
      "closed_refs g rounds ?lower (reference ` set res) (reference ` set res)"
      "\<And>S. ?l \<in> S \<Longrightarrow> closed_refs g rounds ?lower S S \<Longrightarrow> reference ` set res \<subseteq> S" by auto
  have "reference ` set res \<subseteq> ?F"
  proof (rule res(6))
    show "closed_refs g rounds ?lower ?F ?F" unfolding closed_refs_def by (blast intro: fresh_step)
  qed (rule fresh_leader)
  moreover have "r \<in> ?F \<Longrightarrow> r \<in> reference ` set res" for r
  proof (induction rule: fresh_refs.induct)
    case (fresh_step x h ancs a)
    then show ?case using res(5) unfolding closed_refs_def by blast
  qed (rule res(4))
  ultimately have "reference ` set res = ?F" by blast
  moreover have "set (sort_sub_dag_blocks res) = set res" by (simp add: sort_sub_dag_blocks_def)
  moreover have "distinct (map reference (sort_sub_dag_blocks res))"
    using res(3) by (simp add: sort_sub_dag_blocks_def distinct_map)
  moreover have "sorted (map (\<lambda>h. (bh_round h, bh_author h)) (sort_sub_dag_blocks res))"
    by (simp add: sort_sub_dag_blocks_def)
  ultimately show ?thesis using res(1,2) by (simp add: linearize_sub_dag_def)
qed

subsection \<open>The median timestamp\<close>

lemma median_loop_split:
  assumes "acc + sum_list (map snd xs) < 18446744073709551616" "acc \<le> half" "half < acc + sum_list (map snd xs)"
  shows "\<exists>pre x post. xs = pre @ x # post \<and> median_loop half acc xs = Some (fst x) \<and>
    acc + sum_list (map snd pre) \<le> half \<and> half < acc + sum_list (map snd (pre @ [x]))"
  using assms
proof (induction xs arbitrary: acc)
  case (Cons x xs)
  show ?case
  proof (cases "half < acc + snd x")
    case True
    with Cons.prems show ?thesis by (intro exI [of _ "[]"] exI [of _ x] exI [of _ xs]) simp
  next
    case False
    with Cons.IH [of "acc + snd x"] Cons.prems obtain pre y post where
      "xs = pre @ y # post" "median_loop half (acc + snd x) xs = Some (fst y)"
      "acc + snd x + sum_list (map snd pre) \<le> half" "half < acc + snd x + sum_list (map snd (pre @ [y]))"
      by (auto simp: add.assoc)
    with False Cons.prems show ?thesis
      by (intro exI [of _ "x # pre"] exI [of _ y] exI [of _ post]) (simp add: add.assoc)
  qed
qed simp

text \<open>The stake at or below the median is more than half, the stake strictly below at most half.\<close>

definition stake_where :: "(timestamp_ms \<Rightarrow> bool) \<Rightarrow> (timestamp_ms \<times> stake) list \<Rightarrow> stake" where
  "stake_where P xs = sum_list (map snd (filter (\<lambda>x. P (fst x)) xs))"

lemma stake_where_append: "stake_where P (xs @ ys) = stake_where P xs + stake_where P ys"
  by (simp add: stake_where_def)

lemma stake_where_le: "stake_where P xs \<le> sum_list (map snd xs)"
  by (simp add: stake_where_def sum_list_filter_le)

lemma stake_where_all: "\<forall>x \<in> set xs. P (fst x) \<Longrightarrow> stake_where P xs = sum_list (map snd xs)"
  by (simp add: stake_where_def filter_True)

lemma stake_where_none: "\<forall>x \<in> set xs. \<not> P (fst x) \<Longrightarrow> stake_where P xs = 0"
  by (simp add: stake_where_def filter_False)

lemma stake_where_split: "sum_list (map snd xs) = stake_where (\<lambda>t. t < m) xs + stake_where (\<lambda>t. m \<le> t) xs"
  unfolding stake_where_def by (induction xs) auto

lemma stake_where_mset: "mset xs = mset ys \<Longrightarrow> stake_where P xs = stake_where P ys"
  unfolding stake_where_def sum_mset_sum_list [symmetric] mset_map mset_filter by simp

lemma median_inner_spec:
  assumes "0 < sum_list (map snd ts)" "sum_list (map snd ts) < 18446744073709551616"
  shows "\<exists>m. median_timestamps_by_stake_inner ts (sum_list (map snd ts)) = Some m \<and>
    sum_list (map snd ts) div 2 < stake_where (\<lambda>t. t \<le> m) ts \<and> stake_where (\<lambda>t. t < m) ts \<le> sum_list (map snd ts) div 2"
proof -
  let ?xs = "sort_key fst ts" and ?P = "sum_list (map snd ts)"
  have perm: "mset ?xs = mset ts" by simp
  then have total: "sum_list (map snd ?xs) = ?P" unfolding sum_mset_sum_list [symmetric] mset_map by simp
  have "?P div 2 < ?P" using assms(1) by simp
  with median_loop_split [of 0 ?xs "?P div 2"] assms total obtain pre x post where
    split: "?xs = pre @ x # post" "median_loop (?P div 2) 0 ?xs = Some (fst x)"
      "sum_list (map snd pre) \<le> ?P div 2" "?P div 2 < sum_list (map snd (pre @ [x]))" by auto
  have sorted: "sorted (map fst pre @ fst x # map fst post)" using split(1) sorted_sort_key [of fst ts] by simp
  then have le: "\<forall>y \<in> set (pre @ [x]). fst y \<le> fst x" "\<forall>y \<in> set (x # post). \<not> fst y < fst x"
    by (auto simp: sorted_append)
  have "?P div 2 < stake_where (\<lambda>t. t \<le> fst x) (pre @ [x])"
    using split(4) stake_where_all [of "pre @ [x]" "\<lambda>t. t \<le> fst x"] le(1) by simp
  also have "\<dots> \<le> stake_where (\<lambda>t. t \<le> fst x) ?xs"
    unfolding split(1) by (simp add: stake_where_def)
  finally have "?P div 2 < stake_where (\<lambda>t. t \<le> fst x) ts" unfolding stake_where_mset [OF perm] .
  moreover have "stake_where (\<lambda>t. t < fst x) ?xs \<le> ?P div 2"
    unfolding split(1) stake_where_append using stake_where_none [OF le(2)] stake_where_le [of "\<lambda>t. t < fst x" pre] split(3) by simp
  then have "stake_where (\<lambda>t. t < fst x) ts \<le> ?P div 2" unfolding stake_where_mset [OF perm] .
  ultimately show ?thesis using split(2) by (simp add: median_timestamps_by_stake_inner_def Let_def)
qed

definition weighted_ts :: "committee \<Rightarrow> verified_block_header \<Rightarrow> timestamp_ms \<times> stake" where
  "weighted_ts c h = (bh_timestamp_ms h, a_stake (authorities c ! bh_author h))"

lemma sum_weighted:
  "distinct (map bh_author hs) \<Longrightarrow>
     sum_list (map snd (map (weighted_ts c) hs)) = stake_sum c (bh_author ` set hs)"
  by (simp add: weighted_ts_def stake_sum_def distinct_map sum_list_distinct_conv_sum_set sum.reindex o_def)

lemma collect_timestamps:
  assumes "committee_ok c" "distinct (map bh_author hs)" "bh_author ` set hs \<subseteq> members c"
  shows "foldM (\<lambda>(ts, total) h. do {
         a \<leftarrow> authority_at c (bh_author h);
         Some (ts @ [(bh_timestamp_ms h, a_stake a)], wrap_u64 (total + a_stake a)) }) ([], 0) hs =
    Some (map (weighted_ts c) hs, stake_sum c (bh_author ` set hs))"
proof -
  have run: "foldM (\<lambda>(ts, total) h. do {
         a \<leftarrow> authority_at c (bh_author h);
         Some (ts @ [(bh_timestamp_ms h, a_stake a)], wrap_u64 (total + a_stake a)) }) (xs, n) hs =
      Some (xs @ map (weighted_ts c) hs, n + sum_list (map snd (map (weighted_ts c) hs)))"
    if "n + sum_list (map snd (map (weighted_ts c) hs)) < 18446744073709551616" "bh_author ` set hs \<subseteq> members c" for xs n hs
    using that
  proof (induction hs arbitrary: xs n)
    case (Cons h hs)
    then have "authority_at c (bh_author h) = Some (authorities c ! bh_author h)"
      by (simp add: authority_at_def members_def size_of_def)
    with Cons show ?case by (simp add: weighted_ts_def add.assoc)
  qed simp
  have "stake_sum c (bh_author ` set hs) < 18446744073709551616"
    using stake_sum_le_total [OF assms(1,3)] assms(1) by (simp add: committee_ok_def)
  then show ?thesis using run [of 0 hs "[]"] assms(3) unfolding sum_weighted [OF assms(2)] by simp
qed

lemma stake_where_headers:
  assumes "distinct (map bh_author hs)"
  shows "stake_where P (map (weighted_ts c) hs) = stake_sum c (bh_author ` {h \<in> set hs. P (bh_timestamp_ms h)})"
proof -
  have "stake_where P (map (weighted_ts c) hs) = sum_list (map snd (map (weighted_ts c) (filter (\<lambda>h. P (bh_timestamp_ms h)) hs)))"
    by (simp add: stake_where_def filter_map o_def weighted_ts_def)
  then show ?thesis using sum_weighted [of "filter (\<lambda>h. P (bh_timestamp_ms h)) hs" c] assms
    by (simp add: distinct_map_filter)
qed

text \<open>Half of a quorum of stake outweighs the faulty authorities.\<close>

lemma half_quorum_outweighs:
  assumes "committee_ok c" "f < validity_threshold c" "quorum_threshold c \<le> p"
  shows "f \<le> p div 2" "f < p - p div 2"
  using assms(2,3) unfolding committee_ok_thresholds [OF assms(1)] by linarith+

lemma heavy_has_honest:
  assumes "A \<subseteq> members c" "stake_sum c (members c - honest) < stake_sum c A"
  shows "\<exists>a \<in> A. a \<in> honest"
proof (rule ccontr)
  assume "\<not> ?thesis"
  then have "A \<subseteq> members c - honest" using assms(1) by blast
  then have "stake_sum c A \<le> stake_sum c (members c - honest)" by (rule stake_sum_mono) blast
  with assms(2) show False by simp
qed

lemma median_between_honest:
  assumes c: "committee_ok c" and hs: "distinct (map bh_author hs)" "bh_author ` set hs \<subseteq> members c"
    and quorum: "reached_quorum c (stake_sum c (bh_author ` set hs))"
    and faulty: "stake_sum c (members c - honest) < validity_threshold c"
  shows "\<exists>m. median_timestamp_by_stake c hs = Some (Inr m) \<and>
    (\<exists>h \<in> set hs. bh_author h \<in> honest \<and> bh_timestamp_ms h \<le> m) \<and>
    (\<exists>h \<in> set hs. bh_author h \<in> honest \<and> m \<le> bh_timestamp_ms h)"
proof -
  let ?P = "stake_sum c (bh_author ` set hs)" and ?ts = "map (weighted_ts c) hs"
  have P: "quorum_threshold c \<le> ?P" "0 < ?P" "?P < 18446744073709551616"
    using quorum quorum_positive [OF c] stake_sum_le_total [OF c hs(2)] c by (auto simp: reached_quorum_def committee_ok_def)
  have sum: "sum_list (map snd ?ts) = ?P" by (rule sum_weighted [OF hs(1)])
  from median_inner_spec [of ?ts, unfolded sum, OF P(2,3)] obtain m where
    m: "median_timestamps_by_stake_inner ?ts ?P = Some m" "?P div 2 < stake_where (\<lambda>t. t \<le> m) ?ts"
      "stake_where (\<lambda>t. t < m) ?ts \<le> ?P div 2" by blast
  have run: "median_timestamp_by_stake c hs = Some (Inr m)"
    using collect_timestamps [OF c hs] m(1) P(1,2) by (auto simp: median_timestamp_by_stake_def stake_sum_def)
  have split: "?P = stake_where (\<lambda>t. t < m) ?ts + stake_where (\<lambda>t. m \<le> t) ?ts"
    unfolding sum [symmetric] by (rule stake_where_split)
  have honest: "\<exists>h \<in> set hs. bh_author h \<in> honest \<and> Q (bh_timestamp_ms h)"
    if "stake_sum c (members c - honest) < stake_where Q ?ts" for Q
  proof -
    have "bh_author ` {h \<in> set hs. Q (bh_timestamp_ms h)} \<subseteq> members c" using hs(2) by blast
    from heavy_has_honest [OF this] that show ?thesis unfolding stake_where_headers [OF hs(1)] by blast
  qed
  have "stake_sum c (members c - honest) < stake_where (\<lambda>t. t \<le> m) ?ts"
    using half_quorum_outweighs(1) [OF c faulty P(1)] m(2) by simp
  moreover have "stake_sum c (members c - honest) < stake_where (\<lambda>t. m \<le> t) ?ts"
    using half_quorum_outweighs(2) [OF c faulty P(1)] m(3) split by linarith
  ultimately show ?thesis using run honest by blast
qed

text \<open>The headers of the round before in the ancestor list of a header.\<close>

definition parent_refs :: "verified_block_header \<Rightarrow> block_ref list" where
  "parent_refs h = (case ancestors h of None \<Rightarrow> [] | Some ancs \<Rightarrow> filter (\<lambda>a. br_round a = prev_round (bh_round h)) ancs)"

definition parents_quorum :: "committee \<Rightarrow> verified_block_header \<Rightarrow> bool" where
  "parents_quorum c h = reached_quorum c (stake_sum c (br_author ` set (parent_refs h)))"

lemma linear_dag_distinct:
  "linear_dag n g \<Longrightarrow> g r = Some h \<Longrightarrow> distinct (map br_author (filter P (case ancestors h of None \<Rightarrow> [] | Some ancs \<Rightarrow> ancs)))"
  by (cases "ancestors h") (auto simp: linear_dag_def distinct_map_filter)

lemma commit_timestamp_run:
  assumes dag: "member_dag c g" "linear_dag (size_of c) g" and l: "g (reference leader) = Some leader"
    and quorum: "parents_quorum c leader" and faulty: "stake_sum c (members c - honest) < validity_threshold c"
  shows "\<exists>m. calculate_commit_timestamp c (map g) leader last_ts = Some (max m last_ts) \<and>
    (\<exists>r \<in> set (parent_refs leader). \<exists>h. g r = Some h \<and> br_author r \<in> honest \<and> bh_timestamp_ms h \<le> m) \<and>
    (\<exists>r \<in> set (parent_refs leader). \<exists>h. g r = Some h \<and> br_author r \<in> honest \<and> m \<le> bh_timestamp_ms h)"
proof -
  note wf = member_dagD(2) [OF dag(1)]
  from wf_dag_ancestors [OF wf l] obtain ancs where ancs: "ancestors leader = Some ancs" "\<forall>a \<in> set ancs. g a \<noteq> None" by blast
  let ?refs = "filter (\<lambda>a. br_round a = prev_round (bh_round leader)) ancs"
  have refs: "parent_refs leader = ?refs" by (simp add: parent_refs_def ancs(1))
  let ?hs = "map (\<lambda>r. the (g r)) ?refs"
  have ref: "g r = Some h \<Longrightarrow> bh_author h = br_author r" for r h using wf_dag_reference [OF wf] reference_simps(2) by metis
  have get: "g r = Some (the (g r))" if "r \<in> set ?refs" for r using ancs(2) that by auto
  have auth: "map bh_author ?hs = map br_author ?refs" using ref [OF get] by simp
  have "distinct (map br_author ?refs)" using linear_dag_distinct [OF dag(2) l] by (simp add: ancs(1))
  then have d: "distinct (map bh_author ?hs)" unfolding auth .
  have set: "bh_author ` set ?hs = br_author ` set ?refs" using auth by (metis image_set)
  have mem: "br_author ` set ?refs \<subseteq> members c" using member_dagD(3) [OF dag(1) get] by blast
  from median_between_honest [OF member_dagD(1) [OF dag(1)] d _ _ faulty, unfolded set, OF mem] quorum obtain m where
    m: "median_timestamp_by_stake c ?hs = Some (Inr m)"
      "\<exists>h \<in> set ?hs. bh_author h \<in> honest \<and> bh_timestamp_ms h \<le> m" "\<exists>h \<in> set ?hs. bh_author h \<in> honest \<and> m \<le> bh_timestamp_ms h"
    by (auto simp: parents_quorum_def refs)
  have "mapM (\<lambda>h. h) (map g ?refs) = Some ?hs" using ancs(2) by (intro mapM_present) auto
  then have run: "calculate_commit_timestamp c (map g) leader last_ts = Some (max m last_ts)"
    using ancs(1) m(1) by (simp add: calculate_commit_timestamp_def)
  have lift: "\<exists>r \<in> set (parent_refs leader). \<exists>h. g r = Some h \<and> br_author r \<in> honest \<and> Q h"
    if ex: "\<exists>h \<in> set ?hs. bh_author h \<in> honest \<and> Q h" for Q
  proof -
    from ex obtain r where r: "r \<in> set ?refs" "bh_author (the (g r)) \<in> honest" "Q (the (g r))" by auto
    with get [OF r(1)] ref [OF get [OF r(1)]] show ?thesis unfolding refs by metis
  qed
  show ?thesis using run lift [OF m(2)] lift [OF m(3)] by blast
qed

subsection \<open>Acknowledgments are counted and transactions committed once\<close>

definition acks_ok :: "linearizer \<Rightarrow> bool" where
  "acks_ok lz = (committee_ok (ctx_committee (lz_context lz)) \<and> bm_invar (transactions_ack_tracker lz) \<and>
     (\<forall>r agg. bm_get (transactions_ack_tracker lz) r = Some agg \<longrightarrow> sa_ok (ctx_committee (lz_context lz)) agg))"

definition quorum_acked :: "linearizer \<Rightarrow> block_ref \<Rightarrow> bool" where
  "quorum_acked lz r =
     (case bm_get (transactions_ack_tracker lz) r of
        None \<Rightarrow> False | Some agg \<Rightarrow> sa_reached_threshold QuorumThreshold agg (ctx_committee (lz_context lz)))"

text \<open>What a sequence of acknowledgments does: \<open>new\<close> are the transactions it commits.\<close>

definition acks_effect :: "linearizer \<Rightarrow> linearizer \<Rightarrow> block_ref list \<Rightarrow> bool" where
  "acks_effect lz lz' new =
     (acks_ok lz' \<and> lz_context lz' = lz_context lz \<and> traversed_headers_tracker lz' = traversed_headers_tracker lz \<and>
      distinct new \<and> (\<forall>r. quorum_acked lz r \<longrightarrow> quorum_acked lz' r) \<and>
      (\<forall>r \<in> set new. \<not> quorum_acked lz r \<and> quorum_acked lz' r \<and>
         (consensus_commit_transactions_only_for_traversed_headers (lz_context lz) \<longrightarrow> r \<in> set (traversed_headers_tracker lz))))"

lemma acks_effect_refl: "acks_ok lz \<Longrightarrow> acks_effect lz lz []"
  by (simp add: acks_effect_def)

lemma acks_effect_trans:
  assumes "acks_effect lz lz1 xs" "acks_effect lz1 lz2 ys"
  shows "acks_effect lz lz2 (xs @ ys)"
  using assms unfolding acks_effect_def by (auto 0 3)

lemma sa_ok_threshold: "sa_ok c agg \<Longrightarrow> sa_reached_threshold QuorumThreshold agg c \<longleftrightarrow> reached_quorum c (stake_sum c (set (sa_votes agg)))"
  by (simp add: sa_reached_threshold_def sa_ok_def)

lemma add_ack_run:
  assumes ok: "acks_ok lz" and a: "authority \<in> members (ctx_committee (lz_context lz))"
  shows "\<exists>lz' new. add_ack r authority (lz, out) ref = Some (lz', out @ new) \<and> acks_effect lz lz' new \<and>
    set new \<subseteq> {ref} \<and> (\<forall>x \<in> set new. r - gc_depth (lz_context lz) \<le> br_round x)"
proof (cases "br_round ref < r - gc_depth (lz_context lz)")
  case True
  with acks_effect_refl [OF ok] show ?thesis by (intro exI [of _ lz] exI [of _ "[]"]) (simp add: add_ack_def)
next
  case False
  let ?c = "ctx_committee (lz_context lz)"
  define agg where "agg = (case bm_get (transactions_ack_tracker lz) ref of Some a \<Rightarrow> a | None \<Rightarrow> sa_new)"
  have c: "committee_ok ?c" and agg: "sa_ok ?c agg"
    using ok by (auto simp: acks_ok_def agg_def split: option.splits)
  from sa_add_ok [OF c agg a, of QuorumThreshold] obtain agg' where
    agg': "sa_add QuorumThreshold agg authority ?c = Some (reached_quorum ?c (stake_sum ?c (insert authority (set (sa_votes agg)))), agg')"
      "sa_ok ?c agg'" "set (sa_votes agg') = insert authority (set (sa_votes agg))" by auto
  let ?lz = "lz\<lparr> transactions_ack_tracker := bm_insert ref agg' (transactions_ack_tracker lz) \<rparr>"
  let ?commits = "sa_reached_threshold QuorumThreshold agg' ?c \<and> \<not> sa_reached_threshold QuorumThreshold agg ?c \<and>
    (\<not> consensus_commit_transactions_only_for_traversed_headers (lz_context lz) \<or> ref \<in> set (traversed_headers_tracker lz))"
  have run: "add_ack r authority (lz, out) ref = Some (?lz, out @ (if ?commits then [ref] else []))"
    using False agg' sa_ok_threshold [OF agg'(2)] by (simp add: add_ack_def Let_def agg_def [symmetric])
  have before: "quorum_acked lz ref \<longleftrightarrow> sa_reached_threshold QuorumThreshold agg ?c"
    using quorum_positive [OF c]
    by (auto simp: quorum_acked_def agg_def sa_reached_threshold_def reached_quorum_def split: option.splits)
  have after: "quorum_acked ?lz x \<longleftrightarrow> (if x = ref then sa_reached_threshold QuorumThreshold agg' ?c else quorum_acked lz x)" for x
    by (simp add: quorum_acked_def split: option.splits)
  have mono: "sa_reached_threshold QuorumThreshold agg ?c \<Longrightarrow> sa_reached_threshold QuorumThreshold agg' ?c"
  proof -
    assume "sa_reached_threshold QuorumThreshold agg ?c"
    moreover have "stake_sum ?c (set (sa_votes agg)) \<le> stake_sum ?c (set (sa_votes agg'))"
      using agg'(2,3) by (intro stake_sum_mono) (auto simp: sa_ok_def)
    ultimately show ?thesis unfolding sa_ok_threshold [OF agg] sa_ok_threshold [OF agg'(2)] reached_quorum_def by linarith
  qed
  have "acks_ok ?lz" using ok agg'(2) by (auto simp: acks_ok_def split: if_splits)
  then have "acks_effect lz ?lz (if ?commits then [ref] else [])"
    using before after mono by (auto simp: acks_effect_def)
  with run False show ?thesis by (intro exI conjI) (assumption+, auto)
qed

lemma add_committed_transaction_acks_run:
  assumes "acks_ok lz" "authority \<in> members (ctx_committee (lz_context lz))"
  shows "\<exists>lz' new. foldM (add_ack r authority) (lz, out) acks = Some (lz', out @ new) \<and> acks_effect lz lz' new \<and>
    set new \<subseteq> set acks \<and> (\<forall>x \<in> set new. r - gc_depth (lz_context lz) \<le> br_round x)"
  using assms
proof (induction acks arbitrary: lz out)
  case Nil
  then show ?case by (intro exI [of _ lz] exI [of _ "[]"]) (simp add: acks_effect_refl)
next
  case (Cons a acks)
  from add_ack_run [OF Cons.prems, of r out a] obtain lz1 n1 where
    1: "add_ack r authority (lz, out) a = Some (lz1, out @ n1)" "acks_effect lz lz1 n1" "set n1 \<subseteq> {a}"
      "\<forall>x \<in> set n1. r - gc_depth (lz_context lz) \<le> br_round x" by blast
  have ctx: "acks_ok lz1" "lz_context lz1 = lz_context lz" using 1(2) by (simp_all add: acks_effect_def)
  with Cons.IH [of lz1 "out @ n1"] Cons.prems(2) obtain lz2 n2 where
    2: "foldM (add_ack r authority) (lz1, out @ n1) acks = Some (lz2, (out @ n1) @ n2)" "acks_effect lz1 lz2 n2" "set n2 \<subseteq> set acks"
      "\<forall>x \<in> set n2. r - gc_depth (lz_context lz) \<le> br_round x" by auto
  show ?case
    using 1 2 acks_effect_trans [OF 1(2) 2(2)] by (intro exI [of _ lz2] exI [of _ "n1 @ n2"]) auto
qed

definition ack_source :: "round \<Rightarrow> verified_block_header list \<Rightarrow> block_ref \<Rightarrow> bool" where
  "ack_source depth hs x =
     (\<exists>h \<in> set hs. \<exists>acks. acknowledgments h = Some acks \<and> x \<in> set acks \<and> bh_round h - depth \<le> br_round x)"

lemma collect_acks_run:
  assumes "acks_ok lz" "\<forall>h \<in> set hs. bh_author h \<in> members (ctx_committee (lz_context lz)) \<and> acknowledgments h \<noteq> None"
  shows "\<exists>lz' new. collect_acks lz hs = Some (lz', new) \<and> acks_effect lz lz' new \<and>
    (\<forall>x \<in> set new. ack_source (gc_depth (lz_context lz)) hs x)"
proof -
  have "\<exists>lz' new. foldM (\<lambda>(lz, out) h. do {
         acks \<leftarrow> acknowledgments h;
         (lz', refs) \<leftarrow> add_committed_transaction_acks lz (bh_round h) (bh_author h) acks;
         Some (lz', out @ refs) }) (lz, out) hs = Some (lz', out @ new) \<and> acks_effect lz lz' new \<and>
      (\<forall>x \<in> set new. ack_source (gc_depth (lz_context lz)) hs x)" for out
    using assms
  proof (induction hs arbitrary: lz out)
    case Nil
    then show ?case by (intro exI [of _ lz] exI [of _ "[]"]) (simp add: acks_effect_refl)
  next
    case (Cons h hs)
    obtain acks where acks: "acknowledgments h = Some acks" using Cons.prems(2) by auto
    have "bh_author h \<in> members (ctx_committee (lz_context lz))" using Cons.prems(2) by simp
    from add_committed_transaction_acks_run [OF Cons.prems(1) this, of "bh_round h" "[]" acks] obtain lz1 n1 where
      1: "add_committed_transaction_acks lz (bh_round h) (bh_author h) acks = Some (lz1, n1)" "acks_effect lz lz1 n1"
        "\<forall>x \<in> set n1. ack_source (gc_depth (lz_context lz)) [h] x"
      using acks by (auto simp: add_committed_transaction_acks_def ack_source_def)
    have ctx: "acks_ok lz1" "lz_context lz1 = lz_context lz" using 1(2) by (simp_all add: acks_effect_def)
    with Cons.IH [of lz1 "out @ n1"] Cons.prems(2) obtain lz2 n2 where
      2: "foldM (\<lambda>(lz, out) h. do {
         acks \<leftarrow> acknowledgments h;
         (lz', refs) \<leftarrow> add_committed_transaction_acks lz (bh_round h) (bh_author h) acks;
         Some (lz', out @ refs) }) (lz1, out @ n1) hs = Some (lz2, (out @ n1) @ n2)" "acks_effect lz1 lz2 n2"
        "\<forall>x \<in> set n2. ack_source (gc_depth (lz_context lz)) hs x" by auto
    show ?case
      using acks 1 2 acks_effect_trans [OF 1(2) 2(2)] by (intro exI [of _ lz2] exI [of _ "n1 @ n2"]) (auto simp: ack_source_def)
  qed
  from this [of "[]"] show ?thesis by (simp add: collect_acks_def)
qed

lemma record_traversed_tracker [simp]:
  "transactions_ack_tracker (record_traversed_headers lz hs) = transactions_ack_tracker lz"
  "lz_context (record_traversed_headers lz hs) = lz_context lz"
  by (simp_all add: record_traversed_headers_def)

lemma record_traversed_acks [simp]:
  "acks_ok (record_traversed_headers lz hs) = acks_ok lz"
  "quorum_acked (record_traversed_headers lz hs) r = quorum_acked lz r"
  by (simp_all add: acks_ok_def quorum_acked_def split: option.splits)

text \<open>
  The runs of the acknowledgment tracker: commits of leaders of increasing rounds, whose
  headers lie within the linearizer's depth, and evictions up to a committed leader. The last
  arguments are the round of the last leader and the transactions committed so far. Genesis
  blocks carry no transactions and are not acknowledged.
\<close>

inductive ack_run :: "consensus_context \<Rightarrow> linearizer \<Rightarrow> round \<Rightarrow> block_ref list \<Rightarrow> bool" for ctx where
  run_init: "committee_ok (ctx_committee ctx) \<Longrightarrow> ack_run ctx (linearizer_new ctx) 0 []"
| run_commit: "ack_run ctx lz r committed \<Longrightarrow> r < leader_r \<Longrightarrow>
     \<forall>h \<in> set hs. leader_r - gc_depth ctx \<le> bh_round h \<and> bh_author h \<in> members (ctx_committee ctx) \<and>
       (\<exists>acks. acknowledgments h = Some acks \<and> (\<forall>a \<in> set acks. 0 < br_round a)) \<Longrightarrow>
     collect_acks (record_traversed_headers lz hs) hs = Some (lz', new) \<Longrightarrow>
     ack_run ctx lz' leader_r (committed @ new)"
| run_evict: "ack_run ctx lz r committed \<Longrightarrow> solid \<le> r \<Longrightarrow> ack_run ctx (evict_linearizer lz solid) r committed"

inductive_cases ack_runE: "ack_run ctx lz r committed"

lemma evict_linearizer_facts:
  "lz_context (evict_linearizer lz solid) = lz_context lz"
  "acks_ok lz \<Longrightarrow> acks_ok (evict_linearizer lz solid)"
  "acks_ok lz \<Longrightarrow> solid - gc_depth (lz_context lz) * 2 < br_round r \<Longrightarrow>
     quorum_acked (evict_linearizer lz solid) r = quorum_acked lz r"
  by (auto simp: evict_linearizer_def Let_def acks_ok_def quorum_acked_def bm_get_split_off block_ref_from_round
      split: option.splits if_splits)

definition ack_run_inv :: "consensus_context \<Rightarrow> linearizer \<Rightarrow> round \<Rightarrow> block_ref list \<Rightarrow> bool" where
  "ack_run_inv ctx lz r committed =
     (acks_ok lz \<and> lz_context lz = ctx \<and> distinct committed \<and>
      (\<forall>x \<in> set committed. 0 < br_round x \<and> (quorum_acked lz x \<or> br_round x + gc_depth ctx * 2 \<le> r)))"

lemma ack_run_inv_commit:
  assumes inv: "ack_run_inv ctx lz r committed" and "r < leader_r"
    and hs: "\<forall>h \<in> set hs. leader_r - gc_depth ctx \<le> bh_round h \<and> bh_author h \<in> members (ctx_committee ctx) \<and>
       (\<exists>acks. acknowledgments h = Some acks \<and> (\<forall>a \<in> set acks. 0 < br_round a))"
    and run: "collect_acks (record_traversed_headers lz hs) hs = Some (lz', new)"
  shows "ack_run_inv ctx lz' leader_r (committed @ new)"
proof -
  have lz: "acks_ok lz" "lz_context lz = ctx" using inv by (simp_all add: ack_run_inv_def)
  from collect_acks_run [of "record_traversed_headers lz hs" hs] lz hs run have
    eff: "acks_effect (record_traversed_headers lz hs) lz' new" and src: "\<forall>x \<in> set new. ack_source (gc_depth ctx) hs x" by auto
  have new: "0 < br_round x \<and> leader_r \<le> br_round x + gc_depth ctx * 2 \<and> \<not> quorum_acked lz x \<and> quorum_acked lz' x"
    if x: "x \<in> set new" for x
  proof -
    obtain h acks where h: "h \<in> set hs" "acknowledgments h = Some acks" "x \<in> set acks" "bh_round h - gc_depth ctx \<le> br_round x"
      using src x by (auto simp: ack_source_def)
    with hs have "leader_r - gc_depth ctx \<le> bh_round h" "0 < br_round x" by (metis option.inject)+
    with h(4) x eff show ?thesis by (auto simp: acks_effect_def)
  qed
  have "x \<notin> set committed" if "x \<in> set new" for x
    using new [OF that] inv \<open>r < leader_r\<close> unfolding ack_run_inv_def by (metis leD le_less_trans)
  then have "distinct (committed @ new)" using inv eff by (auto simp: ack_run_inv_def acks_effect_def)
  moreover have "\<forall>x \<in> set committed. quorum_acked lz' x \<or> br_round x + gc_depth ctx * 2 \<le> leader_r"
    using inv eff \<open>r < leader_r\<close> by (auto simp: ack_run_inv_def acks_effect_def)
  ultimately show ?thesis using inv eff new lz(2) by (auto simp: ack_run_inv_def acks_effect_def)
qed

lemma ack_run_inv_evict:
  assumes "ack_run_inv ctx lz r committed" "solid \<le> r"
  shows "ack_run_inv ctx (evict_linearizer lz solid) r committed"
proof -
  have lz: "acks_ok lz" "lz_context lz = ctx" using assms by (simp_all add: ack_run_inv_def)
  have "quorum_acked (evict_linearizer lz solid) x \<or> br_round x + gc_depth ctx * 2 \<le> r" if x: "x \<in> set committed" for x
  proof (cases "solid - gc_depth ctx * 2 < br_round x")
    case True
    then show ?thesis using evict_linearizer_facts(3) [OF lz(1), of solid x] lz(2) assms(1) x by (auto simp: ack_run_inv_def)
  next
    case False
    moreover have "0 < br_round x" using assms(1) x by (simp add: ack_run_inv_def)
    ultimately have "br_round x + gc_depth ctx * 2 \<le> r" using assms(2) by linarith
    then show ?thesis ..
  qed
  then show ?thesis using assms(1) evict_linearizer_facts(1,2) lz by (simp add: ack_run_inv_def)
qed

lemma ack_run_invariant: "ack_run ctx lz r committed \<Longrightarrow> ack_run_inv ctx lz r committed"
proof (induction rule: ack_run.induct)
  case run_init
  then show ?case by (simp add: ack_run_inv_def linearizer_new_def acks_ok_def)
qed (blast intro: ack_run_inv_commit ack_run_inv_evict)+

end
