(* ===== verification/Linearizer_Commits.thy ===== *)
theory Linearizer_Commits
  imports Linearizer Synchronous_Dag
begin

section \<open>Committing sub-dags\<close>

text \<open>
  What \<open>linearizer.rs\<close> produces on a validator's DAG: every leader becomes the next commit,
  the commits form a chain, and no header is committed twice. With the witnesses of the
  linearizer's properties on the synchronous DAG.
\<close>

definition dag_linear :: "dag_state \<Rightarrow> bool" where
  "dag_linear ds =
     (wf_dag (header_of ds) \<and> linear_dag (size_of (ds_committee ds)) (header_of ds) \<and>
      (\<forall>r h. header_of ds r = Some h \<longrightarrow> acknowledgments h \<noteq> None))"

definition lz_ok :: "linearizer \<Rightarrow> dag_state \<Rightarrow> bool" where
  "lz_ok lz ds =
     (lz_context lz = ds_ctx ds \<and> acks_ok lz \<and>
      (\<forall>r \<in> set (traversed_headers_tracker lz). header_of ds r \<noteq> None \<and> br_round r \<noteq> 0))"

definition leader_ok :: "dag_state \<Rightarrow> verified_block_header \<Rightarrow> bool" where
  "leader_ok ds l = (header_of ds (reference l) = Some l \<and> parents_quorum (ds_committee ds) l)"

text \<open>Under fast commit sync, transactions are committed only for traversed headers.\<close>

definition flags_ok :: "consensus_context \<Rightarrow> bool" where
  "flags_ok ctx = (consensus_fast_commit_sync ctx \<longrightarrow> consensus_commit_transactions_only_for_traversed_headers ctx)"

lemma dag_member: "dag_ok ds \<Longrightarrow> dag_linear ds \<Longrightarrow> member_dag (ds_committee ds) (header_of ds)"
  using header_of_cases dag_ok_committee by (auto simp: member_dag_def dag_linear_def)

lemma get_headers_map: "get_verified_block_headers ds = map (header_of ds)"
  by (rule ext) (simp add: dag_simps)

lemma transactions_commitments_map:
  "get_transactions_commitments_batch ds refs =
     map (\<lambda>r. if br_round r = 0 then None else map_option bh_transactions_commitment (header_of ds r)) refs"
proof -
  have map: "map (map_option bh_transactions_commitment) (store_read_verified_block_headers (ds_store ds) rs) =
      map (\<lambda>r. map_option bh_transactions_commitment (bm_get (ms_block_headers (ds_store ds)) r)) rs" for rs
    by (simp add: store_read_verified_block_headers_def)
  show ?thesis
    unfolding get_transactions_commitments_batch_def Let_def map batch_fill_map
    by (rule map_cong [OF refl]) (auto simp: header_of_def GENESIS_ROUND_def split: option.splits)
qed

lemma committed_transaction_refs_total:
  assumes "fast \<longrightarrow> (\<forall>r \<in> set refs. header_of ds r \<noteq> None \<and> br_round r \<noteq> 0)"
  shows "\<exists>txs. committed_transaction_refs ds fast refs = Some txs \<and> (\<forall>g \<in> set txs. commit_ref_kind fast g)"
proof (cases fast)
  case True
  let ?f = "\<lambda>(r, commitment). do { d \<leftarrow> commitment; Some (GTransactionRef (TransactionRef (br_round r) (br_author r) d)) }"
  have "?f x \<noteq> None" if x: "x \<in> set (zip refs (get_transactions_commitments_batch ds refs))" for x
  proof -
    from x obtain i where i: "i < length refs" and x': "x = (refs ! i, if br_round (refs ! i) = 0 then None
        else map_option bh_transactions_commitment (header_of ds (refs ! i)))"
      unfolding transactions_commitments_map by (auto simp: set_zip)
    obtain h where "header_of ds (refs ! i) = Some h" "br_round (refs ! i) \<noteq> 0"
      using assms True nth_mem [OF i] by blast
    then show ?thesis by (simp add: x')
  qed
  then obtain txs where
    txs: "mapM ?f (zip refs (get_transactions_commitments_batch ds refs)) = Some txs"
    using mapM_total [of "zip refs (get_transactions_commitments_batch ds refs)" ?f] by blast
  have "\<forall>g \<in> set txs. commit_ref_kind True g"
    using mapM_set [OF txs] by (auto simp: commit_ref_kind_def Option.bind_eq_Some_conv)
  with True txs show ?thesis by (auto simp: committed_transaction_refs_def)
next
  case False
  then show ?thesis by (auto simp: committed_transaction_refs_def commit_ref_kind_def)
qed

lemma fresh_in_dag:
  assumes "wf_dag g" "g l \<noteq> None"
  shows "r \<in> fresh_refs g rounds lower l \<Longrightarrow> g r \<noteq> None \<and> br_round r \<le> br_round l"
proof (induction rule: fresh_refs.induct)
  case (fresh_step x h ancs a)
  then show ?case using wf_dag_ancestor [OF assms(1) fresh_step(2-4)] by auto
qed (use assms(2) in auto)

lemma fresh_uncommitted:
  "r \<in> fresh_refs g rounds lower l \<Longrightarrow> r = l \<or> uncommitted rounds lower r"
  by (induction rule: fresh_refs.induct) auto

text \<open>The headers of a sub-dag are above their authors' last committed rounds, in memory and not above the leader.\<close>

lemma sub_dag_refs:
  assumes ok: "dag_ok ds" "dag_linear ds" and l: "leader_ok ds l" "last_commit_round ds < bh_round l"
    and r: "r \<in> fresh_refs (header_of ds) (last_committed_rounds ds) lower (reference l)"
  shows "header_of ds r \<noteq> None" "br_round r \<le> bh_round l" "last_committed_rounds ds ! br_author r < br_round r"
    "bm_get (recent_block_headers ds) r \<noteq> None"
proof -
  have wf: "wf_dag (header_of ds)" "header_of ds (reference l) = Some l"
    using ok(2) l(1) by (simp_all add: dag_linear_def leader_ok_def)
  then show h: "header_of ds r \<noteq> None" "br_round r \<le> bh_round l" using fresh_in_dag [OF wf(1) _ r] by auto
  have "last_committed_rounds ds ! bh_author l \<le> last_commit_round ds"
    using committed_below_leader [OF ok(1)] header_of_author [OF ok(1) wf(2)] by blast
  with l(2) show c: "last_committed_rounds ds ! br_author r < br_round r"
    using fresh_uncommitted [OF r] by (auto simp: uncommitted_def)
  show "bm_get (recent_block_headers ds) r \<noteq> None" using recent_above_committed [OF ok(1) c] h(1) by simp
qed

subsection \<open>One commit\<close>

lemma raise_committed_rounds_cover:
  "raise_committed_rounds rounds refs = Some rs \<Longrightarrow> length rs = length rounds \<and>
     (\<forall>a < length rounds. rounds ! a \<le> rs ! a) \<and> (\<forall>r \<in> set refs. br_author r < length rounds \<and> br_round r \<le> rs ! br_author r)"
proof (induction refs arbitrary: rounds)
  case (Cons r refs)
  let ?rounds = "rounds[br_author r := max (rounds ! br_author r) (br_round r)]"
  have r: "br_author r < length rounds" and run: "raise_committed_rounds ?rounds refs = Some rs"
    using Cons.prems by (auto simp: raise_committed_rounds_def update_vec_def Option.bind_eq_Some_conv vec_get_eq_Some_iff)
  note IH = Cons.IH [OF run]
  have "?rounds ! a \<le> rs ! a" if "a < length rounds" for a using IH that by simp
  from this [OF r] r have "rounds ! br_author r \<le> rs ! br_author r" "br_round r \<le> rs ! br_author r" by auto
  moreover have "rounds ! a \<le> rs ! a" if "a < length rounds" "a \<noteq> br_author r" for a
    using IH that by (metis length_list_update nth_list_update_neq)
  ultimately show ?case using IH r by (metis length_list_update set_ConsD)
qed (simp add: raise_committed_rounds_def)

lemma add_commit_rounds:
  assumes "dag_ok ds" "next_commit ds commit" "add_commit ds commit = Some ds'"
  shows "\<forall>a < size_of (ds_committee ds). last_committed_rounds ds ! a \<le> last_committed_rounds ds' ! a"
    "\<forall>r \<in> set (commit_block_headers (tcm_inner commit)). br_round r \<le> last_committed_rounds ds' ! br_author r"
proof -
  obtain rs where "raise_committed_rounds (last_committed_rounds ds) (commit_block_headers (tcm_inner commit)) = Some rs"
    "last_committed_rounds ds' = rs"
    using assms(3) unfolding add_commit_fresh [OF assms(2)] by (auto simp: Option.bind_eq_Some_conv)
  with raise_committed_rounds_cover dag_ok_rounds [OF assms(1)]
  show "\<forall>a < size_of (ds_committee ds). last_committed_rounds ds ! a \<le> last_committed_rounds ds' ! a"
    "\<forall>r \<in> set (commit_block_headers (tcm_inner commit)). br_round r \<le> last_committed_rounds ds' ! br_author r"
    by (auto simp: rounds_ok_def)
qed

text \<open>The commit built for a leader and the sub-dag handed on, in terms of the DAG.\<close>

definition sub_dag_for ::
  "dag_state \<Rightarrow> verified_block_header \<Rightarrow> pending_sub_dag \<Rightarrow> trusted_commit \<Rightarrow> bool" where
  "sub_dag_for ds l sd commit =
     (sd_leader sd = reference l \<and> commit_leader (tcm_inner commit) = reference l \<and>
      sd_committed_header_refs sd = map reference (sd_headers sd) \<and>
      commit_block_headers (tcm_inner commit) = map reference (sd_headers sd) \<and>
      distinct (map reference (sd_headers sd)) \<and>
      reference ` set (sd_headers sd) =
        fresh_refs (header_of ds) (last_committed_rounds ds) (bh_round l - gc_depth (ds_ctx ds)) (reference l) \<and>
      (\<forall>h \<in> set (sd_headers sd). header_of ds (reference h) = Some h) \<and>
      sorted (map (\<lambda>h. (bh_round h, bh_author h)) (sd_headers sd)) \<and>
      psd_committed_transaction_refs sd = commit_committed_transactions (tcm_inner commit) \<and>
      sd_timestamp_ms sd = commit_timestamp_ms (tcm_inner commit) \<and> sd_commit_ref sd = tcm_reference commit \<and>
      commit_previous_digest (tcm_inner commit) = last_commit_digest ds)"

lemma set_record_traversed:
  "set (traversed_headers_tracker (record_traversed_headers lz hs)) =
     set (traversed_headers_tracker lz) \<union>
     (if consensus_commit_transactions_only_for_traversed_headers (lz_context lz) then reference ` set hs else {})"
proof -
  have "set (fold (\<lambda>h. bs_insert (reference h)) hs t) = set t \<union> reference ` set hs" for t
    by (induction hs arbitrary: t) auto
  then show ?thesis by (simp add: record_traversed_headers_def)
qed

lemma collect_sub_dag_and_commit_run:
  assumes ok: "dag_ok ds" "dag_linear ds" and lz: "lz_ok lz ds" and flags: "flags_ok (ds_ctx ds)"
    and l: "leader_ok ds l" "last_commit_round ds < bh_round l"
  shows "\<exists>sd commit lz'. collect_sub_dag_and_commit digest_of lz ds l scores = Some (sd, commit, lz') \<and>
    lz_ok lz' ds \<and> next_commit ds commit \<and> sub_dag_for ds l sd commit"
proof -
  let ?ctx = "ds_ctx ds" and ?c = "ds_committee ds" and ?g = "header_of ds" and ?lcr = "last_committed_rounds ds"
  have ctx: "lz_context lz = ?ctx" "acks_ok lz" using lz by (simp_all add: lz_ok_def)
  have wf: "wf_dag ?g" "linear_dag (length ?lcr) ?g" "?g (reference l) = Some l"
    using ok l(1) dag_ok_rounds [OF ok(1)] by (simp_all add: dag_linear_def leader_ok_def rounds_ok_def)
  from linearize_sub_dag_run [OF wf, of "gc_depth ?ctx"] obtain hs where
    hs: "linearize_sub_dag (map ?g) l ?lcr (gc_depth ?ctx) = Some hs" "distinct (map reference hs)"
      "reference ` set hs = fresh_refs ?g ?lcr (bh_round l - gc_depth ?ctx) (reference l)"
      "\<forall>h \<in> set hs. ?g (reference h) = Some h" "sorted (map (\<lambda>h. (bh_round h, bh_author h)) hs)" by blast
  have refs: "?g (reference h) = Some h" "bh_round h \<le> bh_round l" "?lcr ! bh_author h < bh_round h"
    "bm_get (recent_block_headers ds) (reference h) \<noteq> None" "bh_author h \<in> members ?c" if "h \<in> set hs" for h
    using sub_dag_refs [OF ok l, of "reference h" "bh_round l - gc_depth ?ctx"] hs(3,4) that header_of_author [OF ok(1)] by auto
  have lin: "linear_dag (size_of ?c) ?g" "parents_quorum ?c l" using ok(2) l(1) by (simp_all add: dag_linear_def leader_ok_def)
  have "stake_sum ?c (members ?c - members ?c) < validity_threshold ?c"
    using validity_positive [OF dag_ok_committee [OF ok(1)]] by (simp add: stake_sum_def)
  from commit_timestamp_run [OF dag_member [OF ok] lin(1) wf(3) lin(2) this, of "last_commit_timestamp_ms ds"] obtain m where
    ts: "calculate_commit_timestamp ?c (map ?g) l (last_commit_timestamp_ms ds) = Some (max m (last_commit_timestamp_ms ds))" by blast
  let ?lz1 = "record_traversed_headers lz hs"
  have "\<forall>h \<in> set hs. bh_author h \<in> members (ctx_committee (lz_context ?lz1)) \<and> acknowledgments h \<noteq> None"
  proof
    fix h assume h: "h \<in> set hs"
    have "acknowledgments h \<noteq> None" using ok(2) refs(1) [OF h] unfolding dag_linear_def by blast
    with refs(5) [OF h] ctx(1) show "bh_author h \<in> members (ctx_committee (lz_context ?lz1)) \<and> acknowledgments h \<noteq> None"
      by simp
  qed
  with collect_acks_run [of ?lz1 hs] ctx(2) obtain lz2 new where
    acks: "collect_acks ?lz1 hs = Some (lz2, new)" "acks_effect ?lz1 lz2 new" by auto
  have trav: "\<forall>r \<in> set (traversed_headers_tracker ?lz1). ?g r \<noteq> None \<and> br_round r \<noteq> 0"
  proof
    fix r assume "r \<in> set (traversed_headers_tracker ?lz1)"
    then consider "r \<in> set (traversed_headers_tracker lz)" | h where "h \<in> set hs" "r = reference h"
      unfolding set_record_traversed by (auto split: if_splits)
    then show "?g r \<noteq> None \<and> br_round r \<noteq> 0"
    proof cases
      case 1
      with lz show ?thesis unfolding lz_ok_def by blast
    next
      case 2
      with refs(1,3) [of h] show ?thesis by simp
    qed
  qed
  have "length new = card (set new)" using acks(2) by (simp add: acks_effect_def distinct_card)
  moreover have "consensus_fast_commit_sync ?ctx \<longrightarrow> (\<forall>r \<in> set new. ?g r \<noteq> None \<and> br_round r \<noteq> 0)"
    using trav acks(2) flags ctx(1) by (auto simp: acks_effect_def flags_ok_def)
  from committed_transaction_refs_total [OF this] obtain txs where
    txs: "committed_transaction_refs ds (consensus_fast_commit_sync ?ctx) new = Some txs"
      "\<forall>g \<in> set txs. commit_ref_kind (consensus_fast_commit_sync ?ctx) g" by blast
  from Commit_new_total [OF txs(2), of "last_commit_index ds + 1" "last_commit_digest ds" "max m (last_commit_timestamp_ms ds)"
      "reference l" "map reference hs" scores] obtain cm where
    cm: "Commit_new (consensus_fast_commit_sync ?ctx) (last_commit_index ds + 1) (last_commit_digest ds)
      (max m (last_commit_timestamp_ms ds)) (reference l) (map reference hs) txs scores = Some cm" by blast
  let ?commit = "new_trusted digest_of cm"
  let ?sd = "pending_sub_dag_new (reference l) hs (commit_block_headers cm) (commit_committed_transactions cm)
    (max m (last_commit_timestamp_ms ds)) (tcm_reference ?commit) scores"
  note acc = Commit_new_accessors [OF cm]
  have "collect_sub_dag_and_commit digest_of lz ds l scores = Some (?sd, ?commit, lz2)"
    using hs(1) ts acks(1) \<open>length new = card (set new)\<close> txs(1) cm ctx(1)
    by (simp add: collect_sub_dag_and_commit_def get_headers_map Let_def)
  moreover have "lz_ok lz2 ds" using acks(2) ctx(1) trav by (simp add: lz_ok_def acks_effect_def)
  moreover have "next_commit ds ?commit"
    using acc l(2) refs(2,4) by (auto simp: next_commit_def new_trusted_def commit_round_def)
  moreover have "sub_dag_for ds l ?sd ?commit"
    using acc hs(2-5) by (simp add: sub_dag_for_def pending_sub_dag_new_def new_trusted_def)
  ultimately show ?thesis by blast
qed

subsection \<open>A sequence of leaders\<close>

primrec digest_chain :: "digest \<Rightarrow> trusted_commit list \<Rightarrow> bool" where
  "digest_chain d [] = True"
| "digest_chain d (c # cs) = (commit_previous_digest (tcm_inner c) = d \<and> digest_chain (tcm_digest c) cs)"

text \<open>
  The outcome of a run over \<open>leaders\<close>: one sub-dag and one commit per leader, consecutive indices,
  each commit naming the digest of the one before, timestamps that never decrease, and headers
  that were not committed before the run nor twice in it.
\<close>

definition commits_run ::
  "dag_state \<Rightarrow> verified_block_header list \<Rightarrow> pending_sub_dag list \<Rightarrow> trusted_commit list \<Rightarrow> dag_state \<Rightarrow> bool" where
  "commits_run ds leaders sds commits ds' =
     (map sd_leader sds = map reference leaders \<and>
      map sd_commit_ref sds = map tcm_reference commits \<and>
      map (commit_index_of \<circ> tcm_inner) commits = [last_commit_index ds + 1 ..< last_commit_index ds + 1 + length leaders] \<and>
      digest_chain (last_commit_digest ds) commits \<and>
      sorted (last_commit_timestamp_ms ds # map sd_timestamp_ms sds) \<and>
      distinct (concat (map sd_committed_header_refs sds)) \<and>
      (\<forall>r \<in> set (concat (map sd_committed_header_refs sds)).
         header_of ds r \<noteq> None \<and> last_committed_rounds ds ! br_author r < br_round r) \<and>
      commits_to_write ds' = commits_to_write ds @ commits)"

lemma pending_step_run:
  assumes ok: "dag_ok ds" "dag_linear ds" and lz: "lz_ok lz ds" and flags: "flags_ok (ds_ctx ds)"
    and l: "leader_ok ds l" "last_commit_round ds < bh_round l"
  shows "\<exists>sd commit lz' ds'. pending_sub_dag_step digest_of scores (sds, lz, ds) (i, l) = Some (sds @ [sd], lz', ds') \<and>
    sub_dag_for ds l sd commit \<and> next_commit ds commit \<and> add_commit ds commit = Some ds' \<and> dag_ok ds' \<and>
    header_of ds' = header_of ds \<and> ds_ctx ds' = ds_ctx ds \<and> lz_ok lz' ds' \<and> last_commit ds' = Some commit \<and>
    commits_to_write ds' = commits_to_write ds @ [commit]"
proof -
  from collect_sub_dag_and_commit_run [OF ok lz flags l, of digest_of "if i = 0 then scores else []"] obtain sd commit lz' where
    run: "collect_sub_dag_and_commit digest_of lz ds l (if i = 0 then scores else []) = Some (sd, commit, lz')"
      "lz_ok lz' ds" "next_commit ds commit" "sub_dag_for ds l sd commit" by blast
  from add_commit_ok [OF ok(1) run(3)] obtain ds' where
    ds': "add_commit ds commit = Some ds'" "dag_ok ds'" "header_of ds' = header_of ds" "last_commit ds' = Some commit"
      "ds_ctx ds' = ds_ctx ds" by blast
  moreover have "commits_to_write ds' = commits_to_write ds @ [commit]"
    using ds'(1) unfolding add_commit_fresh [OF run(3)] by (auto simp: Option.bind_eq_Some_conv)
  moreover have "lz_ok lz' ds'" using run(2) ds'(3,5) by (simp add: lz_ok_def)
  moreover have "pending_sub_dag_step digest_of scores (sds, lz, ds) (i, l) = Some (sds @ [sd], lz', ds')"
    using run(1) ds'(1) by (simp add: pending_sub_dag_step_def)
  ultimately show ?thesis using run(3,4) by blast
qed

lemma commits_run_Cons:
  assumes ok: "dag_ok ds" "dag_linear ds" and l: "leader_ok ds l" "last_commit_round ds < bh_round l"
    and sd: "sub_dag_for ds l sd commit" "next_commit ds commit" "add_commit ds commit = Some ds1" "dag_ok ds1"
      "header_of ds1 = header_of ds" "last_commit ds1 = Some commit" "commits_to_write ds1 = commits_to_write ds @ [commit]"
    and run: "commits_run ds1 ls sds commits ds2"
  shows "commits_run ds (l # ls) (sd # sds) (commit # commits) ds2"
proof -
  have refs: "header_of ds r \<noteq> None" "last_committed_rounds ds ! br_author r < br_round r"
    "br_round r \<le> last_committed_rounds ds1 ! br_author r" if "r \<in> set (sd_committed_header_refs sd)" for r
    using sub_dag_refs [OF ok l] add_commit_rounds(2) [OF ok(1) sd(2,3)] sd(1) that unfolding sub_dag_for_def by auto
  have later: "header_of ds r \<noteq> None" "last_committed_rounds ds1 ! br_author r < br_round r"
    "last_committed_rounds ds ! br_author r < br_round r" if r: "r \<in> set (concat (map sd_committed_header_refs sds))" for r
  proof -
    show 1: "header_of ds r \<noteq> None" "last_committed_rounds ds1 ! br_author r < br_round r"
      using run r sd(5) unfolding commits_run_def by auto
    have "br_author r < size_of (ds_committee ds)" using 1(1) header_of_cases [OF ok(1)] by (auto simp: members_def)
    with add_commit_rounds(1) [OF ok(1) sd(2,3)] 1(2) show "last_committed_rounds ds ! br_author r < br_round r"
      using le_less_trans by blast
  qed
  have disj: "set (sd_committed_header_refs sd) \<inter> set (concat (map sd_committed_header_refs sds)) = {}"
    using refs(3) later(2) by (meson disjoint_iff not_less)
  have commit: "last_commit_index ds1 = last_commit_index ds + 1" "last_commit_digest ds1 = tcm_digest commit"
    "last_commit_timestamp_ms ds1 = sd_timestamp_ms sd" "last_commit_timestamp_ms ds \<le> sd_timestamp_ms sd"
    "commit_index_of (tcm_inner commit) = last_commit_index ds + 1" "distinct (sd_committed_header_refs sd)"
    "commit_previous_digest (tcm_inner commit) = last_commit_digest ds" "sd_commit_ref sd = tcm_reference commit"
    "sd_leader sd = reference l"
    using sd(1,2,6) by (simp_all add: last_commit_index_def last_commit_digest_def last_commit_timestamp_ms_def
        next_commit_def sub_dag_for_def)
  have rest: "map (commit_index_of \<circ> tcm_inner) commits = [last_commit_index ds1 + 1 ..< last_commit_index ds1 + 1 + length ls]"
    "sorted (last_commit_timestamp_ms ds1 # map sd_timestamp_ms sds)" "distinct (concat (map sd_committed_header_refs sds))"
    "digest_chain (last_commit_digest ds1) commits" "map sd_leader sds = map reference ls"
    "map sd_commit_ref sds = map tcm_reference commits" "commits_to_write ds2 = commits_to_write ds1 @ commits"
    using run unfolding commits_run_def by simp_all
  have "map (commit_index_of \<circ> tcm_inner) (commit # commits) =
      [last_commit_index ds + 1 ..< last_commit_index ds + 1 + length (l # ls)]"
    using rest(1) commit(1,5) by (simp add: upt_conv_Cons del: upt_Suc)
  moreover have "sorted (last_commit_timestamp_ms ds # map sd_timestamp_ms (sd # sds))"
    using rest(2) commit(3,4) by force
  moreover have "\<forall>r \<in> set (concat (map sd_committed_header_refs (sd # sds))).
      header_of ds r \<noteq> None \<and> last_committed_rounds ds ! br_author r < br_round r"
  proof
    fix r assume "r \<in> set (concat (map sd_committed_header_refs (sd # sds)))"
    then have "r \<in> set (sd_committed_header_refs sd) \<or> r \<in> set (concat (map sd_committed_header_refs sds))" by simp
    with refs(1,2) later(1,3) show "header_of ds r \<noteq> None \<and> last_committed_rounds ds ! br_author r < br_round r" by blast
  qed
  ultimately show ?thesis using rest(3-7) commit disj sd(7) unfolding commits_run_def by simp
qed

lemma pending_steps_run:
  assumes "dag_ok ds" "dag_linear ds" "lz_ok lz ds" "flags_ok (ds_ctx ds)" "\<forall>l \<in> set leaders. leader_ok ds l"
    "sorted_wrt (<) (last_commit_round ds # map bh_round leaders)"
  shows "\<exists>sds commits lz' ds'.
    foldM (pending_sub_dag_step digest_of scores) (sds0, lz, ds) (List.enumerate n leaders) = Some (sds0 @ sds, lz', ds') \<and>
    commits_run ds leaders sds commits ds' \<and> dag_ok ds' \<and> header_of ds' = header_of ds \<and> ds_ctx ds' = ds_ctx ds \<and> lz_ok lz' ds'"
  using assms
proof (induction leaders arbitrary: ds lz sds0 n)
  case Nil
  then show ?case
    by (intro exI [of _ "[] :: pending_sub_dag list"] exI [of _ "[] :: trusted_commit list"] exI [of _ lz] exI [of _ ds])
      (simp add: commits_run_def)
next
  case (Cons l ls)
  have l: "leader_ok ds l" "last_commit_round ds < bh_round l" using Cons.prems by auto
  from pending_step_run [OF Cons.prems(1-4) l, of digest_of scores sds0 n] obtain sd commit lz1 ds1 where
    step: "pending_sub_dag_step digest_of scores (sds0, lz, ds) (n, l) = Some (sds0 @ [sd], lz1, ds1)"
    and sd: "sub_dag_for ds l sd commit" "next_commit ds commit" "add_commit ds commit = Some ds1" "dag_ok ds1"
      "header_of ds1 = header_of ds" "last_commit ds1 = Some commit" "commits_to_write ds1 = commits_to_write ds @ [commit]"
    and ctx: "ds_ctx ds1 = ds_ctx ds" "lz_ok lz1 ds1"
    by (elim exE conjE) (rule that; assumption)
  have same: "dag_linear ds1" "flags_ok (ds_ctx ds1)" "\<forall>l \<in> set ls. leader_ok ds1 l"
    using Cons.prems(2,4,5) sd(5) ctx(1) by (simp_all add: dag_linear_def leader_ok_def)
  have "last_commit_round ds1 = bh_round l"
    using sd(1,6) by (simp add: last_commit_round_def commit_round_def sub_dag_for_def)
  with Cons.prems(6) have "sorted_wrt (<) (last_commit_round ds1 # map bh_round ls)" by simp
  from Cons.IH [OF sd(4) same(1) ctx(2) same(2,3) this, of "sds0 @ [sd]" "Suc n"] obtain sds commits lz2 ds2 where
    run: "foldM (pending_sub_dag_step digest_of scores) (sds0 @ [sd], lz1, ds1) (List.enumerate (Suc n) ls) =
        Some ((sds0 @ [sd]) @ sds, lz2, ds2)" "commits_run ds1 ls sds commits ds2"
      "dag_ok ds2" "header_of ds2 = header_of ds1" "ds_ctx ds2 = ds_ctx ds1" "lz_ok lz2 ds2"
    by (elim exE conjE) (rule that; assumption)
  note commits_run_Cons [OF Cons.prems(1,2) l sd run(2)]
  with step run sd(5) ctx(1) show ?case
    by (intro exI [of _ "sd # sds"] exI [of _ "commit # commits"] exI [of _ lz2] exI [of _ ds2]) simp
qed

subsection \<open>Properties\<close>

text \<open>C6: \<open>Linearizer::linearize_sub_dag\<close> always terminates without a panic and returns, each once and
  ordered by round and author, exactly the headers that the leader reaches through headers above their
  authors' last committed rounds and not below the depth limit under the leader.\<close>

theorem linearize_sub_dag_correct:
  assumes "dag_ok ds" "dag_linear ds" "header_of ds (reference leader) = Some leader"
  shows "\<exists>hs. linearize_sub_dag (get_verified_block_headers ds) leader (last_committed_rounds ds) depth = Some hs \<and>
    distinct (map reference hs) \<and>
    reference ` set hs = fresh_refs (header_of ds) (last_committed_rounds ds) (bh_round leader - depth) (reference leader) \<and>
    sorted (map (\<lambda>h. (bh_round h, bh_author h)) hs)"
proof -
  have "wf_dag (header_of ds)" "linear_dag (length (last_committed_rounds ds)) (header_of ds)"
    using assms(2) dag_ok_rounds [OF assms(1)] by (simp_all add: dag_linear_def rounds_ok_def)
  from linearize_sub_dag_run [OF this assms(3), of depth] show ?thesis unfolding get_headers_map by blast
qed

text \<open>C10: The timestamp of a commit lies between timestamps that honest authorities put into parents of the
  leader, unless the previous commit is later, whose timestamp is then kept.\<close>

theorem commit_timestamp_honest:
  assumes "dag_ok ds" "dag_linear ds" "leader_ok ds leader"
    and "stake_sum (ds_committee ds) (members (ds_committee ds) - honest) < validity_threshold (ds_committee ds)"
  shows "\<exists>m. calculate_commit_timestamp (ds_committee ds) (get_verified_block_headers ds) leader last_ts = Some (max m last_ts) \<and>
    (\<exists>r \<in> set (parent_refs leader). \<exists>h. header_of ds r = Some h \<and> br_author r \<in> honest \<and> bh_timestamp_ms h \<le> m) \<and>
    (\<exists>r \<in> set (parent_refs leader). \<exists>h. header_of ds r = Some h \<and> br_author r \<in> honest \<and> m \<le> bh_timestamp_ms h)"
  using commit_timestamp_run [OF dag_member [OF assms(1,2)] _ _ _ assms(4)] assms(2,3)
  unfolding get_headers_map dag_linear_def leader_ok_def by blast

text \<open>C9: Over any run of commits of increasing leader rounds and of evictions of the acknowledgment tracker, no
  transaction batch is committed twice.\<close>

theorem transactions_committed_once:
  "ack_run ctx lz r committed \<Longrightarrow> distinct committed"
  using ack_run_invariant unfolding ack_run_inv_def by blast

text \<open>C4: \<open>Linearizer::get_pending_sub_dags\<close> turns a sequence of leaders of increasing rounds above the last commit
  into commits without a panic: consecutive indices, each commit naming the digest of the previous one,
  timestamps that never decrease, no header committed twice or again; the DAG keeps its invariant and headers.\<close>

theorem get_pending_sub_dags_correct:
  assumes "dag_ok ds" "dag_linear ds" "lz_ok lz ds" "flags_ok (ds_ctx ds)" "\<forall>l \<in> set leaders. leader_ok ds l"
    and "sorted_wrt (<) (last_commit_round ds # map bh_round leaders)"
  shows "\<exists>sds commits lz' ds'. get_pending_sub_dags digest_of ls lz ds leaders = Some (sds, lz', ds') \<and>
    commits_run ds leaders sds commits ds' \<and> dag_ok ds' \<and> header_of ds' = header_of ds \<and> lz_ok lz' ds'"
proof (cases "leaders = []")
  case True
  with assms(1,3) show ?thesis
    by (intro exI [of _ "[] :: pending_sub_dag list"] exI [of _ "[] :: trusted_commit list"] exI [of _ lz] exI [of _ ds])
      (simp add: get_pending_sub_dags_def commits_run_def)
next
  case False
  with pending_steps_run [OF assms, of digest_of _ "[]" 0] show ?thesis by (simp add: get_pending_sub_dags_def) blast
qed

subsection \<open>Witnesses\<close>

lemma sync_linear:
  assumes "ds_ctx ds = sync_context 4" "header_of ds = sync_dag 4 (up_to R)"
  shows "dag_linear ds" "0 < r \<Longrightarrow> r \<le> R \<Longrightarrow> a < 4 \<Longrightarrow> leader_ok ds (sync_header 4 r a)"
proof -
  have c: "ctx_committee (ds_ctx ds) = example_committee 4" by (simp add: assms(1) sync_context_def example_context_def)
  have n: "size_of (example_committee 4) = 4" by (simp add: size_of_def example_committee_def)
  show "dag_linear ds"
    unfolding dag_linear_def assms(2) c n using sync_wf_dag
    by (auto simp: linear_dag_def sync_dag_Some comp_def own_first_facts split: if_splits)
  assume r: "0 < r" "r \<le> R" "a < 4"
  have "parent_refs (sync_header 4 r a) = map (sync_ref (r - 1)) (own_first 4 a)"
    using r by (simp add: parent_refs_def prev_round_def filter_id_conv)
  then have "br_author ` set (parent_refs (sync_header 4 r a)) = {..<4}" using r by (auto simp: image_image own_first_facts)
  then have "parents_quorum (example_committee 4) (sync_header 4 r a)"
    by (simp add: parents_quorum_def example_committee_stake reached_quorum_def) (simp add: example_committee_def)
  with r show "leader_ok ds (sync_header 4 r a)" by (simp add: leader_ok_def c assms(2) sync_dag_Some up_to_def)
qed

theorem linearize_sub_dag_witness:
  "\<exists>ds hs. sync_state 4 3 = Some ds \<and>
    linearize_sub_dag (get_verified_block_headers ds) (sync_header 4 2 1) (last_committed_rounds ds) 3 = Some hs \<and>
    sync_ref 1 2 \<in> reference ` set hs"
proof -
  from sync_state_run [of 4 3] obtain ds where ds: "sync_state 4 3 = Some ds" "dag_ok ds" "ds_ctx ds = sync_context 4"
    "header_of ds = sync_dag 4 (up_to 3)" "last_commit ds = None" by (auto simp: u32_max_def)
  have l: "header_of ds (reference (sync_header 4 2 1)) = Some (sync_header 4 2 1)" by (simp add: ds(4) sync_dag_Some up_to_def)
  have "last_committed_rounds ds ! 2 \<le> last_commit_round ds"
    using committed_below_leader [OF ds(2)] ds(3) by (simp add: members_def sync_context_def example_context_def
        size_of_def example_committee_def)
  then have u: "uncommitted (last_committed_rounds ds) 0 (sync_ref 1 2)" using ds(5) by (simp add: uncommitted_def last_commit_round_def)
  have "sync_ref 1 2 \<in> fresh_refs (header_of ds) (last_committed_rounds ds) 0 (reference (sync_header 4 2 1))"
  proof (rule fresh_step)
    show "reference (sync_header 4 2 1) \<in> fresh_refs (header_of ds) (last_committed_rounds ds) 0 (reference (sync_header 4 2 1))"
      by (rule fresh_leader)
    show "ancestors (sync_header 4 2 1) = Some (map (sync_ref 1) (own_first 4 1))" by simp
  qed (use l u in \<open>auto simp: own_first_facts\<close>)
  with linearize_sub_dag_correct [OF ds(2) sync_linear(1) [OF ds(3,4)] l, of 3] ds(1) show ?thesis by auto
qed

theorem commit_timestamp_witness:
  "\<exists>ds m. sync_state 4 3 = Some ds \<and>
    calculate_commit_timestamp (ds_committee ds) (get_verified_block_headers ds) (sync_header 4 2 1) 7 = Some (max m 7) \<and> m = 1"
proof -
  from sync_state_run [of 4 3] obtain ds where ds: "sync_state 4 3 = Some ds" "dag_ok ds" "ds_ctx ds = sync_context 4"
    "header_of ds = sync_dag 4 (up_to 3)" by (auto simp: u32_max_def)
  have "leader_ok ds (sync_header 4 2 1)" by (rule sync_linear(2) [OF ds(3,4)]) simp_all
  moreover have "stake_sum (ds_committee ds) (members (ds_committee ds) - members (ds_committee ds)) < validity_threshold (ds_committee ds)"
    using validity_positive [OF dag_ok_committee [OF ds(2)]] by (simp add: stake_sum_def)
  ultimately obtain m where m:
    "calculate_commit_timestamp (ds_committee ds) (get_verified_block_headers ds) (sync_header 4 2 1) 7 = Some (max m 7)"
    "\<exists>r \<in> set (parent_refs (sync_header 4 2 1)). \<exists>h. header_of ds r = Some h \<and> bh_timestamp_ms h \<le> m"
    "\<exists>r \<in> set (parent_refs (sync_header 4 2 1)). \<exists>h. header_of ds r = Some h \<and> m \<le> bh_timestamp_ms h"
    using commit_timestamp_honest [OF ds(2) sync_linear(1) [OF ds(3,4)], of "sync_header 4 2 1" "members (ds_committee ds)" 7] by blast
  have "bh_timestamp_ms (sync_header 4 r a) = r" for r a by simp
  then have "m = 1" using m(2,3) ds(4) by (auto simp: parent_refs_def prev_round_def sync_dag_Some own_first_facts)
  with m(1) ds(1) show ?thesis by blast
qed

definition acking_header :: "authority_index \<Rightarrow> verified_block_header" where
  "acking_header a = (example_header 2 a (of_nat a) [sync_ref 1 1])\<lparr> overlap_start_index := 0 \<rparr>"

lemma acking_header_simps: "acknowledgments (acking_header a) = Some [sync_ref 1 1]" "bh_round (acking_header a) = 2"
  "bh_author (acking_header a) = a"
  by (simp_all add: acking_header_def acknowledgments_def example_header_def)

definition acked :: "block_ref list \<Rightarrow> authority_index list \<Rightarrow> linearizer" where
  "acked trav vs = (linearizer_new (sync_context 4))\<lparr> traversed_headers_tracker := trav,
     transactions_ack_tracker := (if vs = [] then [] else [(sync_ref 1 1, \<lparr> sa_votes = vs, sa_stake = length vs \<rparr>)]) \<rparr>"

lemma acking_step:
  assumes "sync_ref 1 1 \<in> set trav" "a < 4" "length vs < 4" "sorted vs" "\<forall>v \<in> set vs. v < a"
  shows "add_committed_transaction_acks (acked trav vs) 2 a [sync_ref 1 1] =
    Some (acked trav (vs @ [a]), if length vs = 2 then [sync_ref 1 1] else [])"
proof -
  have c: "ctx_committee (sync_context 4) = example_committee 4" "gc_depth (sync_context 4) = 3"
    "consensus_commit_transactions_only_for_traversed_headers (sync_context 4)"
    by (simp_all add: sync_context_def example_context_def)
  have q: "quorum_threshold (example_committee 4) = 3" "stake_at (example_committee 4) a = Some 1"
    using assms(2) by (simp_all add: example_committee_def stake_at_def authority_at_def vec_get_def)
  have ins: "bs_insert a vs = vs @ [a]" using assms(5) by (induction vs) auto
  have "a \<notin> set vs" using assms(5) by blast
  with assms ins show ?thesis
    by (auto simp: add_committed_transaction_acks_def add_ack_def Let_def acked_def linearizer_new_def c
        sa_new_def sa_add_def sa_reached_threshold_def q reached_quorum_def wrap_u64_def bm_get_def)
qed

lemma acking_run:
  "\<exists>lz. collect_acks (record_traversed_headers (linearizer_new (sync_context 4)) [sync_header 4 1 1, acking_header 0, acking_header 1,
      acking_header 2, acking_header 3]) [sync_header 4 1 1, acking_header 0, acking_header 1, acking_header 2, acking_header 3] =
    Some (lz, [sync_ref 1 1])"
proof -
  let ?lz = "record_traversed_headers (linearizer_new (sync_context 4))
    [sync_header 4 1 1, acking_header 0, acking_header 1, acking_header 2, acking_header 3]"
  have "sync_ref 1 1 \<in> set (traversed_headers_tracker ?lz)"
    by (simp add: set_record_traversed linearizer_new_def sync_context_def example_context_def)
  moreover have "?lz = acked (traversed_headers_tracker ?lz) []"
    by (simp add: acked_def linearizer_new_def record_traversed_headers_def)
  ultimately obtain trav where trav: "sync_ref 1 1 \<in> set trav" and lz: "?lz = acked trav []" by blast
  show ?thesis
    unfolding collect_acks_def lz
    by (simp add: acking_header_simps acking_step [OF trav] add_committed_transaction_acks_def [of _ _ _ "[]"] del: One_nat_def)
qed

theorem transactions_committed_witness:
  "\<exists>lz. ack_run (sync_context 4) lz 2 [sync_ref 1 1] \<and> distinct [sync_ref 1 1]"
proof -
  let ?hs = "[sync_header 4 1 1, acking_header 0, acking_header 1, acking_header 2, acking_header 3]"
  from acking_run obtain lz where
    lz: "collect_acks (record_traversed_headers (linearizer_new (sync_context 4)) ?hs) ?hs = Some (lz, [sync_ref 1 1])" by blast
  have c: "ctx_committee (sync_context 4) = example_committee 4" by (simp add: sync_context_def example_context_def)
  have "committee_ok (ctx_committee (sync_context 4))" by (simp add: c example_committee_ok)
  then have init: "ack_run (sync_context 4) (linearizer_new (sync_context 4)) 0 []" by (rule run_init)
  have hs: "\<forall>h \<in> set ?hs. 2 - gc_depth (sync_context 4) \<le> bh_round h \<and> bh_author h \<in> members (ctx_committee (sync_context 4)) \<and>
       (\<exists>acks. acknowledgments h = Some acks \<and> (\<forall>a \<in> set acks. 0 < br_round a))"
    unfolding c by (simp add: acking_header_simps members_def size_of_def example_committee_def)
      (simp add: sync_context_def example_context_def)
  from run_commit [OF init _ hs lz] have "ack_run (sync_context 4) lz 2 [sync_ref 1 1]" by simp
  from this transactions_committed_once [OF this] show ?thesis by blast
qed

theorem get_pending_sub_dags_witness:
  "\<exists>ds sds lz' ds'. sync_state 4 3 = Some ds \<and>
    get_pending_sub_dags (\<lambda>_. 5) (example_schedule (example_committee 4) [1, 2, 3, 4]) (linearizer_new (sync_context 4)) ds [sync_header 4 1 1, sync_header 4 2 2] =
      Some (sds, lz', ds') \<and> length sds = 2 \<and> distinct (concat (map sd_committed_header_refs sds))"
proof -
  from sync_state_run [of 4 3] obtain ds where ds: "sync_state 4 3 = Some ds" "dag_ok ds" "ds_ctx ds = sync_context 4"
    "header_of ds = sync_dag 4 (up_to 3)" "last_commit ds = None" by (auto simp: u32_max_def)
  have lz: "lz_ok (linearizer_new (sync_context 4)) ds"
    using dag_ok_committee [OF ds(2)] ds(3) by (simp add: lz_ok_def linearizer_new_def acks_ok_def)
  have flags: "flags_ok (ds_ctx ds)" by (simp add: ds(3) flags_ok_def sync_context_def example_context_def)
  have leaders: "\<forall>l \<in> set [sync_header 4 1 1, sync_header 4 2 2]. leader_ok ds l" using sync_linear(2) [OF ds(3,4)] by simp
  have "sorted_wrt (<) (last_commit_round ds # map bh_round [sync_header 4 1 1, sync_header 4 2 2])"
    by (simp add: last_commit_round_def ds(5))
  from get_pending_sub_dags_correct [OF ds(2) sync_linear(1) [OF ds(3,4)] lz flags leaders this, of "\<lambda>_. 5" "example_schedule (example_committee 4) [1, 2, 3, 4]"]
  obtain sds commits lz' ds' where
    run: "get_pending_sub_dags (\<lambda>_. 5) (example_schedule (example_committee 4) [1, 2, 3, 4]) (linearizer_new (sync_context 4)) ds [sync_header 4 1 1, sync_header 4 2 2] =
      Some (sds, lz', ds')" "commits_run ds [sync_header 4 1 1, sync_header 4 2 2] sds commits ds'" by blast
  from run(2) have "length sds = 2" "distinct (concat (map sd_committed_header_refs sds))"
    unfolding commits_run_def by (auto dest: arg_cong [where f = length])
  with run(1) ds(1) show ?thesis by blast
qed

end
