(* ===== verification/Block_Verifier.thy ===== *)
theory Block_Verifier
  imports Consensus_Error Linearizer_Commits
begin

section \<open>The block verifier\<close>

text \<open>
  \<open>crates/starfish/core/src/block_verifier.rs\<close> with the signature check of \<open>block_header.rs\<close>:
  the checks a header or a batch of transactions from the network has to pass. The operations of
  the cryptographic and serialisation libraries are the fields of \<open>crypto_api\<close>, the verifier of
  the application for transactions is a function. Main results: \<open>verify\<close> accepts exactly the
  headers that satisfy \<open>valid_header\<close>; a DAG of accepted headers satisfies the hypotheses of
  the commit rule's safety and of the linearizer; two indices that \<open>verify\<close> does not check lead
  to panics.
\<close>

record signed_block_header = block_header +
  sbh_signature :: "8 word list"

text \<open>The digest of the header wrapped into an intent message and serialised, the parser of
  signatures and the check of a signature with the key of an authority.\<close>

record crypto_api =
  intent_message :: "block_header \<Rightarrow> string + 8 word list"
  parse_signature :: "8 word list \<Rightarrow> string + 8 word list"
  check_signature :: "authority \<Rightarrow> 8 word list \<Rightarrow> 8 word list \<Rightarrow> string + unit"

definition verify_block_header_signature ::
  "crypto_api \<Rightarrow> block_header \<Rightarrow> 8 word list \<Rightarrow> authority \<Rightarrow> unit consensus_result" where
  "verify_block_header_signature api h sig authority =
     (case intent_message api h of
        Inl e \<Rightarrow> Inl (SerializationFailure e)
      | Inr message \<Rightarrow> (case parse_signature api sig of
          Inl e \<Rightarrow> Inl (MalformedSignature e)
        | Inr s \<Rightarrow> (case check_signature api authority message s of
            Inl e \<Rightarrow> Inl (SignatureVerificationFailure e)
          | Inr _ \<Rightarrow> Inr ())))"

definition verify_signature ::
  "crypto_api \<Rightarrow> consensus_context \<Rightarrow> signed_block_header \<Rightarrow> unit consensus_result option" where
  "verify_signature api ctx b =
     bind_result (Some (quick_validation_authority_indices (ctx_committee ctx) [bh_author b])) (\<lambda>_. do {
       authority \<leftarrow> authority_at (ctx_committee ctx) (bh_author b);
       Some (verify_block_header_signature api (block_header.truncate b) (sbh_signature b) authority) })"

record signed_block_verifier =
  bv_context :: consensus_context
  bv_genesis :: "block_ref btreeset"
  verify_batch :: "transaction list \<Rightarrow> string + unit"

definition signed_block_verifier_new ::
  "(block_header \<Rightarrow> digest) \<Rightarrow> consensus_context \<Rightarrow> (transaction list \<Rightarrow> string + unit) \<Rightarrow> signed_block_verifier" where
  "signed_block_verifier_new digest_of ctx verifier =
     \<lparr> bv_context = ctx, bv_genesis = bs_from_list (map reference (genesis_block_headers digest_of ctx)),
       verify_batch = verifier \<rparr>"

primrec check_transaction_sizes :: "nat \<Rightarrow> transaction list \<Rightarrow> unit consensus_result" where
  "check_transaction_sizes limit [] = Inr ()"
| "check_transaction_sizes limit (t # ts) =
     (if limit < length t \<and> 0 < limit then Inl (TransactionTooLarge (length t) limit)
      else check_transaction_sizes limit ts)"

definition check_transactions :: "signed_block_verifier \<Rightarrow> transaction list \<Rightarrow> unit consensus_result" where
  "check_transactions v batch =
     (let ctx = bv_context v; count_limit = max_num_transactions_in_block ctx;
          total_limit = max_transactions_in_block_bytes ctx
      in case check_transaction_sizes (max_transaction_size_bytes ctx) batch of
           Inl e \<Rightarrow> Inl e
         | Inr _ \<Rightarrow>
             if count_limit < length batch \<and> 0 < count_limit then Inl (TooManyTransactions (length batch) count_limit)
             else if total_limit < sum_list (map length batch) \<and> 0 < total_limit
             then Inl (TooManyTransactionBytes (length batch) total_limit)
             else Inr ())"

definition check_and_verify_transactions :: "signed_block_verifier \<Rightarrow> transaction list \<Rightarrow> unit consensus_result" where
  "check_and_verify_transactions v transactions =
     (case check_transactions v transactions of
        Inl e \<Rightarrow> Inl e
      | Inr _ \<Rightarrow> (case verify_batch v transactions of Inl e \<Rightarrow> Inl (InvalidTransaction e) | Inr _ \<Rightarrow> Inr ()))"

text \<open>
  The loop over the ancestors with the position, the flags of the authors seen and the stake of
  the parents so far. As in the code the quick validation at its start looks at the author of
  the block, and the indexing with the author of the ancestor panics when it is out of range.
\<close>

primrec verify_ancestors ::
  "signed_block_verifier \<Rightarrow> 'a block_header_scheme \<Rightarrow> nat \<Rightarrow> bool list \<Rightarrow> stake \<Rightarrow> block_ref list
     \<Rightarrow> stake consensus_result option"
where
  "verify_ancestors v b i seen stakes [] = Some (Inr stakes)"
| "verify_ancestors v b i seen stakes (a # as) =
     (let c = ctx_committee (bv_context v) in
      bind_result (Some (quick_validation_authority_indices c [bh_author b])) (\<lambda>_.
        if i = 0 \<and> br_author a \<noteq> bh_author b \<or> 0 < i \<and> br_author a = bh_author b
        then Some (Inl (InvalidAncestorPosition (bh_author b) (br_author a) i))
        else if bh_round b \<le> br_round a then Some (Inl (InvalidAncestorRound (br_round a) (bh_round b)))
        else if br_round a = GENESIS_ROUND \<and> a \<notin> set (bv_genesis v) then Some (Inl (InvalidGenesisAncestor a))
        else do {
          dup \<leftarrow> vec_get seen (br_author a);
          if dup then Some (Inl (DuplicatedAncestorsAuthority (br_author a)))
          else do {
            seen' \<leftarrow> vec_set seen (br_author a) True;
            parent \<leftarrow> (if bh_round b = 0 then None else Some (bh_round b - 1));
            stakes' \<leftarrow> (if br_round a = parent
              then do { s \<leftarrow> stake_at c (br_author a); Some (wrap_u64 (stakes + s)) } else Some stakes);
            verify_ancestors v b (i + 1) seen' stakes' as } }))"

definition verify :: "crypto_api \<Rightarrow> signed_block_verifier \<Rightarrow> signed_block_header \<Rightarrow> unit consensus_result option" where
  "verify api v b =
     (let c = ctx_committee (bv_context v) in
      if bh_epoch b \<noteq> committee_epoch c then Some (Inl (WrongEpoch (committee_epoch c) (bh_epoch b)))
      else if bh_round b = 0 then Some (Inl UnexpectedGenesisHeader)
      else bind_result (Some (quick_validation_authority_indices c [bh_author b])) (\<lambda>_.
        bind_result (verify_signature api (bv_context v) b) (\<lambda>_. do {
          ancs \<leftarrow> ancestors b;
          if size_of c < length ancs then Some (Inl (TooManyAncestors (length ancs) (size_of c)))
          else if ancs = [] then Some (Inl (InsufficientParentStakes 0 (quorum_threshold c)))
          else bind_result (verify_ancestors v b 0 (replicate (size_of c) False) 0 ancs) (\<lambda>parent_stakes.
            if \<not> reached_quorum c parent_stakes
            then Some (Inl (InsufficientParentStakes parent_stakes (quorum_threshold c)))
            else Some (Inr ())) })))"

subsection \<open>What is accepted\<close>

definition valid_ancestors :: "committee \<Rightarrow> block_ref set \<Rightarrow> 'a block_header_scheme \<Rightarrow> block_ref list \<Rightarrow> bool" where
  "valid_ancestors c genesis b ancs =
     (ancs \<noteq> [] \<and> br_author (hd ancs) = bh_author b \<and> distinct (map br_author ancs) \<and>
      (\<forall>a \<in> set ancs. br_author a \<in> members c \<and> br_round a < bh_round b \<and> (br_round a = 0 \<longrightarrow> a \<in> genesis)) \<and>
      reached_quorum c (stake_sum c (br_author ` {a \<in> set ancs. br_round a + 1 = bh_round b})))"

definition valid_header :: "crypto_api \<Rightarrow> signed_block_verifier \<Rightarrow> signed_block_header \<Rightarrow> bool" where
  "valid_header api v b =
     (let c = ctx_committee (bv_context v) in
      bh_epoch b = committee_epoch c \<and> bh_round b \<noteq> 0 \<and> bh_author b \<in> members c \<and>
      verify_block_header_signature api (block_header.truncate b) (sbh_signature b) (authorities c ! bh_author b) = Inr () \<and>
      (\<exists>ancs. ancestors b = Some ancs \<and> valid_ancestors c (set (bv_genesis v)) b ancs))"

definition seen_flags :: "committee \<Rightarrow> authority_index set \<Rightarrow> bool list" where
  "seen_flags c A = map (\<lambda>i. i \<in> A) [0..<size_of c]"

lemma seen_flags_simps [simp]:
  "vec_get (seen_flags c A) i = (if i \<in> members c then Some (i \<in> A) else None)"
  "vec_set (seen_flags c A) i True = (if i \<in> members c then Some (seen_flags c (insert i A)) else None)"
  by (auto simp: seen_flags_def members_def vec_get_def vec_set_def nth_list_update intro!: nth_equalityI split: if_splits)

lemma seen_flags_empty: "replicate (size_of c) False = seen_flags c {}"
  by (simp add: seen_flags_def map_replicate_const)

lemma stake_sum_fits: "committee_ok c \<Longrightarrow> A \<subseteq> members c \<Longrightarrow> stake_sum c A < 18446744073709551616"
  using stake_sum_le_total [of c A] by (simp add: committee_ok_def)

lemma verify_ancestors_ok:
  assumes c: "committee_ok (ctx_committee (bv_context v))" and b: "bh_author b \<in> members (ctx_committee (bv_context v))"
    "bh_round b \<noteq> 0" and P: "P \<subseteq> A" "A \<subseteq> members (ctx_committee (bv_context v))"
  shows "verify_ancestors v b i (seen_flags (ctx_committee (bv_context v)) A) (stake_sum (ctx_committee (bv_context v)) P) ancs =
      Some (Inr s) \<longleftrightarrow>
    (\<forall>(k, a) \<in> set (List.enumerate i ancs). (k = 0) = (br_author a = bh_author b)) \<and> distinct (map br_author ancs) \<and>
    (\<forall>a \<in> set ancs. br_author a \<in> members (ctx_committee (bv_context v)) \<and> br_author a \<notin> A \<and> br_round a < bh_round b \<and>
       (br_round a = 0 \<longrightarrow> a \<in> set (bv_genesis v))) \<and>
    s = stake_sum (ctx_committee (bv_context v)) (P \<union> br_author ` {a \<in> set ancs. br_round a + 1 = bh_round b})"
  using P
proof (induction ancs arbitrary: i P A)
  case Nil
  then show ?case by auto
next
  case (Cons a as)
  let ?c = "ctx_committee (bv_context v)" and ?ok = "\<lambda>a A. br_author a \<in> members (ctx_committee (bv_context v)) \<and>
    br_author a \<notin> A \<and> br_round a < bh_round b \<and> (br_round a = 0 \<longrightarrow> a \<in> set (bv_genesis v))"
  let ?P = "if br_round a + 1 = bh_round b then insert (br_author a) P else P"
  show ?case
  proof (cases "?ok a A \<and> (i = 0) = (br_author a = bh_author b)")
    case False
    then show ?thesis using b
      by (auto simp: Let_def is_valid_index_def members_def GENESIS_ROUND_def quick_validation_authorities_ok
          split: if_splits option.splits)
  next
    case True
    have sub: "?P \<subseteq> insert (br_author a) A" "insert (br_author a) A \<subseteq> members ?c" using Cons.prems True by auto
    have fin: "finite P" using Cons.prems(1,2) by (auto intro: finite_subset simp: members_def)
    have "br_author a \<notin> P" using True Cons.prems(1) by blast
    then have add: "stake_sum ?c (insert (br_author a) P) = stake_sum ?c P + a_stake (authorities ?c ! br_author a)"
      using fin by (simp add: stake_sum_def)
    moreover have "stake_sum ?c (insert (br_author a) P) < 18446744073709551616"
      by (rule stake_sum_fits [OF c]) (use Cons.prems True in blast)
    ultimately have wrap: "wrap_u64 (stake_sum ?c P + a_stake (authorities ?c ! br_author a)) = stake_sum ?c (insert (br_author a) P)"
      by (simp add: wrap_u64_def)
    have step: "verify_ancestors v b i (seen_flags ?c A) (stake_sum ?c P) (a # as) =
        verify_ancestors v b (i + 1) (seen_flags ?c (insert (br_author a) A)) (stake_sum ?c ?P) as"
      using True b by (auto simp: Let_def is_valid_index_def members_def GENESIS_ROUND_def stake_at_Some wrap)
    have set: "P \<union> br_author ` {x \<in> set (a # as). br_round x + 1 = bh_round b} =
        ?P \<union> br_author ` {x \<in> set as. br_round x + 1 = bh_round b}" by auto
    have rest: "(\<forall>x \<in> set (a # as). ?ok x A) \<and> distinct (map br_author (a # as)) \<longleftrightarrow>
        (\<forall>x \<in> set as. ?ok x (insert (br_author a) A)) \<and> distinct (map br_author as)" using True by (auto simp: image_iff)
    have pos: "(\<forall>(k, x) \<in> set (List.enumerate i (a # as)). (k = 0) = (br_author x = bh_author b)) \<longleftrightarrow>
        (\<forall>(k, x) \<in> set (List.enumerate (i + 1) as). (k = 0) = (br_author x = bh_author b))" using True by simp
    show ?thesis unfolding step Cons.IH [OF sub] set pos using rest by blast
  qed
qed

lemma valid_positions:
  assumes "distinct (map br_author ancs)"
  shows "(\<forall>(k, a) \<in> set (List.enumerate 0 ancs). (k = 0) = (br_author a = x)) \<longleftrightarrow> ancs = [] \<or> br_author (hd ancs) = x"
proof (cases ancs)
  case (Cons a as)
  have "(\<forall>(k, y) \<in> set (List.enumerate (Suc i) as). (k = 0) = (br_author y = x)) \<longleftrightarrow> x \<notin> br_author ` set as" for i
    by (induction as arbitrary: i) auto
  with Cons assms show ?thesis by auto
qed simp

lemma valid_ancestors_short: "valid_ancestors c genesis b ancs \<Longrightarrow> length ancs \<le> size_of c"
proof -
  assume v: "valid_ancestors c genesis b ancs"
  then have "length ancs = card (br_author ` set ancs)" by (metis distinct_card image_set length_map valid_ancestors_def)
  also have "\<dots> \<le> card (members c)" using v by (intro card_mono) (auto simp: valid_ancestors_def members_def)
  finally show ?thesis by (simp add: members_def)
qed

lemma verify_ancestors_valid:
  assumes "committee_ok (ctx_committee (bv_context v))" "bh_author b \<in> members (ctx_committee (bv_context v))" "bh_round b \<noteq> 0"
  shows "length ancs \<le> size_of (ctx_committee (bv_context v)) \<and> ancs \<noteq> [] \<and>
      (\<exists>s. verify_ancestors v b 0 (replicate (size_of (ctx_committee (bv_context v))) False) 0 ancs = Some (Inr s) \<and>
        reached_quorum (ctx_committee (bv_context v)) s) \<longleftrightarrow>
    valid_ancestors (ctx_committee (bv_context v)) (set (bv_genesis v)) b ancs" (is "_ \<longleftrightarrow> ?valid")
proof (cases "ancs = []")
  case False
  let ?c = "ctx_committee (bv_context v)"
  have *: "verify_ancestors v b 0 (replicate (size_of ?c) False) 0 ancs = Some (Inr s) \<longleftrightarrow>
      (\<forall>(k, a) \<in> set (List.enumerate 0 ancs). (k = 0) = (br_author a = bh_author b)) \<and> distinct (map br_author ancs) \<and>
      (\<forall>a \<in> set ancs. br_author a \<in> members ?c \<and> br_round a < bh_round b \<and> (br_round a = 0 \<longrightarrow> a \<in> set (bv_genesis v))) \<and>
      s = stake_sum ?c (br_author ` {a \<in> set ancs. br_round a + 1 = bh_round b})" for s
    using verify_ancestors_ok [OF assms(1), of b "{}" "{}" 0 ancs s] assms(2,3) by (simp add: seen_flags_empty stake_sum_def)
  have "(\<exists>s. verify_ancestors v b 0 (replicate (size_of ?c) False) 0 ancs = Some (Inr s) \<and> reached_quorum ?c s) \<longleftrightarrow> ?valid"
    unfolding * valid_ancestors_def using valid_positions [of ancs "bh_author b"] False
    by (cases "distinct (map br_author ancs)") simp_all
  with valid_ancestors_short [of ?c _ b ancs] False show ?thesis by blast
qed (simp add: valid_ancestors_def)

lemma verify_valid:
  assumes "committee_ok (ctx_committee (bv_context v))"
  shows "verify api v b = Some (Inr ()) \<longleftrightarrow> valid_header api v b"
proof (cases "bh_epoch b = committee_epoch (ctx_committee (bv_context v)) \<and> bh_round b \<noteq> 0 \<and>
    bh_author b \<in> members (ctx_committee (bv_context v))")
  case False
  then show ?thesis
    by (auto simp: verify_def valid_header_def Let_def quick_validation_authorities_ok is_valid_index_def members_def)
next
  case True
  let ?c = "ctx_committee (bv_context v)"
  let ?sig = "verify_block_header_signature api (block_header.truncate b) (sbh_signature b) (authorities ?c ! bh_author b)"
  have sig: "verify_signature api (bv_context v) b = Some ?sig"
    using True by (simp add: verify_signature_def is_valid_index_def members_def authority_at_def size_of_def)
  have q: "quick_validation_authority_indices ?c [bh_author b] = Inr ()" using True by (simp add: is_valid_index_def members_def)
  have "verify api v b = Some (Inr ()) \<longleftrightarrow> ?sig = Inr () \<and> (\<exists>ancs. ancestors b = Some ancs \<and>
      length ancs \<le> size_of ?c \<and> ancs \<noteq> [] \<and>
      (\<exists>s. verify_ancestors v b 0 (replicate (size_of ?c) False) 0 ancs = Some (Inr s) \<and> reached_quorum ?c s))"
    unfolding verify_def Let_def sig q using True
    by (cases ?sig; cases "ancestors b") (simp_all add: bind_result_ok not_less, blast)
  with True show ?thesis unfolding valid_header_def Let_def verify_ancestors_valid [OF assms conjunct2 [OF conjunct2 [OF True]]
      conjunct1 [OF conjunct2 [OF True]]] by simp
qed

text \<open>The hash of a header is verified with some signature; the DAG keeps only the digest.\<close>

definition with_signature :: "verified_block_header \<Rightarrow> 8 word list \<Rightarrow> signed_block_header" where
  "with_signature h sig = block_header.extend (block_header.truncate h) (signed_block_header.fields sig)"

lemma with_signature_simps [simp]:
  "bh_epoch (with_signature h sig) = bh_epoch h" "bh_round (with_signature h sig) = bh_round h" "bh_author (with_signature h sig) = bh_author h"
  "ancestors (with_signature h sig) = ancestors h" "sbh_signature (with_signature h sig) = sig"
  "block_header.truncate (with_signature h sig) = block_header.truncate h"
  by (simp_all add: with_signature_def block_header.defs signed_block_header.defs ancestors_def)

text \<open>Every header of the DAG is one of the genesis headers or has passed \<open>verify\<close>.\<close>

definition verified_dag :: "crypto_api \<Rightarrow> signed_block_verifier \<Rightarrow> (block_ref \<Rightarrow> verified_block_header option) \<Rightarrow> bool" where
  "verified_dag api v G = (\<forall>r h. G r = Some h \<longrightarrow>
     (if br_round r = 0 then r \<in> set (bv_genesis v) else \<exists>sig. verify api v (with_signature h sig) = Some (Inr ())))"

lemma verified_dag_valid:
  assumes "committee_ok (ctx_committee (bv_context v))" "verified_dag api v G" "wf_dag G" "G r = Some h" "br_round r \<noteq> 0"
  shows "bh_author h \<in> members (ctx_committee (bv_context v))"
    "\<exists>ancs. ancestors h = Some ancs \<and> valid_ancestors (ctx_committee (bv_context v)) (set (bv_genesis v)) h ancs"
proof -
  obtain sig where "verify api v (with_signature h sig) = Some (Inr ())" 
    using assms(2) [unfolded verified_dag_def, rule_format, OF assms(4)] assms(5) by auto
  then show "bh_author h \<in> members (ctx_committee (bv_context v))"
    "\<exists>ancs. ancestors h = Some ancs \<and> valid_ancestors (ctx_committee (bv_context v)) (set (bv_genesis v)) h ancs"
    unfolding verify_valid [OF assms(1)] by (auto simp: valid_header_def valid_ancestors_def Let_def)
qed

lemma verifier_genesis:
  assumes "committee_ok (ctx_committee ctx)" "r \<in> set (bv_genesis (signed_block_verifier_new digest_of ctx verifier))"
  shows "br_author r \<in> members (ctx_committee ctx)"
proof -
  obtain a x where a: "(a, x) \<in> set (authorities_enum (ctx_committee ctx))" "br_author r = a"
    using assms(2) by (auto simp: signed_block_verifier_new_def genesis_block_headers_def new_verified_def genesis_block_header_def
        block_header.defs verified_block_header.defs)
  have "set (map fst (authorities_enum (ctx_committee ctx))) = {0..<size_of (ctx_committee ctx)}"
    using authorities_enum_indices [OF assms(1)] by simp
  moreover have "br_author r \<in> set (map fst (authorities_enum (ctx_committee ctx)))" using a by force
  ultimately show ?thesis by (auto simp: members_def)
qed

lemma verified_dag_members:
  assumes c: "committee_ok (ctx_committee ctx)" and v: "v = signed_block_verifier_new digest_of ctx verifier"
    and G: "verified_dag api v G" "wf_dag G" "G r = Some h"
  shows "br_author r \<in> members (ctx_committee ctx)"
proof (cases "br_round r = 0")
  case True
  then have "r \<in> set (bv_genesis v)" using G(1) [unfolded verified_dag_def, rule_format, OF G(3)] by simp
  with verifier_genesis [OF c] v show ?thesis by blast
next
  case False
  have ctx: "bv_context v = ctx" by (simp add: v signed_block_verifier_new_def)
  from verified_dag_valid(1) [of v, unfolded ctx, OF c G False] wf_dag_reference [OF G(2,3)] show ?thesis
    by (metis reference_simps(2))
qed

text \<open>
  C8: \<open>SignedBlockVerifier::verify\<close> accepts a header exactly when it belongs to the epoch, is not
  from genesis, has a committee member as author and a valid signature, and its ancestors start
  with one of the author, come from distinct members and lower rounds, are genuine where
  they are genesis blocks, and include a quorum of the previous round.
\<close>

theorem verify_accepts_exactly:
  assumes "committee_ok (ctx_committee (bv_context v))"
  shows "verify api v b = Some (Inr ()) \<longleftrightarrow>
    (let c = ctx_committee (bv_context v) in
      bh_epoch b = committee_epoch c \<and> bh_round b \<noteq> 0 \<and> bh_author b \<in> members c \<and>
      verify_block_header_signature api (block_header.truncate b) (sbh_signature b) (authorities c ! bh_author b) = Inr () \<and>
      (\<exists>ancs. ancestors b = Some ancs \<and> ancs \<noteq> [] \<and> br_author (hd ancs) = bh_author b \<and> distinct (map br_author ancs) \<and>
        (\<forall>a \<in> set ancs. br_author a \<in> members c \<and> br_round a < bh_round b \<and> (br_round a = 0 \<longrightarrow> a \<in> set (bv_genesis v))) \<and>
        reached_quorum c (stake_sum c (br_author ` {a \<in> set ancs. br_round a + 1 = bh_round b}))))"
  using verify_valid [OF assms] unfolding valid_header_def valid_ancestors_def .

text \<open>
  C7: the checks of the verifier establish what the commit rule relies on: a causally complete DAG of
  genesis headers and accepted headers, in which honest authorities do not equivocate and hold more than
  two thirds of the stake, is a DAG of the safety theorems, with distinct authors among the ancestors and a
  quorum of parents under every leader. They do not establish all that the linearizer relies on: a state
  that holds such a DAG satisfies \<open>dag_linear\<close> exactly when the acknowledgments of every header can be
  read, which \<open>verify\<close> does not check.
\<close>

theorem verified_dag_safe:
  assumes "committee_ok (ctx_committee ctx)" "v = signed_block_verifier_new digest_of ctx verifier"
    and "wf_dag G" "verified_dag api v G"
    and "honest \<subseteq> members (ctx_committee ctx)"
    and "stake_sum (ctx_committee ctx) (members (ctx_committee ctx) - honest) < validity_threshold (ctx_committee ctx)"
    and "\<forall>r r'. G r \<noteq> None \<and> G r' \<noteq> None \<and> br_author r = br_author r' \<and> br_author r \<in> honest \<and> br_round r = br_round r' \<longrightarrow> r = r'"
  shows "bft_dag (ctx_committee ctx) honest G \<and> linear_dag (size_of (ctx_committee ctx)) G \<and>
    (\<forall>l. G (reference l) = Some l \<and> 0 < bh_round l \<longrightarrow> parents_quorum (ctx_committee ctx) l) \<and>
    (\<forall>ds. header_of ds = G \<and> ds_ctx ds = ctx \<longrightarrow> (dag_linear ds \<longleftrightarrow> (\<forall>r h. G r = Some h \<longrightarrow> acknowledgments h \<noteq> None)))"
proof -
  let ?c = "ctx_committee ctx"
  have ctx: "bv_context v = ctx" by (simp add: assms(2) signed_block_verifier_new_def)
  note valid = verified_dag_valid(2) [of v, unfolded ctx, OF assms(1,4,3)]
  have ancs: "distinct (map br_author ancs) \<and> (\<forall>a \<in> set ancs. br_author a \<in> members ?c)"
    if h: "G r = Some h" "ancestors h = Some ancs" for r h ancs
  proof (cases "br_round r = 0")
    case True
    then have "ancs = []" using wf_dag_ancestors [OF assms(3) h(1)] h(2) by (cases ancs) auto
    then show ?thesis by simp
  next
    case False
    then show ?thesis using valid [OF h(1)] h(2) by (auto simp: valid_ancestors_def)
  qed
  have quorum: "reached_quorum ?c (stake_sum ?c (br_author ` {a \<in> set ancs. br_round a + 1 = br_round r}))"
    if h: "G r = Some h" "0 < br_round r" "ancestors h = Some ancs" for r h ancs
    using valid [OF h(1)] h(2,3) wf_dag_reference [OF assms(3) h(1)] by (auto simp: valid_ancestors_def)
  have "bft_dag ?c honest G"
    unfolding bft_dag_def member_dag_def
    using assms(1,3,5-7) verified_dag_members [OF assms(1,2,4,3)] quorum by blast
  moreover have linear: "linear_dag (size_of ?c) G" using ancs by (fastforce simp: linear_dag_def members_def)
  moreover have "\<forall>ds. header_of ds = G \<and> ds_ctx ds = ctx \<longrightarrow>
      (dag_linear ds \<longleftrightarrow> (\<forall>r h. G r = Some h \<longrightarrow> acknowledgments h \<noteq> None))"
    using linear assms(3) by (auto simp: dag_linear_def)
  moreover have "parents_quorum ?c l" if l: "G (reference l) = Some l" "0 < bh_round l" for l
  proof -
    obtain as where as: "ancestors l = Some as" using wf_dag_ancestors [OF assms(3) l(1)] by blast
    have "set (parent_refs l) = {a \<in> set as. br_round a + 1 = bh_round l}"
      using l(2) by (auto simp: parent_refs_def as prev_round_def)
    with quorum [OF l(1) _ as] l(2) show ?thesis by (simp add: parents_quorum_def)
  qed
  ultimately show ?thesis by blast
qed

subsection \<open>Indices that are not checked\<close>

lemma verify_ancestors_out_of_range:
  assumes b: "bh_author b \<in> members (ctx_committee (bv_context v))" "bh_round b \<noteq> 0"
    and a: "br_author a \<notin> members (ctx_committee (bv_context v))" "br_round a < bh_round b" "0 < br_round a"
  shows "length seen = size_of (ctx_committee (bv_context v)) \<Longrightarrow> 0 < i + length xs \<Longrightarrow>
    \<forall>(k, x) \<in> set (List.enumerate i xs). (k = 0) = (br_author x = bh_author b) \<Longrightarrow> distinct (map br_author xs) \<Longrightarrow>
    \<forall>x \<in> set xs. br_author x \<in> members (ctx_committee (bv_context v)) \<and> \<not> seen ! br_author x \<and> br_round x < bh_round b \<and>
       (br_round x = 0 \<longrightarrow> x \<in> set (bv_genesis v)) \<Longrightarrow>
    verify_ancestors v b i seen stakes (xs @ a # ys) = None"
proof (induction xs arbitrary: i seen stakes)
  case Nil
  have "br_author a \<noteq> bh_author b" using a(1) b(1) by metis
  with Nil a b show ?case by (auto simp: Let_def is_valid_index_def members_def GENESIS_ROUND_def vec_get_def)
next
  case (Cons x xs)
  let ?seen = "seen[br_author x := True]"
  have x: "br_author x < size_of (ctx_committee (bv_context v))" "\<not> seen ! br_author x" "br_round x < bh_round b"
    "br_round x = 0 \<longrightarrow> x \<in> set (bv_genesis v)" "(i = 0) = (br_author x = bh_author b)"
    using Cons.prems(3,5) by (auto simp: members_def)
  have "\<forall>y \<in> set xs. br_author y \<in> members (ctx_committee (bv_context v)) \<and> \<not> ?seen ! br_author y \<and> br_round y < bh_round b \<and>
       (br_round y = 0 \<longrightarrow> y \<in> set (bv_genesis v))"
    using Cons.prems(4,5) by (auto simp: nth_list_update image_iff)
  then have "verify_ancestors v b (i + 1) ?seen s (xs @ a # ys) = None" for s
    using Cons.IH [of ?seen "i + 1" s] Cons.prems(1,3,4) by simp
  with x b Cons.prems(1) show ?case
    by (auto simp: Let_def is_valid_index_def members_def GENESIS_ROUND_def vec_get_def vec_set_def stake_at_Some
        split: if_splits)
qed

text \<open>
  C30: the loop of \<open>verify\<close> validates the index of the block's author instead of the ancestor's, so a signed
  header whose first ancestors are valid and which then names an ancestor with an author outside the committee makes the
  verifier panic at \<open>seen_ancestors[ancestor.author]\<close> instead of rejecting the header.
\<close>

theorem verify_panics_on_unknown_ancestor:
  assumes "bh_epoch b = committee_epoch (ctx_committee (bv_context v))" "bh_round b \<noteq> 0"
    and "bh_author b \<in> members (ctx_committee (bv_context v))"
    and "verify_block_header_signature api (block_header.truncate b) (sbh_signature b)
      (authorities (ctx_committee (bv_context v)) ! bh_author b) = Inr ()"
    and "ancestors b = Some (xs @ a # ys)" "length (xs @ a # ys) \<le> size_of (ctx_committee (bv_context v))"
    and "xs \<noteq> []" "br_author (hd xs) = bh_author b" "distinct (map br_author xs)"
    and "\<forall>x \<in> set xs. br_author x \<in> members (ctx_committee (bv_context v)) \<and> br_round x < bh_round b \<and>
      (br_round x = 0 \<longrightarrow> x \<in> set (bv_genesis v))"
    and "br_author a \<notin> members (ctx_committee (bv_context v))" "0 < br_round a" "br_round a < bh_round b"
  shows "verify api v b = None"
proof -
  let ?c = "ctx_committee (bv_context v)"
  have q: "quick_validation_authority_indices ?c [bh_author b] = Inr ()" using assms(3) by (simp add: is_valid_index_def members_def)
  have sig: "verify_signature api (bv_context v) b = Some (Inr ())"
    using assms(3,4) by (simp add: verify_signature_def is_valid_index_def members_def authority_at_def size_of_def)
  have "\<forall>(k, x) \<in> set (List.enumerate 0 xs). (k = 0) = (br_author x = bh_author b)"
    using valid_positions [OF assms(9)] assms(8) by simp
  then have "verify_ancestors v b 0 (replicate (size_of ?c) False) 0 (xs @ a # ys) = None"
    using assms(3,7,9,10) by (intro verify_ancestors_out_of_range [OF assms(3,2,11,13,12)]) (auto simp: members_def)
  then show ?thesis unfolding verify_def Let_def q sig using assms(1,2,5,6) by simp
qed

lemma foldM_None: "x \<in> set xs \<Longrightarrow> (\<And>s. f s x = None) \<Longrightarrow> foldM f s xs = None"
proof (induction xs arbitrary: s)
  case (Cons y ys)
  then show ?case by (cases "f s y") auto
qed simp

lemma collect_acks_panics: "h \<in> set hs \<Longrightarrow> acknowledgments h = None \<Longrightarrow> collect_acks lz hs = None"
  unfolding collect_acks_def by (rule foldM_None) auto

text \<open>
  C31: \<open>verify\<close> looks at the ancestors of a header only. When its author signs a header with an
  \<open>overlap_start_index\<close> past the end of the references, the header is still accepted, and the
  linearizer panics on every sub-dag that contains it.
\<close>

theorem malformed_acknowledgments_accepted:
  assumes "committee_ok (ctx_committee (bv_context v))" "verify api v b = Some (Inr ())"
    and "b' = b\<lparr> overlap_start_index := k \<rparr>" "length (bh_references b) < k"
    and "verify_block_header_signature api (block_header.truncate b') (sbh_signature b')
      (authorities (ctx_committee (bv_context v)) ! bh_author b') = Inr ()"
  shows "verify api v b' = Some (Inr ()) \<and>
    (\<forall>h hs lz. h \<in> set hs \<and> block_header.truncate h = block_header.truncate b' \<longrightarrow> collect_acks lz hs = None)"
proof
  have "ancestors b' = ancestors b" "bh_round b' = bh_round b" "bh_author b' = bh_author b" "bh_epoch b' = bh_epoch b"
    by (simp_all add: assms(3) ancestors_def)
  with assms(2,5) show "verify api v b' = Some (Inr ())"
    unfolding verify_valid [OF assms(1)] by (simp add: valid_header_def valid_ancestors_def Let_def)
  have "acknowledgments h = acknowledgments (block_header.truncate h)" for h :: verified_block_header
    by (simp add: acknowledgments_def block_header.defs)
  moreover have "acknowledgments (block_header.truncate b') = None"
    using assms(3,4) by (simp add: acknowledgments_def block_header.defs)
  ultimately have "acknowledgments h = None" if "block_header.truncate h = block_header.truncate b'" for h :: verified_block_header
    using that by metis
  then show "\<forall>h hs lz. h \<in> set hs \<and> block_header.truncate h = block_header.truncate b' \<longrightarrow> collect_acks lz hs = None"
    using collect_acks_panics by blast
qed

subsection \<open>Witnesses\<close>

definition lenient_api :: crypto_api where
  "lenient_api = \<lparr> intent_message = \<lambda>_. Inr [], parse_signature = Inr, check_signature = \<lambda>_ _ _. Inr () \<rparr>"

definition sync_verifier :: "signed_block_verifier" where
  "sync_verifier = signed_block_verifier_new sync_digest (sync_context 4) (\<lambda>_. Inr ())"

lemma sync_verifier_context [simp]: "ctx_committee (bv_context sync_verifier) = example_committee 4"
  by (simp add: sync_verifier_def signed_block_verifier_new_def sync_context_def example_context_def)

lemma sync_verifier_committee: "members (example_committee 4) = {..<4}" "committee_epoch (example_committee 4) = 0"
  "committee_ok (example_committee 4)" "size_of (example_committee 4) = 4"
  by (auto simp: members_def size_of_def example_committee_ok) (simp_all add: example_committee_def)

lemma lenient_signature [simp]: "verify_block_header_signature lenient_api h sig a = Inr ()"
  by (simp add: verify_block_header_signature_def lenient_api_def)

lemma sync_verifier_genesis: "set (bv_genesis sync_verifier) = sync_ref 0 ` {..<4}"
proof -
  have "map reference (genesis_block_headers sync_digest (sync_context 4)) = map reference (map vb_header (genesis_blocks sync_digest (sync_context 4)))"
    by (simp add: genesis_block_headers_def genesis_blocks_def case_prod_beta Let_def)
  then have "map reference (genesis_block_headers sync_digest (sync_context 4)) = map (sync_ref 0) [0..<4]"
    unfolding sync_genesis [of 4, simplified] by simp
  then have "set (bv_genesis sync_verifier) = set (map (sync_ref 0) [0..<4])"
    by (simp only: sync_verifier_def signed_block_verifier_new_def set_bs_from_list signed_block_verifier.simps)
  then show ?thesis by auto
qed

lemma sync_header_valid:
  assumes "0 < r" "a < 4"
  shows "verify lenient_api sync_verifier (with_signature (sync_header 4 r a) []) = Some (Inr ())"
proof -
  have "{x \<in> set (map (sync_ref (r - 1)) (own_first 4 a)). br_round x + 1 = r} = sync_ref (r - 1) ` {..<4}"
    using assms by (auto simp: own_first_facts)
  then have "br_author ` {x \<in> set (map (sync_ref (r - 1)) (own_first 4 a)). br_round x + 1 = r} = {..<4}"
    by (simp only: image_image sync_ref_simps image_ident)
  moreover have "reached_quorum (example_committee 4) (stake_sum (example_committee 4) {..<4})"
    by (simp add: example_committee_stake reached_quorum_def) (simp add: example_committee_def)
  moreover have "bh_epoch (sync_header 4 r a) = 0" by simp
  moreover have "own_first 4 a \<noteq> []" by (simp add: own_first_def)
  ultimately show ?thesis
    unfolding verify_valid [of sync_verifier, simplified, OF sync_verifier_committee(3)]
    using assms by (auto simp: valid_header_def valid_ancestors_def sync_verifier_committee sync_verifier_genesis hd_map
        own_first_facts comp_def)
qed

theorem verify_accepts_witness:
  "verify lenient_api sync_verifier (with_signature (sync_header 4 2 1) []) = Some (Inr ()) \<and>
   reached_quorum (example_committee 4) (stake_sum (example_committee 4)
     (br_author ` {a \<in> set (map (sync_ref 1) (own_first 4 1)). br_round a + 1 = 2}))"
  using verify_accepts_exactly [of sync_verifier lenient_api "with_signature (sync_header 4 2 1) []"]
    sync_header_valid [of 2 1] sync_verifier_committee(3) by (simp add: Let_def)

theorem verified_dag_witness:
  "bft_dag (example_committee 4) {..<4} (sync_dag 4 (up_to 3)) \<and> linear_dag 4 (sync_dag 4 (up_to 3))"
proof -
  have c: "ctx_committee (sync_context 4) = example_committee 4" by (simp add: sync_context_def example_context_def)
  have "verified_dag lenient_api sync_verifier (sync_dag 4 (up_to 3))"
    unfolding verified_dag_def sync_dag_Some 
    by (auto simp: sync_verifier_genesis intro!: exI [of _ "[]"] sync_header_valid)
  moreover have "stake_sum (example_committee 4) (members (example_committee 4) - {..<4}) < validity_threshold (example_committee 4)"
    using validity_positive [OF sync_verifier_committee(3)] by (simp add: sync_verifier_committee stake_sum_def)
  moreover have "\<forall>r r'. sync_dag 4 (up_to 3) r \<noteq> None \<and> sync_dag 4 (up_to 3) r' \<noteq> None \<and> br_author r = br_author r' \<and>
      br_author r \<in> {..<4} \<and> br_round r = br_round r' \<longrightarrow> r = r'" by (auto simp: sync_dag_Some)
  ultimately show ?thesis
    using verified_dag_safe [of "sync_context 4" sync_verifier sync_digest "\<lambda>_. Inr ()" "sync_dag 4 (up_to 3)" lenient_api "{..<4}"]
      sync_verifier_committee sync_wf_dag [of 4 3] by (simp add: c sync_verifier_def)
qed

definition crashing_header :: signed_block_header where
  "crashing_header = with_signature (example_header 2 1 0 [sync_ref 1 1, BlockRef 1 9 0]) []"

theorem verify_panics_witness: "verify lenient_api sync_verifier crashing_header = None"
  by (rule verify_panics_on_unknown_ancestor [where xs = "[sync_ref 1 1]" and a = "BlockRef 1 9 0" and ys = "[]"])
    (simp_all add: crashing_header_def sync_verifier_committee)

theorem malformed_acknowledgments_witness:
  "verify lenient_api sync_verifier ((with_signature (sync_header 4 2 1) [])\<lparr> overlap_start_index := 200 \<rparr>) = Some (Inr ()) \<and>
   collect_acks (linearizer_new (sync_context 4)) [(sync_header 4 2 1)\<lparr> overlap_start_index := 200 \<rparr>] = None"
proof -
  let ?b = "(with_signature (sync_header 4 2 1) [])" and ?h = "(sync_header 4 2 1)\<lparr> overlap_start_index := 200 \<rparr>"
  have len: "length (bh_references ?b) < 200"
    by (simp add: with_signature_def sync_header_def Let_def example_header_def block_header.defs signed_block_header.defs own_first_def
        le_less_trans [OF length_filter_le])
  have "block_header.truncate ?h = block_header.truncate (?b\<lparr> overlap_start_index := 200 \<rparr>)"
    by (simp add: with_signature_def block_header.defs signed_block_header.defs)
  with malformed_acknowledgments_accepted [OF _ sync_header_valid refl len] sync_verifier_committee(3)
  show ?thesis by simp
qed

end
