(* ===== verification/Verified_Headers.thy ===== *)
theory Verified_Headers
  imports Block_Manager Block_Verifier
begin

section \<open>Verified headers in the block manager\<close>

text \<open>
  The block verifier in front of the block manager, as \<open>authority_service.rs\<close> and the synchronizers
  compose them: a header that passes \<open>verify\<close> is well formed for \<open>try_accept_block_headers\<close>, except that its
  acknowledgments may be unreadable, and then the block manager panics on it.
\<close>

lemma acknowledgments_with_signature: "acknowledgments (with_signature h sig) = acknowledgments h"
  by (simp add: with_signature_def block_header.defs signed_block_header.defs acknowledgments_def)

lemma verified_well_formed:
  assumes "committee_ok (ctx_committee (bv_context v))" "verify api v (with_signature h sig) = Some (Inr ())" "header_fits h"
    "ctx_committee ctx = ctx_committee (bv_context v)"
  shows "well_formed ctx h"
  using assms(2,3) unfolding verify_valid [OF assms(1)] assms(4) [symmetric]
  by (auto simp: well_formed_def valid_header_def valid_ancestors_def Let_def assms(4))

text \<open>A header with unreadable acknowledgments is announced to the cordial knowledge before it is stored.\<close>

lemma accept_malformed_panics:
  assumes ok: "dag_ok ds" and h: "bh_author h \<in> members (ds_committee ds)" "header_of ds (reference h) = None" "acknowledgments h = None"
    and cordial: "ds_cordial ds \<noteq> None" "source \<noteq> CommitSyncer" "source \<noteq> Recover"
  shows "accept_block_header ds h source = None"
proof -
  have "notify_header ds' h source = None" if "ds_cordial ds' = ds_cordial ds" for ds'
    using that cordial h(3) by (auto simp: notify_header_def)
  then have upd: "update_block_header_metadata ds h source = None"
    by (auto simp: update_block_header_metadata_def Let_def bind_eq_None_conv)
  show ?thesis
    by (auto simp: accept_block_header_def Let_def upd bind_eq_None_conv contains_block_header_exact [OF ok] h(1,2))
qed

text \<open>
  C32: a header that passes \<open>verify\<close> but whose \<open>overlap_start_index\<close> makes its acknowledgments unreadable
  crashes the validator: with the cordial knowledge running, \<open>try_accept_block_headers\<close> panics on it when
  it arrives from a peer with all its ancestors known, while \<open>well_formed\<close> holds of it.
\<close>

theorem malformed_acknowledgments_panic:
  assumes "manager_ok bm ds" "committee_ok (ctx_committee (bv_context v))" "ds_committee ds = ctx_committee (bv_context v)"
    and "verify api v (with_signature h sig) = Some (Inr ())" "header_fits h" "acknowledgments h = None"
    and "header_of ds (reference h) = None" "\<forall>ancs. ancestors h = Some ancs \<longrightarrow> set ancs \<subseteq> known ds"
    and "bm_get (suspended_headers (blm_suspender bm)) (reference h) = None" "waiting (blm_suspender bm) (reference h) = {}"
    and "ds_cordial ds \<noteq> None" "source \<noteq> CommitSyncer" "source \<noteq> Recover"
  shows "well_formed (ds_ctx ds) h \<and> try_accept_block_headers signature bm ds [h] source = None"
proof -
  have wf: "well_formed (ds_ctx ds) h" using verified_well_formed [OF assms(2,4,5)] assms(3) by simp
  have dag: "dag_ok ds" using assms(1) by (simp add: manager_ok_def)
  from present_refs [OF dag, of "[h]"] wf obtain present where
    run: "present_header_and_ancestor_refs_in_dag_state ds [h] = Some present"
    and known: "reference h \<in> set present \<longleftrightarrow> reference h \<in> known ds"
      "\<forall>ancs. ancestors h = Some ancs \<longrightarrow> (\<forall>a \<in> set ancs. a \<in> set present \<longleftrightarrow> a \<in> known ds)" by auto
  have present: "reference h \<notin> set present" "\<forall>ancs. ancestors h = Some ancs \<longrightarrow> set ancs \<subseteq> set present"
    using known assms(7,8) by (simp add: known_def, blast)
  from process_free_header [OF assms(1) wf assms(10,9) present, of signature] obtain bm1 where
    "process_block_headers signature bm [h] present = Some (bm1, [h], [])" by blast
  with run accept_malformed_panics [OF dag _ assms(7,6,11-13)] wf show ?thesis
    by (simp add: try_accept_block_headers_def write_block_headers_and_transactions_to_dag_state_def accept_block_headers_def well_formed_def
        split: prod.splits)
qed

text \<open>A header of round 4 on the synchronous DAG whose acknowledgments start behind its references.\<close>

definition malformed_header :: verified_block_header where
  "malformed_header = (sync_header 4 4 2)\<lparr> overlap_start_index := 200 \<rparr>"

lemma malformed_header_facts:
  "reference malformed_header = sync_ref 4 2" "bh_author malformed_header = 2" "acknowledgments malformed_header = None"
  "ancestors malformed_header = Some (map (sync_ref 3) (own_first 4 2))" "header_fits malformed_header"
proof -
  have simps: "bh_author malformed_header = bh_author (sync_header 4 4 2)" "bh_round malformed_header = bh_round (sync_header 4 4 2)"
    "reference malformed_header = reference (sync_header 4 4 2)" "ancestors malformed_header = ancestors (sync_header 4 4 2)"
    by (simp_all add: malformed_header_def reference_def ancestors_def)
  then show "reference malformed_header = sync_ref 4 2" "bh_author malformed_header = 2"
    "ancestors malformed_header = Some (map (sync_ref 3) (own_first 4 2))" by simp_all
  show "header_fits malformed_header" unfolding header_fits_def using simps(2) by (simp add: u32_max_def)
  have "length (bh_references malformed_header) < 200"
    by (simp add: malformed_header_def sync_header_def Let_def example_header_def own_first_def le_less_trans [OF length_filter_le])
  then show "acknowledgments malformed_header = None" by (simp add: acknowledgments_def malformed_header_def)
qed

lemma malformed_header_verified: "verify lenient_api sync_verifier (with_signature malformed_header []) = Some (Inr ())"
proof -
  have "verify lenient_api sync_verifier (with_signature (sync_header 4 4 2) []) = Some (Inr ())" using sync_header_valid by simp
  then show ?thesis
    unfolding verify_valid [OF sync_verifier_committee(3) [folded sync_verifier_context]]
    by (simp add: valid_header_def valid_ancestors_def malformed_header_facts(2,4)) (simp add: malformed_header_def)
qed

theorem malformed_acknowledgments_panic_witness:
  "\<exists>ds. sync_state 4 3 = Some ds \<and>
    try_accept_block_headers (\<lambda>_. []) (block_manager_new (sync_context 4)) (set_cordial_knowledge_senders ds) [malformed_header]
      BlockBundleStream = None"
proof -
  from sync_state_run [of 4 3] obtain ds0 where ds0: "sync_state 4 3 = Some ds0" "dag_ok ds0" "ds_ctx ds0 = sync_context 4"
    "header_of ds0 = sync_dag 4 (up_to 3)" by (auto simp: u32_max_def)
  let ?ds = "set_cordial_knowledge_senders ds0" and ?bm = "block_manager_new (sync_context 4)"
  have same: "header_of ?ds = header_of ds0" by (rule header_of_cong) (simp_all add: set_cordial_knowledge_senders_def)
  have ds: "dag_ok ?ds" "ds_ctx ?ds = sync_context 4" "header_of ?ds = sync_dag 4 (up_to 3)" "ds_cordial ?ds \<noteq> None"
    using ds0(2-4) unfolding same by (simp_all add: set_cordial_knowledge_senders_def dag_ok_def last_commit_round_def)
  have "manager_ok ?bm ?ds" using manager_ok_new [OF ds(1)] ds(2,3) sync_wf_dag by simp
  moreover have "ds_committee ?ds = ctx_committee (bv_context sync_verifier)" by (simp add: ds(2) sync_context_def example_context_def)
  moreover have "\<forall>ancs. ancestors malformed_header = Some ancs \<longrightarrow> set ancs \<subseteq> known ?ds"
    by (auto simp: malformed_header_facts(4) known_def ds(3) sync_dag_def up_to_def own_first_facts)
  moreover have "header_of ?ds (reference malformed_header) = None" by (simp add: malformed_header_facts(1) ds(3) sync_dag_def up_to_def)
  ultimately show ?thesis
    using malformed_acknowledgments_panic [OF _ _ _ malformed_header_verified malformed_header_facts(5,3), of ?bm ?ds BlockBundleStream "\<lambda>_. []"]
      sync_verifier_committee(3) ds(4) ds0(1)
    by (simp add: block_manager_new_def block_suspender_new_def waiting_def)
qed

end
