(* ===== verification/Transaction_Consumer.thy ===== *)
theory Transaction_Consumer
  imports Block_Verifier
begin

section \<open>Submitted transactions\<close>

text \<open>
  \<open>crates/starfish/core/src/transaction.rs\<close>: the client side that checks and queues bundles of
  transactions, and the consumer that fills the next block from the queue and reports back what
  became of the transactions. The channel between them is the list of queued bundles (waiting for
  room in it only delays a submission). A one-shot channel to a submitter is the number of the
  submission; what is sent to the submitters is returned. Main results: a batch for a block
  passes the checks of every peer, no bundle is lost, split or reordered, and every waiting
  submitter is told the status of its block exactly once.
\<close>

record transactions_guard =
  tg_transactions :: "transaction list"
  included_in_block_ack :: nat

datatype block_status = Sequenced generic_transaction_ref | GarbageCollected generic_transaction_ref

datatype limit_reached = MaxNumOfTransactions | MaxBytes | AllTransactionsIncluded

record transaction_consumer =
  tx_receiver :: "transactions_guard list"
  tco_max_bytes :: nat
  tco_max_num :: nat
  pending_transactions :: "transactions_guard option"
  block_status_subscribers :: "(generic_transaction_ref, nat list) btreemap"

definition transaction_consumer_new :: "transactions_guard list \<Rightarrow> consensus_context \<Rightarrow> transaction_consumer" where
  "transaction_consumer_new queue ctx = \<lparr> tx_receiver = queue, tco_max_bytes = max_transactions_in_block_bytes ctx,
     tco_max_num = max_num_transactions_in_block ctx, pending_transactions = None, block_status_subscribers = [] \<rparr>"

text \<open>What one call of \<open>next\<close> has collected so far.\<close>

record pulled =
  pu_transactions :: "transaction list"
  pu_acks :: "nat list"
  total_bytes :: nat
  pu_limit :: limit_reached

definition handle_txs :: "transaction_consumer \<Rightarrow> pulled \<Rightarrow> transactions_guard \<Rightarrow> pulled \<times> transactions_guard option" where
  "handle_txs tc p t =
     (let transactions_bytes = sum_list (map length (tg_transactions t)); transactions_num = length (tg_transactions t) in
      if tco_max_bytes tc < total_bytes p + transactions_bytes then (p\<lparr> pu_limit := MaxBytes \<rparr>, Some t)
      else if tco_max_num tc < length (pu_transactions p) + transactions_num then (p\<lparr> pu_limit := MaxNumOfTransactions \<rparr>, Some t)
      else (p\<lparr> total_bytes := total_bytes p + transactions_bytes, pu_acks := pu_acks p @ [included_in_block_ack t],
               pu_transactions := pu_transactions p @ tg_transactions t \<rparr>, None))"

fun pull_loop :: "transaction_consumer \<Rightarrow> pulled \<Rightarrow> transactions_guard list \<Rightarrow> pulled \<times> transactions_guard option \<times> transactions_guard list" where
  "pull_loop tc p [] = (p, None, [])"
| "pull_loop tc p (t # queue) =
     (case handle_txs tc p t of
        (p', None) \<Rightarrow> pull_loop tc p' queue
      | (p', Some t') \<Rightarrow> (p', Some t', queue))"

text \<open>A pending bundle that does not fit into an empty block is reported and dropped.\<close>

definition next_transactions :: "transaction_consumer \<Rightarrow> transaction list \<times> nat list \<times> limit_reached \<times> transaction_consumer" where
  "next_transactions tc =
     (let p0 = \<lparr> pu_transactions = [], pu_acks = [], total_bytes = 0, pu_limit = AllTransactionsIncluded \<rparr>;
          p1 = (case pending_transactions tc of None \<Rightarrow> p0 | Some t \<Rightarrow> fst (handle_txs tc p0 t));
          (p, pending, queue) = pull_loop tc p1 (tx_receiver tc)
      in (pu_transactions p, pu_acks p, pu_limit p, tc\<lparr> pending_transactions := pending, tx_receiver := queue \<rparr>))"

definition acknowledge_inclusion ::
  "transaction_consumer \<Rightarrow> nat list \<Rightarrow> generic_transaction_ref \<Rightarrow> transaction_consumer \<times> (nat \<times> generic_transaction_ref) list" where
  "acknowledge_inclusion tc acks g =
     (tc\<lparr> block_status_subscribers := foldl (\<lambda>m a.
          bm_insert g ((case bm_get m g of None \<Rightarrow> [] | Some ss \<Rightarrow> ss) @ [a]) m) (block_status_subscribers tc) acks \<rparr>,
      map (\<lambda>a. (a, g)) acks)"

definition notify_sequenced ::
  "(generic_transaction_ref, nat list) btreemap \<times> (nat \<times> block_status) list \<Rightarrow> generic_transaction_ref
     \<Rightarrow> (generic_transaction_ref, nat list) btreemap \<times> (nat \<times> block_status) list" where
  "notify_sequenced st g =
     (case bm_get (fst st) g of
        None \<Rightarrow> st
      | Some ss \<Rightarrow> (bm_remove g (fst st), snd st @ map (\<lambda>s. (s, Sequenced g)) ss))"

fun notify_collected ::
  "round \<Rightarrow> (generic_transaction_ref, nat list) btreemap \<Rightarrow> (generic_transaction_ref, nat list) btreemap \<times> (nat \<times> block_status) list" where
  "notify_collected gc [] = ([], [])"
| "notify_collected gc ((g, ss) # m) =
     (if gtr_round g \<le> gc
      then let (m', out) = notify_collected gc m in (m', map (\<lambda>s. (s, GarbageCollected g)) ss @ out)
      else (bm_insert g ss m, []))"

definition notify_own_transactions_status ::
  "transaction_consumer \<Rightarrow> generic_transaction_ref list \<Rightarrow> round \<Rightarrow> transaction_consumer \<times> (nat \<times> block_status) list" where
  "notify_own_transactions_status tc committed gc =
     (let (m, sequenced) = foldl notify_sequenced (block_status_subscribers tc, []) committed;
          (m', collected) = notify_collected gc m
      in (tc\<lparr> block_status_subscribers := m' \<rparr>, sequenced @ collected))"

subsection \<open>The client\<close>

record transaction_client =
  max_transaction_size :: nat
  tcl_max_bytes :: nat
  tcl_max_count :: nat

datatype client_error =
    ConsensusShuttingDown string
  | OversizedTransaction nat nat
  | OversizedTransactionBundleBytes nat nat
  | OversizedTransactionBundleCount nat nat

definition transaction_client_new :: "consensus_context \<Rightarrow> transaction_client" where
  "transaction_client_new ctx = \<lparr> max_transaction_size = max_transaction_size_bytes ctx,
     tcl_max_bytes = max_transactions_in_block_bytes ctx, tcl_max_count = max_num_transactions_in_block ctx \<rparr>"

primrec check_bundle :: "transaction_client \<Rightarrow> nat \<Rightarrow> transaction list \<Rightarrow> client_error + unit" where
  "check_bundle cl bundle_size [] = Inr ()"
| "check_bundle cl bundle_size (t # ts) =
     (if max_transaction_size cl < length t then Inl (OversizedTransaction (length t) (max_transaction_size cl))
      else if tcl_max_bytes cl < bundle_size + length t
      then Inl (OversizedTransactionBundleBytes (bundle_size + length t) (tcl_max_bytes cl))
      else check_bundle cl (bundle_size + length t) ts)"

text \<open>\<open>closed\<close> is the error of sending to the channel, if its receiver is gone.\<close>

definition submit_no_wait ::
  "transaction_client \<Rightarrow> string option \<Rightarrow> transactions_guard list \<Rightarrow> nat \<Rightarrow> transaction list \<Rightarrow> client_error + transactions_guard list" where
  "submit_no_wait cl closed queue ack transactions =
     (if tcl_max_count cl < length transactions
      then Inl (OversizedTransactionBundleCount (length transactions) (tcl_max_count cl))
      else case check_bundle cl 0 transactions of
        Inl e \<Rightarrow> Inl e
      | Inr _ \<Rightarrow> (case closed of
          Some e \<Rightarrow> Inl (ConsensusShuttingDown e)
        | None \<Rightarrow> Inr (queue @ [\<lparr> tg_transactions = transactions, included_in_block_ack = ack \<rparr>])))"

definition submit ::
  "transaction_client \<Rightarrow> string option \<Rightarrow> transactions_guard list \<Rightarrow> nat \<Rightarrow> transaction list \<Rightarrow> (string + generic_transaction_ref)
     \<Rightarrow> client_error + transactions_guard list \<times> generic_transaction_ref" where
  "submit cl closed queue ack transactions included =
     (case submit_no_wait cl closed queue ack transactions of
        Inl e \<Rightarrow> Inl e
      | Inr queue' \<Rightarrow> (case included of Inl e \<Rightarrow> Inl (ConsensusShuttingDown e) | Inr g \<Rightarrow> Inr (queue', g)))"

subsection \<open>Filling a block\<close>

text \<open>A bundle within the limits, as the client lets it through, and the bundles not yet in a block in order.\<close>

definition fits :: "consensus_context \<Rightarrow> transaction list \<Rightarrow> bool" where
  "fits ctx ts = (length ts \<le> max_num_transactions_in_block ctx \<and> sum_list (map length ts) \<le> max_transactions_in_block_bytes ctx \<and>
     (\<forall>t \<in> set ts. length t \<le> max_transaction_size_bytes ctx))"

definition waiting_guards :: "transaction_consumer \<Rightarrow> transactions_guard list" where
  "waiting_guards tc = (case pending_transactions tc of None \<Rightarrow> [] | Some t \<Rightarrow> [t]) @ tx_receiver tc"

definition consumer_ok :: "consensus_context \<Rightarrow> transaction_consumer \<Rightarrow> bool" where
  "consumer_ok ctx tc = (tco_max_bytes tc = max_transactions_in_block_bytes ctx \<and> tco_max_num tc = max_num_transactions_in_block ctx \<and>
     (\<forall>t \<in> set (waiting_guards tc). fits ctx (tg_transactions t)))"

lemma check_bundle_ok:
  "check_bundle cl n ts = Inr () \<longleftrightarrow>
     (\<forall>t \<in> set ts. length t \<le> max_transaction_size cl) \<and> (ts = [] \<or> n + sum_list (map length ts) \<le> tcl_max_bytes cl)"
  by (induction ts arbitrary: n) (auto simp: not_less)

lemma check_transaction_sizes_ok: "\<forall>t \<in> set ts. length t \<le> limit \<Longrightarrow> check_transaction_sizes limit ts = Inr ()"
  by (induction ts) auto

lemma fits_check: "bv_context v = ctx \<Longrightarrow> fits ctx ts \<Longrightarrow> check_transactions v ts = Inr ()"
  by (simp add: check_transactions_def fits_def Let_def check_transaction_sizes_ok)

lemma submit_fits:
  assumes "submit_no_wait (transaction_client_new ctx) closed (tx_receiver tc) ack ts = Inr queue" "consumer_ok ctx tc"
  shows "consumer_ok ctx (tc\<lparr> tx_receiver := queue \<rparr>) \<and>
    waiting_guards (tc\<lparr> tx_receiver := queue \<rparr>) = waiting_guards tc @ [\<lparr> tg_transactions = ts, included_in_block_ack = ack \<rparr>]"
  using assms check_bundle_ok [of "transaction_client_new ctx" 0 ts]
  by (auto simp: submit_no_wait_def transaction_client_new_def consumer_ok_def waiting_guards_def fits_def
      split: if_splits sum.splits option.splits)

definition collected :: "transactions_guard list \<Rightarrow> pulled \<Rightarrow> pulled \<Rightarrow> bool" where
  "collected taken p p' = (pu_transactions p' = pu_transactions p @ concat (map tg_transactions taken) \<and>
     pu_acks p' = pu_acks p @ map included_in_block_ack taken \<and> total_bytes p' = sum_list (map length (pu_transactions p')))"

lemma pull_loop_run:
  assumes "\<forall>t \<in> set queue. fits ctx (tg_transactions t)" "fits ctx (pu_transactions p)" "total_bytes p = sum_list (map length (pu_transactions p))"
    "tco_max_bytes tc = max_transactions_in_block_bytes ctx" "tco_max_num tc = max_num_transactions_in_block ctx"
    "pu_limit p = AllTransactionsIncluded"
  shows "\<exists>p' pending rest taken. pull_loop tc p queue = (p', pending, rest) \<and>
    queue = taken @ (case pending of None \<Rightarrow> [] | Some t \<Rightarrow> [t]) @ rest \<and> collected taken p p' \<and> fits ctx (pu_transactions p') \<and>
    (pending = None \<longrightarrow> rest = []) \<and> (pu_limit p' = AllTransactionsIncluded \<longleftrightarrow> pending = None) \<and>
    (queue \<noteq> [] \<and> pu_transactions p = [] \<longrightarrow> taken \<noteq> [])"
  using assms
proof (induction queue arbitrary: p)
  case Nil
  then show ?case by (simp add: collected_def)
next
  case (Cons t queue)
  obtain p1 r where h: "handle_txs tc p t = (p1, r)" by (cases "handle_txs tc p t")
  show ?case
  proof (cases r)
    case (Some t')
    with h have "t' = t" "pu_transactions p1 = pu_transactions p" "pu_acks p1 = pu_acks p" "total_bytes p1 = total_bytes p"
      "pu_limit p1 \<noteq> AllTransactionsIncluded" "pu_transactions p \<noteq> []"
      using Cons.prems by (auto simp: handle_txs_def Let_def fits_def split: if_splits)
    with Some h Cons.prems show ?thesis by (simp add: collected_def)
  next
    case None
    with h have p1: "pu_transactions p1 = pu_transactions p @ tg_transactions t" "pu_acks p1 = pu_acks p @ [included_in_block_ack t]"
      "total_bytes p1 = sum_list (map length (pu_transactions p1))" "pu_limit p1 = AllTransactionsIncluded" "fits ctx (pu_transactions p1)"
      using Cons.prems by (auto simp: handle_txs_def Let_def fits_def split: if_splits)
    from Cons.IH [OF _ p1(5,3) Cons.prems(4,5) p1(4)] Cons.prems(1) obtain p' pending rest taken where
      "pull_loop tc p1 queue = (p', pending, rest)" "queue = taken @ (case pending of None \<Rightarrow> [] | Some t \<Rightarrow> [t]) @ rest"
      "collected taken p1 p'" "fits ctx (pu_transactions p')" "pending = None \<longrightarrow> rest = []"
      "pu_limit p' = AllTransactionsIncluded \<longleftrightarrow> pending = None" by auto
    with None h p1 show ?thesis by (intro exI [of _ p'] exI [of _ pending] exI [of _ rest] exI [of _ "t # taken"]) (simp add: collected_def)
  qed
qed

text \<open>A call of \<open>next\<close>.\<close>

lemma next_transactions_run:
  assumes ok: "consumer_ok ctx tc" and run: "next_transactions tc = (txs, acks, limit, tc')" and v: "bv_context v = ctx"
  shows "\<exists>taken. waiting_guards tc = taken @ waiting_guards tc' \<and> txs = concat (map tg_transactions taken) \<and>
    acks = map included_in_block_ack taken \<and> (waiting_guards tc \<noteq> [] \<longrightarrow> taken \<noteq> []) \<and>
    (limit = AllTransactionsIncluded \<longleftrightarrow> waiting_guards tc' = []) \<and> consumer_ok ctx tc' \<and> check_transactions v txs = Inr ()"
proof -
  let ?p0 = "\<lparr> pu_transactions = [], pu_acks = [], total_bytes = 0, pu_limit = AllTransactionsIncluded \<rparr>"
  have lim: "tco_max_bytes tc = max_transactions_in_block_bytes ctx" "tco_max_num tc = max_num_transactions_in_block ctx"
    and guards: "\<forall>t \<in> set (waiting_guards tc). fits ctx (tg_transactions t)" using ok by (simp_all add: consumer_ok_def)
  obtain p1 first where p1: "p1 = (case pending_transactions tc of None \<Rightarrow> ?p0 | Some t \<Rightarrow> fst (handle_txs tc ?p0 t))"
    "first = (case pending_transactions tc of None \<Rightarrow> [] | Some t \<Rightarrow> [t])" by blast
  have one: "pu_transactions p1 = concat (map tg_transactions first)" "pu_acks p1 = map included_in_block_ack first"
    "total_bytes p1 = sum_list (map length (pu_transactions p1))" "pu_limit p1 = AllTransactionsIncluded" "fits ctx (pu_transactions p1)"
    using guards lim by (auto simp: p1 waiting_guards_def handle_txs_def fits_def Let_def split: option.splits)
  have "\<forall>t \<in> set (tx_receiver tc). fits ctx (tg_transactions t)" using guards by (simp add: waiting_guards_def)
  from pull_loop_run [OF this one(5,3) lim one(4)] obtain p pending rest taken where
    l: "pull_loop tc p1 (tx_receiver tc) = (p, pending, rest)"
      "tx_receiver tc = taken @ (case pending of None \<Rightarrow> [] | Some t \<Rightarrow> [t]) @ rest" "collected taken p1 p" "fits ctx (pu_transactions p)"
      "pending = None \<longrightarrow> rest = []" "pu_limit p = AllTransactionsIncluded \<longleftrightarrow> pending = None"
      "tx_receiver tc \<noteq> [] \<and> pu_transactions p1 = [] \<longrightarrow> taken \<noteq> []" by blast
  have res: "txs = pu_transactions p" "acks = pu_acks p" "limit = pu_limit p" "tc' = tc\<lparr> pending_transactions := pending, tx_receiver := rest \<rparr>"
    using run l(1) by (simp_all add: next_transactions_def p1(1) Let_def)
  have wait: "waiting_guards tc = (first @ taken) @ waiting_guards tc'" using l(2) by (simp add: waiting_guards_def res(4) p1(2))
  moreover have "waiting_guards tc \<noteq> [] \<longrightarrow> first @ taken \<noteq> []" using l(7) one(1) by (auto simp: waiting_guards_def p1(2) split: option.splits)
  moreover have "limit = AllTransactionsIncluded \<longleftrightarrow> waiting_guards tc' = []"
    using l(5,6) by (auto simp: waiting_guards_def res(3,4) split: option.splits)
  moreover have "consumer_ok ctx tc'" using guards lim unfolding wait by (simp add: consumer_ok_def res(4))
  ultimately show ?thesis using l(3) one(1,2) fits_check [OF v l(4)]
    by (intro exI [of _ "first @ taken"]) (simp add: collected_def res(1,2))
qed

text \<open>C13: \<open>TransactionConsumer::next\<close> loses, splits and reorders nothing: the bundles it acknowledges are the first
  waiting ones, the batch is their concatenation, and the others go on waiting in order. It takes at
  least one bundle if there is any, it reports that all were included exactly when none is left, and the
  batch passes the checks the block verifier of every peer makes. This rests on the limits that the
  client checks at submission.\<close>

theorem next_transactions_correct:
  assumes ok: "consumer_ok ctx tc" and run: "next_transactions tc = (txs, acks, limit, tc')" and v: "bv_context v = ctx"
  shows "\<exists>taken. waiting_guards tc = taken @ waiting_guards tc' \<and> txs = concat (map tg_transactions taken) \<and>
    acks = map included_in_block_ack taken \<and> (waiting_guards tc \<noteq> [] \<longrightarrow> taken \<noteq> []) \<and>
    (limit = AllTransactionsIncluded \<longleftrightarrow> waiting_guards tc' = []) \<and> consumer_ok ctx tc' \<and> check_transactions v txs = Inr ()"
  using next_transactions_run [OF assms] .

subsection \<open>Reporting the status\<close>

text \<open>All references of one configuration are of the same kind; then they are ordered by round first.\<close>

fun is_transaction_ref :: "generic_transaction_ref \<Rightarrow> bool" where
  "is_transaction_ref (GBlockRef _) = False"
| "is_transaction_ref (GTransactionRef _) = True"

definition subscribers_ok :: "bool \<Rightarrow> (generic_transaction_ref, nat list) btreemap \<Rightarrow> bool" where
  "subscribers_ok fast m = (bm_invar m \<and> (\<forall>g \<in> fst ` set m. is_transaction_ref g = fast))"

lemma gtr_le_round: "g \<le> g' \<Longrightarrow> is_transaction_ref g = is_transaction_ref g' \<Longrightarrow> gtr_round g \<le> gtr_round g'"
  by (cases g; cases g') (auto simp: less_eq_block_ref_def less_eq_transaction_ref_def)

lemma bm_insert_least: "bm_invar ((k, v) # m) \<Longrightarrow> bm_insert k v m = (k, v) # m"
  by (cases m) (auto simp: bm_invar_def)

lemma notify_collected_run:
  "subscribers_ok fast m \<Longrightarrow> notify_collected gc m =
     (filter (\<lambda>e. gc < gtr_round (fst e)) m,
      concat (map (\<lambda>e. map (\<lambda>s. (s, GarbageCollected (fst e))) (snd e)) (filter (\<lambda>e. gtr_round (fst e) \<le> gc) m)))"
proof (induction m)
  case (Cons e m)
  obtain g ss where e: "e = (g, ss)" by (cases e)
  have m: "subscribers_ok fast m" using Cons.prems by (auto simp: subscribers_ok_def e bm_invar_Cons)
  show ?case
  proof (cases "gtr_round g \<le> gc")
    case True
    with Cons.IH [OF m] show ?thesis by (simp add: e)
  next
    case False
    have "gc < gtr_round (fst e')" if "e' \<in> set m" for e'
    proof -
      have "g < fst e'" "is_transaction_ref (fst e') = is_transaction_ref g"
        using Cons.prems that by (auto simp: subscribers_ok_def e bm_invar_Cons)
      then show ?thesis using gtr_le_round [of g "fst e'"] False by (simp add: less_imp_le)
    qed
    then have "filter (\<lambda>e. gc < gtr_round (fst e)) m = m" "filter (\<lambda>e. gtr_round (fst e) \<le> gc) m = []"
      by (auto simp: filter_id_conv filter_empty_conv not_le)
    moreover have "bm_insert g ss m = (g, ss) # m" using Cons.prems by (intro bm_insert_least) (simp add: subscribers_ok_def e)
    ultimately show ?thesis using False by (simp add: e)
  qed
qed simp

lemma notify_sequenced_run:
  "subscribers_ok fast m \<Longrightarrow> \<exists>m' out'. foldl notify_sequenced (m, out) gs = (m', out') \<and> subscribers_ok fast m' \<and>
     (\<forall>g. bm_get m' g = (if g \<in> set gs then None else bm_get m g)) \<and>
     set out' = set out \<union> {(s, Sequenced g) |s g. g \<in> set gs \<and> (\<exists>ss. bm_get m g = Some ss \<and> s \<in> set ss)}"
proof (induction gs arbitrary: m out)
  case (Cons g gs)
  show ?case
  proof (cases "bm_get m g")
    case None
    then have "notify_sequenced (m, out) g = (m, out)" by (simp add: notify_sequenced_def)
    moreover from Cons.IH [OF Cons.prems, of out] obtain m' out' where
      "foldl notify_sequenced (m, out) gs = (m', out')" "subscribers_ok fast m'"
      "\<forall>g. bm_get m' g = (if g \<in> set gs then None else bm_get m g)"
      "set out' = set out \<union> {(s, Sequenced g) |s g. g \<in> set gs \<and> (\<exists>ss. bm_get m g = Some ss \<and> s \<in> set ss)}" by blast
    ultimately show ?thesis using None by (intro exI [of _ m'] exI [of _ out']) auto
  next
    case (Some ss)
    let ?m = "bm_remove g m" and ?out = "out @ map (\<lambda>s. (s, Sequenced g)) ss"
    have step: "notify_sequenced (m, out) g = (?m, ?out)" using Some by (simp add: notify_sequenced_def)
    have "subscribers_ok fast ?m" using Cons.prems by (auto simp: subscribers_ok_def bm_remove_def intro: bm_invar_filter)
    from Cons.IH [OF this, of ?out] obtain m' out' where
      m': "foldl notify_sequenced (?m, ?out) gs = (m', out')" "subscribers_ok fast m'"
      "\<forall>g. bm_get m' g = (if g \<in> set gs then None else bm_get ?m g)"
      "set out' = set ?out \<union> {(s, Sequenced g) |s g. g \<in> set gs \<and> (\<exists>ss. bm_get ?m g = Some ss \<and> s \<in> set ss)}" by blast
    have "set out' = set out \<union> {(s, Sequenced x) |s x. x \<in> set (g # gs) \<and> (\<exists>ss. bm_get m x = Some ss \<and> s \<in> set ss)}"
    proof (intro set_eqI iffI)
      fix y assume "y \<in> set out \<union> {(s, Sequenced x) |s x. x \<in> set (g # gs) \<and> (\<exists>ss. bm_get m x = Some ss \<and> s \<in> set ss)}"
      then consider "y \<in> set out" | s x us where "y = (s, Sequenced x)" "x \<in> set (g # gs)" "bm_get m x = Some us" "s \<in> set us" by auto
      then show "y \<in> set out'"
      proof cases
        case 2
        with Some show ?thesis unfolding m'(4) by (cases "x = g") auto
      qed (simp add: m'(4))
    qed (use Some in \<open>auto simp: m'(4) split: if_splits\<close>)
    with step m'(1-3) Some show ?thesis by (intro exI [of _ m'] exI [of _ out']) auto
  qed
qed auto

text \<open>C20: \<open>notify_own_transactions_status\<close> tells every submitter waiting for one of the committed references that it is
  sequenced, and every other submitter waiting for a reference at or below the garbage collection round
  that it is garbage collected. Nobody else is told anything, and exactly the notified references are
  forgotten.\<close>

theorem notify_own_transactions_status_correct:
  assumes ok: "subscribers_ok fast (block_status_subscribers tc)"
    and run: "notify_own_transactions_status tc committed gc = (tc', out)"
  shows "subscribers_ok fast (block_status_subscribers tc') \<and>
    (\<forall>g. bm_get (block_status_subscribers tc') g =
       (if g \<in> set committed \<or> gtr_round g \<le> gc then None else bm_get (block_status_subscribers tc) g)) \<and>
    (\<forall>s status. (s, status) \<in> set out \<longleftrightarrow>
       (\<exists>g ss. bm_get (block_status_subscribers tc) g = Some ss \<and> s \<in> set ss \<and>
          (if g \<in> set committed then status = Sequenced g else gtr_round g \<le> gc \<and> status = GarbageCollected g)))"
proof -
  let ?m = "block_status_subscribers tc"
  from notify_sequenced_run [OF ok, of "[]" committed] obtain m1 out1 where
    1: "foldl notify_sequenced (?m, []) committed = (m1, out1)" "subscribers_ok fast m1"
      "\<forall>g. bm_get m1 g = (if g \<in> set committed then None else bm_get ?m g)"
      "set out1 = {(s, Sequenced g) |s g. g \<in> set committed \<and> (\<exists>ss. bm_get ?m g = Some ss \<and> s \<in> set ss)}" by auto
  let ?kept = "filter (\<lambda>e. gc < gtr_round (fst e)) m1"
  let ?out = "concat (map (\<lambda>e. map (\<lambda>s. (s, GarbageCollected (fst e))) (snd e)) (filter (\<lambda>e. gtr_round (fst e) \<le> gc) m1))"
  have res: "tc' = tc\<lparr> block_status_subscribers := ?kept \<rparr>" "out = out1 @ ?out"
    using run notify_collected_run [OF 1(2)] by (simp_all add: notify_own_transactions_status_def 1(1))
  have inv: "bm_invar m1" using 1(2) by (simp add: subscribers_ok_def)
  have "subscribers_ok fast ?kept" using 1(2) by (auto simp: subscribers_ok_def intro: bm_invar_filter)
  moreover have "bm_get ?kept g = (if g \<in> set committed \<or> gtr_round g \<le> gc then None else bm_get ?m g)" for g
    using 1(3) bm_get_filter [OF inv, of "\<lambda>e. gc < gtr_round (fst e)" g] by (auto split: option.splits)
  moreover have "(s, status) \<in> set ?out \<longleftrightarrow> (\<exists>g ss. bm_get m1 g = Some ss \<and> s \<in> set ss \<and> gtr_round g \<le> gc \<and> status = GarbageCollected g)" for s status
    unfolding in_set_bm_get [OF inv, symmetric] by force
  ultimately show ?thesis unfolding res using 1(3,4) by (auto split: if_splits)
qed

subsection \<open>Witnesses\<close>

definition example_consumer :: transaction_consumer where
  "example_consumer = transaction_consumer_new
     [\<lparr> tg_transactions = [[1, 2], [3]], included_in_block_ack = 7 \<rparr>, \<lparr> tg_transactions = [[4]], included_in_block_ack = 8 \<rparr>] (sync_context 4)"

lemma example_queue:
  "submit_no_wait (transaction_client_new (sync_context 4)) None [] 7 [[1, 2], [3]] =
     Inr [\<lparr> tg_transactions = [[1, 2], [3]], included_in_block_ack = 7 \<rparr>]"
  by (simp add: submit_no_wait_def transaction_client_new_def sync_context_def example_context_def)

theorem next_transactions_witness:
  "\<exists>txs acks limit tc' taken. next_transactions example_consumer = (txs, acks, limit, tc') \<and>
    waiting_guards example_consumer = taken @ waiting_guards tc' \<and> taken \<noteq> [] \<and>
    check_transactions sync_verifier txs = Inr ()"
proof -
  obtain txs acks limit tc' where run: "next_transactions example_consumer = (txs, acks, limit, tc')"
    by (metis prod_cases4)
  have "consumer_ok (sync_context 4) example_consumer"
    by (simp add: consumer_ok_def example_consumer_def transaction_consumer_new_def waiting_guards_def fits_def sync_context_def example_context_def)
  moreover have "waiting_guards example_consumer \<noteq> []"
    by (simp add: example_consumer_def transaction_consumer_new_def waiting_guards_def)
  moreover have "bv_context sync_verifier = sync_context 4" by (simp add: sync_verifier_def signed_block_verifier_new_def)
  ultimately show ?thesis using next_transactions_correct [OF _ run, of "sync_context 4" sync_verifier] run by blast
qed

theorem notify_own_transactions_status_witness:
  "\<exists>tc' out. notify_own_transactions_status (example_consumer\<lparr> block_status_subscribers :=
      [(GBlockRef (BlockRef 1 0 0), [7]), (GBlockRef (BlockRef 5 0 0), [8])] \<rparr>) [GBlockRef (BlockRef 5 0 0)] 2 = (tc', out) \<and>
    (7, GarbageCollected (GBlockRef (BlockRef 1 0 0))) \<in> set out \<and> (8, Sequenced (GBlockRef (BlockRef 5 0 0))) \<in> set out"
proof -
  let ?subs = "[(GBlockRef (BlockRef 1 0 0), [7]), (GBlockRef (BlockRef 5 0 0), [8])] :: (generic_transaction_ref, nat list) btreemap"
  let ?tc = "example_consumer\<lparr> block_status_subscribers := ?subs \<rparr>"
  obtain tc' out where run: "notify_own_transactions_status ?tc [GBlockRef (BlockRef 5 0 0)] 2 = (tc', out)"
    by (meson surj_pair)
  have "subscribers_ok False (block_status_subscribers ?tc)"
    by (simp add: subscribers_ok_def bm_invar_def less_generic_transaction_ref_def less_eq_block_ref_def)
  from notify_own_transactions_status_correct [OF this run] have
    "(s, status) \<in> set out \<longleftrightarrow> (\<exists>g ss. bm_get ?subs g = Some ss \<and> s \<in> set ss \<and>
       (if g \<in> set [GBlockRef (BlockRef 5 0 0)] then status = Sequenced g else gtr_round g \<le> 2 \<and> status = GarbageCollected g))" for s status
    by simp
  from this [of 7 "GarbageCollected (GBlockRef (BlockRef 1 0 0))"] this [of 8 "Sequenced (GBlockRef (BlockRef 5 0 0))"] run show ?thesis
    by (auto simp: bm_get_def)
qed

end
