(* ===== verification/Acknowledgments.thy ===== *)
theory Acknowledgments
  imports Synchronous_Dag
begin

section \<open>Acknowledged transactions\<close>





subsection \<open>Steps that add no acknowledgment\<close>















subsection \<open>The invariant\<close>











end
