(* ===== verification/Commit_Solidifier.thy ===== *)
theory Commit_Solidifier
  imports Linearizer_Commits
begin

section \<open>The commit solidifier\<close>

text \<open>
  \<open>crates/starfish/core/src/commit_solidifier.rs\<close>: holds the committed sub-dags until all their
  transactions are available and hands them out in the order of their indices. The DAG state is
  an argument. Main result: the sub-dags handed out have consecutive indices and all their
  transactions, and the first one held back really misses a transaction.
\<close>

record commit_solidifier =
  pending_subdags :: "(commit_index, pending_sub_dag) btreemap"
  last_solid_committed_index :: commit_index

definition commit_solidifier_new :: commit_solidifier where
  "commit_solidifier_new = \<lparr> pending_subdags = [], last_solid_committed_index = 0 \<rparr>"

definition set_last_solid_committed_index :: "commit_solidifier \<Rightarrow> commit_index \<Rightarrow> commit_solidifier" where
  "set_last_solid_committed_index cs i = cs\<lparr> last_solid_committed_index := i \<rparr>"

definition missing_in :: "dag_state \<Rightarrow> pending_sub_dag \<Rightarrow> generic_transaction_ref list option" where
  "missing_in ds sd = do {
     exists \<leftarrow> contains_transactions ds (psd_committed_transaction_refs sd);
     Some (map fst (filter (\<lambda>(g, e). \<not> e) (zip (psd_committed_transaction_refs sd) exists))) }"

definition solidifier_missing_transaction_data ::
  "commit_solidifier \<Rightarrow> dag_state \<Rightarrow> generic_transaction_ref btreeset option" where
  "solidifier_missing_transaction_data cs ds =
     foldM (\<lambda>missing e. do { gs \<leftarrow> missing_in ds (snd e); Some (bs_extend missing gs) }) [] (pending_subdags cs)"

definition committed_sub_dag_of :: "pending_sub_dag \<Rightarrow> verified_transactions list \<Rightarrow> committed_sub_dag" where
  "committed_sub_dag_of sd txs =
     \<lparr> sd_leader = sd_leader sd, sd_headers = sd_headers sd, sd_committed_header_refs = sd_committed_header_refs sd,
       sd_timestamp_ms = sd_timestamp_ms sd, sd_commit_ref = sd_commit_ref sd,
       sd_reputation_scores_desc = sd_reputation_scores_desc sd, csd_transactions = txs \<rparr>"

definition try_get_one_solid_sub_dag_internal ::
  "dag_state \<Rightarrow> pending_sub_dag \<Rightarrow> (generic_transaction_ref list + committed_sub_dag) option" where
  "try_get_one_solid_sub_dag_internal ds sd = do {
     results \<leftarrow> get_verified_transactions ds (psd_committed_transaction_refs sd);
     let missing = map fst (filter (\<lambda>(g, t). t = None) (zip (psd_committed_transaction_refs sd) results));
     if missing = [] then do { txs \<leftarrow> mapM (\<lambda>t. t) results; Some (Inr (committed_sub_dag_of sd txs)) }
     else Some (Inl missing) }"

definition buffer_subdags :: "(commit_index, pending_sub_dag) btreemap \<Rightarrow> pending_sub_dag list \<Rightarrow> (commit_index, pending_sub_dag) btreemap" where
  "buffer_subdags m sds = foldl (\<lambda>m sd.
     let i = cr_index (sd_commit_ref sd) in if bm_contains_key m i then m else bm_insert i sd m) m sds"

text \<open>The loop that commits in order; every round takes a sub-dag out of the buffer.\<close>

function solid_loop ::
  "dag_state \<Rightarrow> (commit_index, pending_sub_dag) btreemap \<Rightarrow> commit_index \<Rightarrow> committed_sub_dag list
     \<Rightarrow> ((commit_index, pending_sub_dag) btreemap \<times> commit_index \<times> committed_sub_dag list) option"
where
  "solid_loop ds m i out =
     (case bm_get m (i + 1) of
        None \<Rightarrow> Some (m, i, out)
      | Some sd \<Rightarrow> (case try_get_one_solid_sub_dag_internal ds sd of
          None \<Rightarrow> None
        | Some (Inl _) \<Rightarrow> Some (m, i, out)
        | Some (Inr csd) \<Rightarrow> solid_loop ds (bm_remove (i + 1) m) (i + 1) (out @ [csd])))"
  by pat_completeness auto
termination
  by (relation "measure (\<lambda>(ds, m, i, out). length m)")
    (auto simp: bm_remove_def dest!: bm_get_in_set intro!: length_filter_less)

definition collect_missing ::
  "dag_state \<Rightarrow> commit_index \<Rightarrow> generic_transaction_ref btreeset \<Rightarrow> pending_sub_dag \<Rightarrow> generic_transaction_ref btreeset option" where
  "collect_missing ds solid missing sd =
     (if solid < cr_index (sd_commit_ref sd) then do {
        gs \<leftarrow> missing_in ds sd;
        foldM (\<lambda>missing g. do { assert_that (g \<notin> set missing); Some (bs_insert g missing) }) missing gs }
      else Some missing)"

definition try_get_solid_sub_dags ::
  "commit_solidifier \<Rightarrow> dag_state \<Rightarrow> pending_sub_dag list
     \<Rightarrow> (committed_sub_dag list \<times> generic_transaction_ref list \<times> commit_solidifier \<times> dag_state) option"
where
  "try_get_solid_sub_dags cs ds sds = do {
     (m, solid, out) \<leftarrow> solid_loop ds (buffer_subdags (pending_subdags cs) sds) (last_solid_committed_index cs) [];
     let ds' = (if out = [] then ds else update_pending_commit_votes ds (map sd_commit_ref out));
     missing \<leftarrow> foldM (collect_missing ds' solid) [] sds;
     Some (out, missing, cs\<lparr> pending_subdags := m, last_solid_committed_index := solid \<rparr>, ds') }"

subsection \<open>Reading transactions\<close>

text \<open>The transactions a reference denotes: genesis, memory, then storage.\<close>

definition transactions_of :: "dag_state \<Rightarrow> generic_transaction_ref \<Rightarrow> verified_transactions option" where
  "transactions_of ds g =
     (if gtr_round g = GENESIS_ROUND then map_option vb_transactions (get_genesis_block ds g)
      else case bm_get (recent_transactions_by_authority ds ! gtr_author g) g of
             Some t \<Rightarrow> Some t | None \<Rightarrow> stored_transactions (ds_store ds) g)"

definition refs_ok :: "dag_state \<Rightarrow> generic_transaction_ref list \<Rightarrow> bool" where
  "refs_ok ds refs = (\<forall>g \<in> set refs. gtr_author g \<in> members (ds_committee ds) \<and> commit_ref_kind (ds_fast ds) g)"

lemma mapM_total_map: "(\<And>x. x \<in> set xs \<Longrightarrow> f x = Some (g x)) \<Longrightarrow> mapM f xs = Some (map g xs)"
  by (induction xs) auto

lemma refs_consistent:
  assumes "\<forall>g \<in> set refs. commit_ref_kind fast g"
  shows "check_ref_consistency refs"
proof -
  have "same_variant x y" if "commit_ref_kind fast x" "commit_ref_kind fast y" for x y
    using that by (cases x; cases y) (auto simp: commit_ref_kind_def split: if_splits)
  then show ?thesis using assms by (auto simp: check_ref_consistency_def list_all_iff split: list.splits)
qed

declare solid_loop.simps [simp del]

lemma member_index: "dag_ok ds \<Longrightarrow> a \<in> members (ds_committee ds) \<Longrightarrow> a < length (recent_transactions_by_authority ds)"
  by (simp add: dag_ok_def members_def)

lemma missing_of_subset: "set (missing_of refs probes) \<subseteq> set refs"
  by (auto simp: missing_of_def dest: set_zip_leftD)

lemma missing_consistent: "refs_ok ds refs \<Longrightarrow> check_ref_consistency (missing_of refs probes)"
  using missing_of_subset [of refs probes] by (intro refs_consistent [of _ "ds_fast ds"]) (auto simp: refs_ok_def)

lemma get_verified_transactions_map:
  assumes "dag_ok ds" "refs_ok ds refs"
  shows "get_verified_transactions ds refs = Some (map (transactions_of ds) refs)"
proof -
  let ?p = "\<lambda>g. if gtr_round g = GENESIS_ROUND then Some (map_option vb_transactions (get_genesis_block ds g))
    else map_option Some (bm_get (recent_transactions_by_authority ds ! gtr_author g) g)"
  have "mapM (probe_transactions ds) refs = Some (map ?p refs)"
    using assms member_index [OF assms(1)] by (intro mapM_total_map) (auto simp: probe_transactions_def refs_ok_def)
  moreover have "check_ref_consistency (missing_of refs (map ?p refs))"
    by (rule missing_consistent [OF assms(2)])
  ultimately have "get_verified_transactions ds refs =
      Some (batch_fill None (map ?p refs) (map (stored_transactions (ds_store ds)) (missing_of refs (map ?p refs))))"
    by (simp add: get_verified_transactions_def store_read_verified_transactions_def)
  then show ?thesis unfolding batch_fill_map by (auto simp: transactions_of_def split: option.splits)
qed

lemma contains_transactions_map:
  assumes "dag_ok ds" "refs_ok ds refs"
  shows "contains_transactions ds refs = Some (map (\<lambda>g. transactions_of ds g \<noteq> None) refs)"
proof -
  let ?p = "\<lambda>g. if gtr_round g = GENESIS_ROUND then Some (get_genesis_block ds g \<noteq> None)
    else if bm_contains_key (recent_transactions_by_authority ds ! gtr_author g) g then Some True else None"
  have "mapM (\<lambda>g. if gtr_round g = GENESIS_ROUND then Some (Some (get_genesis_block ds g \<noteq> None))
         else do {
           m \<leftarrow> vec_get (recent_transactions_by_authority ds) (gtr_author g);
           Some (if bm_contains_key m g then Some True else None) }) refs = Some (map ?p refs)"
    using assms member_index [OF assms(1)] by (intro mapM_total_map) (auto simp: refs_ok_def)
  moreover have "check_ref_consistency (missing_of refs (map ?p refs))"
    by (rule missing_consistent [OF assms(2)])
  ultimately have "contains_transactions ds refs =
      Some (batch_fill False (map ?p refs) (map (\<lambda>g. stored_transactions (ds_store ds) g \<noteq> None) (missing_of refs (map ?p refs))))"
    by (simp add: contains_transactions_def store_contains_transactions_def)
  then show ?thesis unfolding batch_fill_map by (auto simp: transactions_of_def bm_contains_key_def split: option.splits)
qed

lemma filter_zip_map: "map fst (filter (\<lambda>(g, e). P e) (zip xs (map f xs))) = filter (\<lambda>g. P (f g)) xs"
  by (induction xs) auto

lemma missing_in_run:
  assumes "dag_ok ds" "refs_ok ds (psd_committed_transaction_refs sd)"
  shows "missing_in ds sd = Some (filter (\<lambda>g. transactions_of ds g = None) (psd_committed_transaction_refs sd))"
  by (simp add: missing_in_def contains_transactions_map [OF assms] filter_zip_map del: not_None_eq)

subsection \<open>Handing out solid sub-dags\<close>

definition available :: "dag_state \<Rightarrow> pending_sub_dag \<Rightarrow> bool" where
  "available ds sd = (\<forall>g \<in> set (psd_committed_transaction_refs sd). transactions_of ds g \<noteq> None)"

definition solid_sub_dag :: "dag_state \<Rightarrow> pending_sub_dag \<Rightarrow> committed_sub_dag" where
  "solid_sub_dag ds sd = committed_sub_dag_of sd (map (the \<circ> transactions_of ds) (psd_committed_transaction_refs sd))"

lemma try_get_one_run:
  assumes "dag_ok ds" "refs_ok ds (psd_committed_transaction_refs sd)"
  shows "try_get_one_solid_sub_dag_internal ds sd =
    Some (if available ds sd then Inr (solid_sub_dag ds sd)
          else Inl (filter (\<lambda>g. transactions_of ds g = None) (psd_committed_transaction_refs sd)))"
proof -
  let ?refs = "psd_committed_transaction_refs sd"
  have "mapM (\<lambda>t. t) (map f xs) = Some (map (the \<circ> f) xs)" if "\<forall>x \<in> set xs. f x \<noteq> None" for f :: "'a \<Rightarrow> 'b option" and xs
    using that by (induction xs) auto
  from this [of ?refs "transactions_of ds"]
  have "mapM (\<lambda>t. t) (map (transactions_of ds) ?refs) = Some (map (the \<circ> transactions_of ds) ?refs)" if "available ds sd"
    using that by (simp add: available_def)
  moreover have z: "map fst (filter (\<lambda>(g, t). t = None) (zip ?refs (map (transactions_of ds) ?refs))) =
      filter (\<lambda>g. transactions_of ds g = None) ?refs" by (rule filter_zip_map)
  moreover have "filter (\<lambda>(g, t). t = None) (zip ?refs (map (transactions_of ds) ?refs)) = [] \<longleftrightarrow> available ds sd"
    using arg_cong [OF z, of "\<lambda>xs. xs = []"] by (simp add: available_def filter_empty_conv)
  ultimately show ?thesis
    by (simp add: try_get_one_solid_sub_dag_internal_def get_verified_transactions_map [OF assms] solid_sub_dag_def Let_def)
qed

lemma solid_loop_run:
  assumes "dag_ok ds" "\<forall>k sd. bm_get m k = Some sd \<longrightarrow> refs_ok ds (psd_committed_transaction_refs sd)"
  shows "\<exists>m' j. solid_loop ds m i out = Some (m', j, out @ map (\<lambda>k. solid_sub_dag ds (the (bm_get m k))) [i + 1..<j + 1]) \<and>
    i \<le> j \<and> (\<forall>k. bm_get m' k = (if i < k \<and> k \<le> j then None else bm_get m k)) \<and>
    (\<forall>k. i < k \<and> k \<le> j \<longrightarrow> (\<exists>sd. bm_get m k = Some sd \<and> available ds sd)) \<and>
    (\<forall>sd. bm_get m (j + 1) = Some sd \<longrightarrow> \<not> available ds sd)"
  using assms
proof (induction ds m i out rule: solid_loop.induct)
  case (1 ds m i out)
  show ?case
  proof (cases "\<exists>sd. bm_get m (i + 1) = Some sd \<and> available ds sd")
    case False
    have "solid_loop ds m i out = Some (m, i, out)"
    proof (cases "bm_get m (i + 1)")
      case (Some sd)
      with False try_get_one_run [OF 1(2)] 1(3) show ?thesis by (simp add: solid_loop.simps [of ds m])
    qed (simp add: solid_loop.simps [of ds m])
    with False show ?thesis by (intro exI [of _ m] exI [of _ i]) auto
  next
    case True
    then obtain sd where sd: "bm_get m (i + 1) = Some sd" "available ds sd" by blast
    let ?m = "bm_remove (i + 1) m"
    have one: "try_get_one_solid_sub_dag_internal ds sd = Some (Inr (solid_sub_dag ds sd))"
      using try_get_one_run [OF 1(2)] 1(3) sd by simp
    have "\<forall>k sd. bm_get ?m k = Some sd \<longrightarrow> refs_ok ds (psd_committed_transaction_refs sd)" using 1(3) by auto
    from 1(1) [OF sd(1) one refl 1(2) this] obtain m' j where
      l: "solid_loop ds ?m (i + 1) (out @ [solid_sub_dag ds sd]) =
          Some (m', j, (out @ [solid_sub_dag ds sd]) @ map (\<lambda>k. solid_sub_dag ds (the (bm_get ?m k))) [i + 1 + 1..<j + 1])"
        "i + 1 \<le> j" "\<forall>k. bm_get m' k = (if i + 1 < k \<and> k \<le> j then None else bm_get ?m k)"
        "\<forall>k. i + 1 < k \<and> k \<le> j \<longrightarrow> (\<exists>sd. bm_get ?m k = Some sd \<and> available ds sd)"
        "\<forall>sd. bm_get ?m (j + 1) = Some sd \<longrightarrow> \<not> available ds sd" by blast
    have "map (\<lambda>k. solid_sub_dag ds (the (bm_get m k))) [i + 1..<j + 1] =
        solid_sub_dag ds sd # map (\<lambda>k. solid_sub_dag ds (the (bm_get ?m k))) [i + 1 + 1..<j + 1]"
      using l(2) sd(1) by (simp add: upt_conv_Cons del: upt_Suc)
    moreover have "solid_loop ds m i out = solid_loop ds ?m (i + 1) (out @ [solid_sub_dag ds sd])"
      using sd(1) one by (simp add: solid_loop.simps [of ds m])
    moreover have "bm_get m' k = (if i < k \<and> k \<le> j then None else bm_get m k)" for k using l(2,3) by auto
    moreover have "\<exists>sd. bm_get m k = Some sd \<and> available ds sd" if "i < k" "k \<le> j" for k
      using that l(4) sd by (cases "k = i + 1") (auto split: if_splits)
    moreover have "\<forall>sd. bm_get m (j + 1) = Some sd \<longrightarrow> \<not> available ds sd" using l(2,5) by simp
    ultimately show ?thesis using l(1,2) by (intro exI [of _ m'] exI [of _ j]) simp
  qed
qed

definition solidifier_ok :: "commit_solidifier \<Rightarrow> dag_state \<Rightarrow> bool" where
  "solidifier_ok cs ds = (\<forall>k sd. bm_get (pending_subdags cs) k = Some sd \<longrightarrow>
     cr_index (sd_commit_ref sd) = k \<and> refs_ok ds (psd_committed_transaction_refs sd))"

text \<open>The sub-dag with an index: one already held, or the first of the new ones.\<close>

definition buffered :: "commit_solidifier \<Rightarrow> pending_sub_dag list \<Rightarrow> commit_index \<Rightarrow> pending_sub_dag option" where
  "buffered cs sds k =
     (case bm_get (pending_subdags cs) k of
        Some sd \<Rightarrow> Some sd
      | None \<Rightarrow> find (\<lambda>sd. cr_index (sd_commit_ref sd) = k) sds)"

lemma buffer_subdags_get:
  "bm_get (buffer_subdags m sds) k =
     (case bm_get m k of Some sd \<Rightarrow> Some sd | None \<Rightarrow> find (\<lambda>sd. cr_index (sd_commit_ref sd) = k) sds)"
  by (induction sds arbitrary: m)
    (auto simp: buffer_subdags_def bm_contains_key_def Let_def split: option.splits)

lemma buffered_ok:
  assumes "solidifier_ok cs ds" "\<forall>sd \<in> set sds. refs_ok ds (psd_committed_transaction_refs sd)" "buffered cs sds k = Some sd"
  shows "cr_index (sd_commit_ref sd) = k \<and> refs_ok ds (psd_committed_transaction_refs sd)"
  using assms by (auto simp: buffered_def solidifier_ok_def find_Some_iff split: option.splits)

lemma insert_missing_run:
  assumes "distinct gs" "set gs \<inter> set missing = {}"
  shows "\<exists>missing'. foldM (\<lambda>missing g. do { assert_that (g \<notin> set missing); Some (bs_insert g missing) }) missing gs = Some missing' \<and>
    set missing' = set missing \<union> set gs"
  using assms
proof (induction gs arbitrary: missing)
  case (Cons g gs)
  from Cons.IH [of "bs_insert g missing"] Cons.prems show ?case by auto
qed simp

lemma collect_missing_run:
  assumes "dag_ok ds" "\<forall>sd \<in> set sds. refs_ok ds (psd_committed_transaction_refs sd)" "distinct (concat (map psd_committed_transaction_refs sds))"
    "set (concat (map psd_committed_transaction_refs sds)) \<inter> set missing = {}"
  shows "\<exists>missing'. foldM (collect_missing ds solid) missing sds = Some missing' \<and>
    set missing' = set missing \<union> {g. \<exists>sd \<in> set sds. solid < cr_index (sd_commit_ref sd) \<and>
      g \<in> set (psd_committed_transaction_refs sd) \<and> transactions_of ds g = None}"
  using assms
proof (induction sds arbitrary: missing)
  case (Cons sd sds)
  let ?refs = "psd_committed_transaction_refs sd"
  let ?new = "if solid < cr_index (sd_commit_ref sd) then {g \<in> set ?refs. transactions_of ds g = None} else {}"
  have d: "distinct (filter (\<lambda>g. transactions_of ds g = None) ?refs)"
    "set (filter (\<lambda>g. transactions_of ds g = None) ?refs) \<inter> set missing = {}" using Cons.prems(3,4) by auto
  obtain m1 where m1: "collect_missing ds solid missing sd = Some m1" "set m1 = set missing \<union> ?new"
  proof (cases "solid < cr_index (sd_commit_ref sd)")
    case True
    with insert_missing_run [OF d] missing_in_run [OF Cons.prems(1), of sd] Cons.prems(2) that show ?thesis
      by (auto simp: collect_missing_def)
  qed (use that in \<open>simp add: collect_missing_def\<close>)
  have "set (concat (map psd_committed_transaction_refs sds)) \<inter> set m1 = {}"
    using Cons.prems(3,4) m1(2) by auto
  with Cons.IH [of m1] Cons.prems(1-3) obtain m2 where
    "foldM (collect_missing ds solid) m1 sds = Some m2"
    "set m2 = set m1 \<union> {g. \<exists>sd \<in> set sds. solid < cr_index (sd_commit_ref sd) \<and>
      g \<in> set (psd_committed_transaction_refs sd) \<and> transactions_of ds g = None}" by auto
  with m1 show ?case by (intro exI [of _ m2]) auto
qed simp

lemma commit_votes_same:
  "dag_ok (update_pending_commit_votes ds refs) = dag_ok ds" "transactions_of (update_pending_commit_votes ds refs) = transactions_of ds"
  "refs_ok (update_pending_commit_votes ds refs) = refs_ok ds" "header_of (update_pending_commit_votes ds refs) = header_of ds"
proof -
  let ?ds = "update_pending_commit_votes ds refs"
  show "dag_ok ?ds = dag_ok ds" by (simp add: update_pending_commit_votes_def dag_ok_def last_commit_round_def)
  have "get_genesis_block ?ds g = get_genesis_block ds g" for g
    by (cases g) (simp_all add: find_genesis_by_transaction_ref_def update_pending_commit_votes_def)
  moreover have "recent_transactions_by_authority ?ds = recent_transactions_by_authority ds" "ds_store ?ds = ds_store ds"
    by (simp_all add: update_pending_commit_votes_def)
  ultimately show "transactions_of ?ds = transactions_of ds" by (simp add: transactions_of_def fun_eq_iff split: option.split)
  show "refs_ok ?ds = refs_ok ds" by (rule_tac ext) (simp add: refs_ok_def update_pending_commit_votes_def)
  show "header_of ?ds = header_of ds" by (rule header_of_cong) (simp_all add: update_pending_commit_votes_def)
qed

text \<open>\<open>try_get_solid_sub_dags\<close> never panics as long as no transactions are committed twice. The sub-dags it hands
  out have consecutive indices from the last one handed out on, and carry all their transactions, in order.
  It stops only at an index it holds no sub-dag for or one of whose transactions is missing, it forgets
  exactly what it handed out, and it reports exactly the missing transactions of the new sub-dags.\<close>

lemma try_get_solid_sub_dags_run:
  assumes ok: "dag_ok ds" "solidifier_ok cs ds" and new: "\<forall>sd \<in> set sds. refs_ok ds (psd_committed_transaction_refs sd)"
    and once: "distinct (concat (map psd_committed_transaction_refs sds))"
  shows "\<exists>out missing cs'. try_get_solid_sub_dags cs ds sds =
      Some (out, missing, cs', if out = [] then ds else update_pending_commit_votes ds (map sd_commit_ref out)) \<and>
    solidifier_ok cs' ds \<and> last_solid_committed_index cs \<le> last_solid_committed_index cs' \<and>
    map (\<lambda>sd. cr_index (sd_commit_ref sd)) out = [last_solid_committed_index cs + 1..<last_solid_committed_index cs' + 1] \<and>
    out = map (\<lambda>k. solid_sub_dag ds (the (buffered cs sds k))) [last_solid_committed_index cs + 1..<last_solid_committed_index cs' + 1] \<and>
    (\<forall>k. last_solid_committed_index cs < k \<and> k \<le> last_solid_committed_index cs' \<longrightarrow>
       (\<exists>sd. buffered cs sds k = Some sd \<and> available ds sd)) \<and>
    (\<forall>sd. buffered cs sds (last_solid_committed_index cs' + 1) = Some sd \<longrightarrow> \<not> available ds sd) \<and>
    (\<forall>k. bm_get (pending_subdags cs') k =
       (if last_solid_committed_index cs < k \<and> k \<le> last_solid_committed_index cs' then None else buffered cs sds k)) \<and>
    set missing = {g. \<exists>sd \<in> set sds. last_solid_committed_index cs' < cr_index (sd_commit_ref sd) \<and>
      g \<in> set (psd_committed_transaction_refs sd) \<and> transactions_of ds g = None}"
proof -
  let ?i = "last_solid_committed_index cs" and ?m = "buffer_subdags (pending_subdags cs) sds"
  have get: "bm_get ?m = buffered cs sds" by (rule ext) (simp add: buffer_subdags_get buffered_def)
  note buf = buffered_ok [OF ok(2) new]
  from solid_loop_run [OF ok(1), of ?m ?i "[]"] buf obtain m' j where
    l: "solid_loop ds ?m ?i [] = Some (m', j, map (\<lambda>k. solid_sub_dag ds (the (buffered cs sds k))) [?i + 1..<j + 1])" "?i \<le> j"
      "\<forall>k. bm_get m' k = (if ?i < k \<and> k \<le> j then None else buffered cs sds k)"
      "\<forall>k. ?i < k \<and> k \<le> j \<longrightarrow> (\<exists>sd. buffered cs sds k = Some sd \<and> available ds sd)"
      "\<forall>sd. buffered cs sds (j + 1) = Some sd \<longrightarrow> \<not> available ds sd" unfolding get by auto
  obtain out where out: "out = map (\<lambda>k. solid_sub_dag ds (the (buffered cs sds k))) [?i + 1..<j + 1]" by blast
  let ?ds = "if out = [] then ds else update_pending_commit_votes ds (map sd_commit_ref out)"
  have ds: "dag_ok ?ds = dag_ok ds" "transactions_of ?ds = transactions_of ds" "refs_ok ?ds = refs_ok ds"
    by (simp_all add: commit_votes_same)
  from collect_missing_run [of ?ds sds "[]" j] ok(1) new once obtain missing where
    m: "foldM (collect_missing ?ds j) [] sds = Some missing"
      "set missing = {g. \<exists>sd \<in> set sds. j < cr_index (sd_commit_ref sd) \<and> g \<in> set (psd_committed_transaction_refs sd) \<and> transactions_of ds g = None}"
    unfolding ds by auto
  let ?cs = "cs\<lparr> pending_subdags := m', last_solid_committed_index := j \<rparr>"
  have "cr_index (sd_commit_ref (solid_sub_dag ds (the (buffered cs sds k)))) = k" if "?i < k" "k \<le> j" for k
    using l(4) that buf by (auto simp: solid_sub_dag_def committed_sub_dag_of_def)
  then have "map (\<lambda>sd. cr_index (sd_commit_ref sd)) out = [?i + 1..<j + 1]" unfolding out by (auto intro!: map_idI)
  moreover have "try_get_solid_sub_dags cs ds sds = Some (out, missing, ?cs, ?ds)"
    using l(1) [folded out] m(1) by (simp add: try_get_solid_sub_dags_def Let_def)
  moreover have "solidifier_ok ?cs ds" using l(3) buf by (auto simp: solidifier_ok_def split: if_splits)
  ultimately show ?thesis using l(2-5) m(2) out
    by (intro exI [of _ out] exI [of _ missing] exI [of _ ?cs]) (simp del: upt_Suc)
qed

end
