(* ===== verification/Commit_Observer.thy ===== *)
theory Commit_Observer
  imports Commit_Solidifier Consensus_Error
begin

section \<open>The commit observer\<close>

text \<open>
  \<open>crates/starfish/core/src/commit_observer.rs\<close>: turns committed leaders into sub-dags (by the
  linearizer), waits for their transactions (by the solidifier) and sends them to the consumer of
  the consensus output in the order of their indices. The DAG state and the leader schedule are
  arguments; the store is the one of the DAG state. The channel is the list of what was sent;
  \<open>co_closed\<close> says that its receiver is gone. The source of a sub-dag only labels metrics and is
  left out, but the metrics' lookups that can panic are kept. Main result: the consumer gets the
  commits in order, each once and with all its transactions.
\<close>

record commit_observer =
  co_context :: consensus_context
  co_linearizer :: linearizer
  co_solidifier :: commit_solidifier
  co_sent :: "committed_sub_dag list"
  co_closed :: bool
  last_sent_commit_index :: commit_index

subsection \<open>Sending\<close>

primrec send_loop ::
  "commit_observer \<Rightarrow> commit_index list \<Rightarrow> committed_sub_dag list \<Rightarrow> (commit_observer \<times> commit_index list consensus_result) option" where
  "send_loop co sent [] = Some (co, Inr sent)"
| "send_loop co sent (sd # sds) =
     (let i = cr_index (sd_commit_ref sd) in
      if i \<le> last_sent_commit_index co then send_loop co sent sds
      else do {
        assert_that (i = last_sent_commit_index co + 1);
        if co_closed co then Some (co, Inl Shutdown)
        else send_loop (co\<lparr> co_sent := co_sent co @ [sd], last_sent_commit_index := i \<rparr>) (sent @ [i]) sds })"

definition send_sub_dags :: "commit_observer \<Rightarrow> committed_sub_dag list \<Rightarrow> (commit_observer \<times> commit_index list consensus_result) option" where
  "send_sub_dags co sds = (if sds = [] then Some (co, Inr []) else send_loop co [] sds)"

definition update_with_solid_subdags_and_flush ::
  "commit_observer \<Rightarrow> dag_state \<Rightarrow> committed_sub_dag list \<Rightarrow> (commit_observer \<times> dag_state) option" where
  "update_with_solid_subdags_and_flush co ds sds = do {
     (co1, ds1) \<leftarrow> (if sds = [] then Some (co, ds)
       else do {
         ds1 \<leftarrow> update_last_solid_subdag_base ds (sub_dag_base.truncate (last sds));
         Some (co\<lparr> co_linearizer := evict_linearizer (co_linearizer co) (br_round (sd_leader (last sds))) \<rparr>, ds1) });
     ds2 \<leftarrow> flush ds1;
     Some (co1, ds2) }"

definition report_metrics :: "commit_observer \<Rightarrow> dag_state \<Rightarrow> committed_sub_dag list \<Rightarrow> unit option" where
  "report_metrics co ds sds = do {
     mapM (\<lambda>sd. do {
         mapM (\<lambda>t. authority_at (ctx_committee (co_context co)) (tr_author (vt_transaction_ref t))) (csd_transactions sd);
         get_cached_block_headers_for_transaction_refs ds (map vt_transaction_ref (csd_transactions sd)) }) sds;
     Some () }"

definition finalize_and_send_solid_subdags ::
  "commit_observer \<Rightarrow> dag_state \<Rightarrow> committed_sub_dag list \<Rightarrow> (commit_observer \<times> dag_state \<times> unit consensus_result) option" where
  "finalize_and_send_solid_subdags co ds sds = do {
     (co1, ds1) \<leftarrow> update_with_solid_subdags_and_flush co ds sds;
     (co2, r) \<leftarrow> send_sub_dags co1 sds;
     case r of
       Inl e \<Rightarrow> Some (co2, ds1, Inl e)
     | Inr _ \<Rightarrow> do { report_metrics co2 ds1 sds; Some (co2, ds1, Inr ()) } }"

definition handle_committed_leaders ::
  "(commit \<Rightarrow> digest) \<Rightarrow> leader_schedule \<Rightarrow> commit_observer \<Rightarrow> dag_state \<Rightarrow> verified_block_header list
     \<Rightarrow> (commit_observer \<times> dag_state \<times>
          (pending_sub_dag list \<times> (generic_transaction_ref, authority_index btreeset) btreemap) consensus_result) option"
where
  "handle_committed_leaders digest_of ls co ds leaders = do {
     (sds, lz, ds1) \<leftarrow> get_pending_sub_dags digest_of ls (co_linearizer co) ds leaders;
     (solid, missing, cs, ds2) \<leftarrow> try_get_solid_sub_dags (co_solidifier co) ds1 sds;
     ackers \<leftarrow> get_transaction_ack_authors lz ds2 missing;
     (co', ds3, r) \<leftarrow> finalize_and_send_solid_subdags (co\<lparr> co_linearizer := lz, co_solidifier := cs \<rparr>) ds2 solid;
     Some (co', ds3, case r of Inl e \<Rightarrow> Inl e | Inr _ \<Rightarrow> Inr (sds, ackers)) }"

definition observer_missing_transaction_data ::
  "commit_observer \<Rightarrow> dag_state \<Rightarrow> (generic_transaction_ref, authority_index btreeset) btreemap option" where
  "observer_missing_transaction_data co ds = do {
     missing \<leftarrow> solidifier_missing_transaction_data (co_solidifier co) ds;
     get_transaction_ack_authors (co_linearizer co) ds missing }"

subsection \<open>Recovery\<close>

definition build_committed_subdag_from_commit ::
  "dag_state \<Rightarrow> trusted_commit \<Rightarrow> (authority_index \<times> nat) list \<Rightarrow> committed_sub_dag option option" where
  "build_committed_subdag_from_commit ds commit scores = do {
     let c = tcm_inner commit;
     r \<leftarrow> try_get_all_verified_transactions ds (commit_committed_transactions c);
     Some (case r of
         Inl _ \<Rightarrow> None
       | Inr txs \<Rightarrow> Some \<lparr> sd_leader = commit_leader c, sd_headers = [], sd_committed_header_refs = commit_block_headers c,
           sd_timestamp_ms = commit_timestamp_ms c, sd_commit_ref = tcm_reference commit,
           sd_reputation_scores_desc = scores, csd_transactions = txs \<rparr>) }"

text \<open>Sets the last solid sub-dag from the last processed commit, if it is stored with its transactions.\<close>

definition init_last_solid :: "commit_observer \<Rightarrow> dag_state \<Rightarrow> commit_index \<Rightarrow> (commit_observer \<times> dag_state) option" where
  "init_last_solid co ds i =
     (if i = 0 then Some (co, ds)
      else case store_scan_commits (ds_store ds) (commit_range_new i i) of
        [] \<Rightarrow> Some (co, ds)
      | commit # _ \<Rightarrow> do {
          sd \<leftarrow> build_committed_subdag_from_commit ds commit [];
          case sd of None \<Rightarrow> Some (co, ds) | Some sd \<Rightarrow> update_with_solid_subdags_and_flush co ds [sd] })"

primrec resend_loop ::
  "dag_state \<Rightarrow> (authority_index \<times> nat) list \<Rightarrow> commit_index \<Rightarrow> trusted_commit list \<Rightarrow> committed_sub_dag list option" where
  "resend_loop ds scores expected [] = Some []"
| "resend_loop ds scores expected (commit # commits) = do {
     assert_that (commit_index_of (tcm_inner commit) = expected);
     sd \<leftarrow> build_committed_subdag_from_commit ds commit (if commits = [] then scores else []);
     case sd of
       None \<Rightarrow> Some []
     | Some sd \<Rightarrow> do { sds \<leftarrow> resend_loop ds scores (expected + 1) commits; Some (sd # sds) } }"

definition resend_unprocessed_solid_commits ::
  "leader_schedule \<Rightarrow> commit_observer \<Rightarrow> dag_state \<Rightarrow> commit_index \<Rightarrow> commit_index \<Rightarrow> (commit_observer \<times> dag_state) option" where
  "resend_unprocessed_solid_commits ls co ds processed last_index =
     (if last_index \<le> processed then init_last_solid co ds processed
      else do {
        let commits = store_scan_commits (ds_store ds) (commit_range_new (processed + 1) last_index);
        sds \<leftarrow> resend_loop ds (lst_scores_desc (ls_swap_table ls)) (last_sent_commit_index co + 1) commits;
        (co1, ds1) \<leftarrow> (if sds = [] then init_last_solid co ds processed else Some (co, ds));
        (co2, ds2, r) \<leftarrow> finalize_and_send_solid_subdags co1 ds1 sds;
        case r of Inl _ \<Rightarrow> None | Inr _ \<Rightarrow> Some (co2, ds2) })"

text \<open>\<open>entries\<close> lists a \<open>HashMap\<close> of acknowledgments in the order of its iteration.\<close>

type_synonym ack_entries = "(round \<times> authority_index \<Rightarrow> block_ref set option) \<Rightarrow> ((round \<times> authority_index) \<times> block_ref list) list"

definition recover_linearizer_step :: "ack_entries \<Rightarrow> linearizer \<Rightarrow> pending_sub_dag \<Rightarrow> linearizer option" where
  "recover_linearizer_step entries lz sd = do {
     let lz1 = record_traversed_headers lz (sd_headers sd);
     acks \<leftarrow> transaction_acknowledgments sd;
     foldM (\<lambda>lz e. map_option fst (add_committed_transaction_acks lz (fst (fst e)) (snd (fst e)) (snd e))) lz1 (entries acks) }"

definition recover_linearizer_and_solidifier_state ::
  "ack_entries \<Rightarrow> commit_observer \<Rightarrow> dag_state \<Rightarrow> commit_index \<Rightarrow> (commit_observer \<times> dag_state) option" where
  "recover_linearizer_and_solidifier_state entries co ds last_index = do {
     let linearizer_start = max (last_index - gc_depth (co_context co) * 2) 1;
     let solidifier_start = sat_add_u32 (last_sent_commit_index co) 1;
     let commits = store_scan_commits (ds_store ds) (commit_range_new (min linearizer_start solidifier_start) last_index);
     let cs = set_last_solid_committed_index (co_solidifier co) (last_sent_commit_index co);
     (lz, pending) \<leftarrow> foldM (\<lambda>(lz, pending) commit. do {
         let i = commit_index_of (tcm_inner commit);
         sd \<leftarrow> load_pending_subdag_from_store (\<lambda>refs. Some (store_read_verified_block_headers (ds_store ds) refs)) commit [];
         lz' \<leftarrow> (if linearizer_start \<le> i then recover_linearizer_step entries lz sd else Some lz);
         Some (lz', if solidifier_start \<le> i then pending @ [sd] else pending) }) (co_linearizer co, []) commits;
     if pending = [] then Some (co\<lparr> co_linearizer := lz, co_solidifier := cs \<rparr>, ds)
     else do {
       (solid, _, cs', ds1) \<leftarrow> try_get_solid_sub_dags cs ds pending;
       (co', ds2, r) \<leftarrow> finalize_and_send_solid_subdags (co\<lparr> co_linearizer := lz, co_solidifier := cs' \<rparr>) ds1 solid;
       case r of Inl _ \<Rightarrow> None | Inr _ \<Rightarrow> Some (co', ds2) } }"

definition recover_and_send_commits ::
  "ack_entries \<Rightarrow> leader_schedule \<Rightarrow> commit_observer \<Rightarrow> dag_state \<Rightarrow> commit_index \<Rightarrow> (commit_observer \<times> dag_state) option" where
  "recover_and_send_commits entries ls co ds processed = do {
     let last_index = (case store_read_last_commit (ds_store ds) of None \<Rightarrow> 0 | Some c \<Rightarrow> commit_index_of (tcm_inner c));
     assert_that (processed \<le> last_index);
     if last_index = 0 then Some (co, ds)
     else do {
       (co1, ds1) \<leftarrow> resend_unprocessed_solid_commits ls co ds processed last_index;
       if store_read_fast_sync_ongoing (ds_store ds1) then Some (co1, ds1)
       else recover_linearizer_and_solidifier_state entries co1 ds1 last_index } }"

definition commit_observer_new ::
  "ack_entries \<Rightarrow> consensus_context \<Rightarrow> commit_index \<Rightarrow> dag_state \<Rightarrow> leader_schedule \<Rightarrow> (commit_observer \<times> dag_state) option" where
  "commit_observer_new entries ctx processed ds ls =
     recover_and_send_commits entries ls
       \<lparr> co_context = ctx, co_linearizer = linearizer_new ctx, co_solidifier = commit_solidifier_new, co_sent = [],
         co_closed = False, last_sent_commit_index = processed \<rparr> ds processed"

definition commit_observer_reinitialize ::
  "ack_entries \<Rightarrow> leader_schedule \<Rightarrow> commit_observer \<Rightarrow> dag_state \<Rightarrow> commit_index \<Rightarrow> (commit_observer \<times> dag_state) option" where
  "commit_observer_reinitialize entries ls co ds last_index =
     recover_and_send_commits entries ls
       (co\<lparr> co_linearizer := clear_state (co_linearizer co), last_sent_commit_index := last_index \<rparr>) ds last_index"

subsection \<open>The transactions the linearizer commits\<close>

text \<open>
  Every vote of the acknowledgment tracker comes from a header of the DAG: \<open>acked_by ds a r\<close>, authority
  \<open>a\<close> has a header that acknowledges \<open>r\<close>.
\<close>

definition acked_by :: "dag_state \<Rightarrow> authority_index \<Rightarrow> block_ref \<Rightarrow> bool" where
  "acked_by ds a r =
     (\<exists>h acks. header_of ds (reference h) = Some h \<and> bh_author h = a \<and> acknowledgments h = Some acks \<and> r \<in> set acks)"

definition acks_backed :: "linearizer \<Rightarrow> dag_state \<Rightarrow> bool" where
  "acks_backed lz ds =
     (\<forall>r agg. bm_get (transactions_ack_tracker lz) r = Some agg \<longrightarrow> (\<forall>a \<in> set (sa_votes agg). acked_by ds a r))"

lemma acked_by_same: "header_of ds' = header_of ds \<Longrightarrow> acked_by ds' = acked_by ds"
  by (intro ext) (simp add: acked_by_def)

lemma acks_backed_same: "header_of ds' = header_of ds \<Longrightarrow> acks_backed lz ds' = acks_backed lz ds"
  using acked_by_same [of ds' ds] by (simp only: acks_backed_def)

lemma add_ack_backed:
  assumes "acks_ok lz" "authority \<in> members (ctx_committee (lz_context lz))" "acks_backed lz ds" "acked_by ds authority ref"
    "add_ack r authority (lz, out) ref = Some (lz', out')"
  shows "acks_backed lz' ds"
proof (cases "br_round ref < r - gc_depth (lz_context lz)")
  case True
  with assms(3,5) show ?thesis by (simp add: add_ack_def)
next
  case False
  let ?c = "ctx_committee (lz_context lz)"
  define agg where "agg = (case bm_get (transactions_ack_tracker lz) ref of Some a \<Rightarrow> a | None \<Rightarrow> sa_new)"
  have "committee_ok ?c" "sa_ok ?c agg" using assms(1) by (auto simp: acks_ok_def agg_def split: option.splits)
  from sa_add_ok [OF this assms(2), of QuorumThreshold] obtain b agg' where
    agg': "sa_add QuorumThreshold agg authority ?c = Some (b, agg')" "set (sa_votes agg') = insert authority (set (sa_votes agg))" by auto
  have "lz' = lz\<lparr> transactions_ack_tracker := bm_insert ref agg' (transactions_ack_tracker lz) \<rparr>"
    using False assms(5) agg'(1) by (simp add: add_ack_def Let_def agg_def [symmetric])
  moreover have "\<forall>a \<in> set (sa_votes agg). acked_by ds a ref"
    using assms(3) by (auto simp: acks_backed_def agg_def sa_new_def split: option.splits)
  ultimately show ?thesis using assms(3,4) agg'(2) by (simp add: acks_backed_def)
qed

lemma add_acks_backed:
  assumes "acks_ok lz" "authority \<in> members (ctx_committee (lz_context lz))" "acks_backed lz ds" "\<forall>x \<in> set acks. acked_by ds authority x"
    "foldM (add_ack r authority) (lz, out) acks = Some (lz', out')"
  shows "acks_backed lz' ds"
  using assms
proof (induction acks arbitrary: lz out)
  case (Cons a acks)
  from add_ack_run [OF Cons.prems(1,2), of r out a] obtain lz1 n where
    1: "add_ack r authority (lz, out) a = Some (lz1, out @ n)" "acks_effect lz lz1 n" by blast
  then have "acks_ok lz1" "lz_context lz1 = lz_context lz" by (simp_all add: acks_effect_def)
  moreover have "acks_backed lz1 ds" using add_ack_backed [OF Cons.prems(1-3) _ 1(1)] Cons.prems(4) by simp
  ultimately show ?case using Cons.IH [of lz1 "out @ n"] Cons.prems(2,4,5) 1(1) by simp
qed simp

lemma collect_acks_backed:
  assumes "acks_ok lz" "acks_backed lz ds"
    "\<forall>h \<in> set hs. header_of ds (reference h) = Some h \<and> bh_author h \<in> members (ctx_committee (lz_context lz)) \<and> acknowledgments h \<noteq> None"
    "collect_acks lz hs = Some (lz', new)"
  shows "acks_backed lz' ds"
proof -
  have "foldM (\<lambda>(lz, out) h. do {
         acks \<leftarrow> acknowledgments h;
         (lz', refs) \<leftarrow> add_committed_transaction_acks lz (bh_round h) (bh_author h) acks;
         Some (lz', out @ refs) }) (lz, out) hs = Some (lz', new) \<Longrightarrow> acks_backed lz' ds" for out
    using assms(1-3)
  proof (induction hs arbitrary: lz out)
    case (Cons h hs)
    obtain acks where acks: "acknowledgments h = Some acks" using Cons.prems(4) by auto
    have h: "bh_author h \<in> members (ctx_committee (lz_context lz))" "header_of ds (reference h) = Some h" using Cons.prems(4) by simp_all
    from add_committed_transaction_acks_run [OF Cons.prems(2) h(1), of "bh_round h" "[]" acks] obtain lz1 n where
      1: "foldM (add_ack (bh_round h) (bh_author h)) (lz, []) acks = Some (lz1, n)" "acks_effect lz lz1 n" by auto
    then have "acks_ok lz1" "lz_context lz1 = lz_context lz" by (simp_all add: acks_effect_def)
    moreover have "acks_backed lz1 ds"
      by (rule add_acks_backed [OF Cons.prems(2) h(1) Cons.prems(3) _ 1(1)]) (use h(2) acks in \<open>auto simp: acked_by_def\<close>)
    ultimately show ?case
      using Cons.IH [of lz1 "out @ n"] Cons.prems(1,4) acks 1(1) by (simp add: add_committed_transaction_acks_def)
  qed simp
  from this [of "[]"] assms(4) show ?thesis by (simp add: collect_acks_def)
qed

lemma evict_linearizer_backed: "acks_ok lz \<Longrightarrow> acks_backed lz ds \<Longrightarrow> acks_backed (evict_linearizer lz r) ds"
  by (auto simp: acks_backed_def evict_linearizer_def Let_def acks_ok_def bm_get_split_off split: if_splits)

text \<open>\<open>new\<close> are the block references whose transactions got their quorum between two states of the linearizer.\<close>

definition acks_gain :: "linearizer \<Rightarrow> linearizer \<Rightarrow> block_ref list \<Rightarrow> bool" where
  "acks_gain lz lz' new =
     (distinct new \<and> (\<forall>r. quorum_acked lz r \<longrightarrow> quorum_acked lz' r) \<and>
      (\<forall>r \<in> set new. \<not> quorum_acked lz r \<and> quorum_acked lz' r \<and>
         (consensus_commit_transactions_only_for_traversed_headers (lz_context lz) \<longrightarrow> r \<in> set (traversed_headers_tracker lz'))) \<and>
      lz_context lz' = lz_context lz \<and> set (traversed_headers_tracker lz) \<subseteq> set (traversed_headers_tracker lz'))"

lemma acks_gain_refl: "acks_gain lz lz []"
  by (simp add: acks_gain_def)

lemma acks_gain_trans: "acks_gain lz lz1 xs \<Longrightarrow> acks_gain lz1 lz2 ys \<Longrightarrow> acks_gain lz lz2 (xs @ ys)"
  unfolding acks_gain_def by (auto 0 3)

lemma step_transactions:
  assumes ok: "dag_ok ds" "dag_linear ds" "lz_ok lz ds"
    and run: "pending_sub_dag_step digest_of scores (sds, lz, ds) (i, l) = Some (sds @ [sd], lz', ds')" and sd: "sub_dag_for ds l sd commit"
  shows "\<exists>new. acks_gain lz lz' new \<and>
    committed_transaction_refs ds (consensus_fast_commit_sync (ds_ctx ds)) new = Some (psd_committed_transaction_refs sd)"
    and "acks_backed lz ds \<Longrightarrow> acks_backed lz' ds"
proof -
  have ctx: "lz_context lz = ds_ctx ds" "acks_ok lz" using ok(3) by (simp_all add: lz_ok_def)
  from run obtain hs ts new txs c where
    "collect_acks (record_traversed_headers lz hs) hs = Some (lz', new)"
    "committed_transaction_refs ds (consensus_fast_commit_sync (ds_ctx ds)) new = Some txs"
    "Commit_new (consensus_fast_commit_sync (ds_ctx ds)) (last_commit_index ds + 1) (last_commit_digest ds) ts
       (reference l) (map reference hs) txs (if i = 0 then scores else []) = Some c"
    "sd_headers sd = hs" "psd_committed_transaction_refs sd = commit_committed_transactions c"
    by (auto simp: pending_sub_dag_step_def collect_sub_dag_and_commit_def Option.bind_eq_Some_conv Let_def ctx(1) pending_sub_dag_new_def
        split: if_splits)
  note r = this
  have in_dag: "\<forall>h \<in> set hs. header_of ds (reference h) = Some h" using sd r(4) by (simp add: sub_dag_for_def)
  then have acks: "\<forall>h \<in> set hs. bh_author h \<in> members (ctx_committee (lz_context (record_traversed_headers lz hs))) \<and> acknowledgments h \<noteq> None"
    using ok(2) header_of_author [OF ok(1)] ctx(1) unfolding dag_linear_def by force
  with collect_acks_run [of "record_traversed_headers lz hs" hs] ctx(2) r(1) have
    eff: "acks_effect (record_traversed_headers lz hs) lz' new" by auto
  have "acks_gain lz lz' new"
    using eff set_record_traversed [of lz hs] unfolding acks_gain_def acks_effect_def by auto
  moreover have "psd_committed_transaction_refs sd = txs" using Commit_new_accessors [OF r(3)] r(5) by simp
  ultimately show "\<exists>new. acks_gain lz lz' new \<and>
    committed_transaction_refs ds (consensus_fast_commit_sync (ds_ctx ds)) new = Some (psd_committed_transaction_refs sd)" using r(2) by blast
  show "acks_backed lz' ds" if "acks_backed lz ds"
    by (rule collect_acks_backed [OF _ _ _ r(1)]) (use that in_dag acks ctx(2) in \<open>simp_all add: acks_backed_def\<close>)
qed

lemma committed_transaction_refs_same:
  "header_of ds' = header_of ds \<Longrightarrow> committed_transaction_refs ds' fast refs = committed_transaction_refs ds fast refs"
  unfolding committed_transaction_refs_def transactions_commitments_map by metis

lemma transactions_of_cong:
  assumes "ds_genesis ds' = ds_genesis ds" "recent_transactions_by_authority ds' = recent_transactions_by_authority ds" "ds_store ds' = ds_store ds"
  shows "transactions_of ds' = transactions_of ds"
proof -
  have "get_genesis_block ds' g = get_genesis_block ds g" for g
    by (cases g) (simp_all add: find_genesis_by_transaction_ref_def assms(1))
  with assms(2,3) show ?thesis by (simp add: transactions_of_def fun_eq_iff split: option.split)
qed

lemma add_commit_transactions:
  assumes "next_commit ds commit" "add_commit ds commit = Some ds'"
  shows "transactions_of ds' = transactions_of ds"
  by (rule transactions_of_cong) (use assms(2) in \<open>auto simp: add_commit_fresh [OF assms(1)] Option.bind_eq_Some_conv\<close>)

lemma get_pending_sub_dags_transactions:
  assumes "dag_ok ds" "dag_linear ds" "lz_ok lz ds" "flags_ok (ds_ctx ds)" "\<forall>l \<in> set leaders. leader_ok ds l"
    "sorted_wrt (<) (last_commit_round ds # map bh_round leaders)"
    "foldM (pending_sub_dag_step digest_of scores) (sds0, lz, ds) (List.enumerate n leaders) = Some (sds0 @ sds, lz', ds')"
  shows "last_commit_index ds' = last_commit_index ds + length leaders \<and> transactions_of ds' = transactions_of ds \<and>
    (acks_backed lz ds \<longrightarrow> acks_backed lz' ds) \<and>
    (\<exists>news. acks_gain lz lz' (concat news) \<and>
     list_all2 (\<lambda>sd new. committed_transaction_refs ds (consensus_fast_commit_sync (ds_ctx ds)) new = Some (psd_committed_transaction_refs sd)) sds news)"
  using assms
proof (induction leaders arbitrary: ds lz sds0 sds n)
  case Nil
  then show ?case by (auto simp: acks_gain_refl intro: exI [of _ "[]"])
next
  case (Cons l ls)
  have l: "leader_ok ds l" "last_commit_round ds < bh_round l" using Cons.prems by auto
  from pending_step_run [OF Cons.prems(1-4) l, of digest_of scores sds0 n] obtain sd commit lz1 ds1 where
    step: "pending_sub_dag_step digest_of scores (sds0, lz, ds) (n, l) = Some (sds0 @ [sd], lz1, ds1)"
    and sd: "sub_dag_for ds l sd commit" "next_commit ds commit" "add_commit ds commit = Some ds1" "dag_ok ds1"
      "header_of ds1 = header_of ds" "last_commit ds1 = Some commit"
    and ctx: "ds_ctx ds1 = ds_ctx ds" "lz_ok lz1 ds1"
    by (elim exE conjE) (rule that; assumption)
  have same: "dag_linear ds1" "flags_ok (ds_ctx ds1)" "\<forall>l \<in> set ls. leader_ok ds1 l"
    using Cons.prems(2,4,5) sd(5) ctx(1) by (simp_all add: dag_linear_def leader_ok_def)
  have "last_commit_round ds1 = bh_round l"
    using sd(1,6) by (simp add: last_commit_round_def commit_round_def sub_dag_for_def)
  with Cons.prems(6) have sorted: "sorted_wrt (<) (last_commit_round ds1 # map bh_round ls)" by simp
  have rest: "foldM (pending_sub_dag_step digest_of scores) (sds0 @ [sd], lz1, ds1) (List.enumerate (Suc n) ls) = Some (sds0 @ sds, lz', ds')"
    using Cons.prems(7) step by simp
  from pending_steps_run [OF sd(4) same(1) ctx(2) same(2,3) sorted, of digest_of scores "sds0 @ [sd]" "Suc n"] rest obtain sds1 where
    sds1: "sds = sd # sds1" by auto
  with rest have "foldM (pending_sub_dag_step digest_of scores) (sds0 @ [sd], lz1, ds1) (List.enumerate (Suc n) ls) = Some ((sds0 @ [sd]) @ sds1, lz', ds')" by simp
  note IH = Cons.IH [OF sd(4) same(1) ctx(2) same(2,3) sorted this]
  have "last_commit_index ds1 = last_commit_index ds + 1" using sd(2,6) by (simp add: last_commit_index_def next_commit_def)
  with IH add_commit_transactions [OF sd(2,3)] have
    "last_commit_index ds' = last_commit_index ds + length (l # ls)" "transactions_of ds' = transactions_of ds" by simp_all
  moreover have "acks_backed lz ds \<longrightarrow> acks_backed lz' ds"
    using IH step_transactions(2) [OF Cons.prems(1-3) step sd(1)] acks_backed_same [OF sd(5)] by blast
  moreover from IH obtain news where
    "acks_gain lz1 lz' (concat news)"
    "list_all2 (\<lambda>sd new. committed_transaction_refs ds (consensus_fast_commit_sync (ds_ctx ds)) new = Some (psd_committed_transaction_refs sd)) sds1 news"
    unfolding committed_transaction_refs_same [OF sd(5)] ctx(1) by blast
  moreover from step_transactions(1) [OF Cons.prems(1-3) step sd(1)] obtain new where
    "acks_gain lz lz1 new" "committed_transaction_refs ds (consensus_fast_commit_sync (ds_ctx ds)) new = Some (psd_committed_transaction_refs sd)" by blast
  ultimately show ?case using acks_gain_trans [of lz lz1 new lz' "concat news"]
    by (intro conjI exI [of _ "new # news"]) (simp_all add: sds1)
qed

text \<open>The reference under which the transactions of a header are committed.\<close>

definition tx_key :: "dag_state \<Rightarrow> block_ref \<Rightarrow> generic_transaction_ref" where
  "tx_key ds r =
     (if ds_fast ds then GTransactionRef (TransactionRef (br_round r) (br_author r) (bh_transactions_commitment (the (header_of ds r))))
      else GBlockRef r)"

text \<open>
  Under fast commit sync two headers of one author and round that carry the same transactions share
  this reference, so an author that equivocates could make two entries of the acknowledgment tracker
  stand for one batch. A validator acknowledges at most one of them: \<open>DagState::add_transactions\<close>
  returns before the acknowledgment when the reference is already recorded
  (\<open>acknowledged_once\<close> in \<open>Acknowledgments\<close>).
\<close>

definition acknowledges_once :: "dag_state \<Rightarrow> authority_index set \<Rightarrow> bool" where
  "acknowledges_once ds honest =
     (\<forall>a \<in> honest. \<forall>r r'. acked_by ds a r \<and> acked_by ds a r' \<and> header_of ds r \<noteq> None \<and> header_of ds r' \<noteq> None \<and>
        tx_key ds r = tx_key ds r' \<longrightarrow> r = r')"

lemma acknowledges_once_slow: "\<not> ds_fast ds \<Longrightarrow> acknowledges_once ds honest"
  by (auto simp: acknowledges_once_def tx_key_def)

text \<open>Two acknowledged quorums meet in an honest authority, so what they stand for is one batch.\<close>

lemma quorum_acked_keys_differ:
  assumes lz: "acks_ok lz" "acks_backed lz ds" "ctx_committee (lz_context lz) = ds_committee ds"
    and honest: "stake_sum (ds_committee ds) (members (ds_committee ds) - honest) < validity_threshold (ds_committee ds)"
      "acknowledges_once ds honest"
    and acked: "quorum_acked lz r" "quorum_acked lz r'" "header_of ds r \<noteq> None" "header_of ds r' \<noteq> None"
    and same: "tx_key ds r = tx_key ds r'"
  shows "r = r'"
proof -
  let ?c = "ds_committee ds"
  have voters: "\<exists>A. A \<subseteq> members ?c \<and> quorum_threshold ?c \<le> stake_sum ?c A \<and> (\<forall>a \<in> A. acked_by ds a x)" if x: "quorum_acked lz x" for x
  proof -
    obtain agg where agg: "bm_get (transactions_ack_tracker lz) x = Some agg" "sa_reached_threshold QuorumThreshold agg ?c"
      using x lz(3) by (auto simp: quorum_acked_def split: option.splits)
    have "sa_ok ?c agg" using lz(1,3) agg(1) by (simp add: acks_ok_def)
    then have "set (sa_votes agg) \<subseteq> members ?c" "quorum_threshold ?c \<le> stake_sum ?c (set (sa_votes agg))"
      using agg(2) sa_ok_threshold by (auto simp: sa_ok_def reached_quorum_def)
    moreover have "\<forall>a \<in> set (sa_votes agg). acked_by ds a x" using lz(2) agg(1) by (auto simp: acks_backed_def)
    ultimately show ?thesis by blast
  qed
  from voters [OF acked(1)] voters [OF acked(2)] obtain A B where
    A: "A \<subseteq> members ?c" "quorum_threshold ?c \<le> stake_sum ?c A" "\<forall>a \<in> A. acked_by ds a r" and
    B: "B \<subseteq> members ?c" "quorum_threshold ?c \<le> stake_sum ?c B" "\<forall>a \<in> B. acked_by ds a r'" by blast
  have "committee_ok ?c" using lz(1,3) by (simp add: acks_ok_def)
  from committee_share_honest [OF this A(1) B(1) _ A(2) B(2) honest(1)] obtain a where "a \<in> A \<inter> B" "a \<in> honest"
    using A(1) by blast
  with A(3) B(3) honest(2) acked(3,4) same show ?thesis unfolding acknowledges_once_def by blast
qed

lemma committed_transaction_refs_keys:
  assumes "committed_transaction_refs ds (ds_fast ds) refs = Some txs" "\<forall>r \<in> set refs. header_of ds r \<noteq> None"
  shows "txs = map (tx_key ds) refs"
proof (cases "ds_fast ds")
  case True
  let ?f = "\<lambda>(r, commitment). do { d \<leftarrow> commitment; Some (GTransactionRef (TransactionRef (br_round r) (br_author r) d)) }"
  have "mapM ?f (zip rs (map (\<lambda>r. if br_round r = 0 then None else map_option bh_transactions_commitment (header_of ds r)) rs)) = Some ts \<Longrightarrow>
      \<forall>r \<in> set rs. header_of ds r \<noteq> None \<Longrightarrow> ts = map (tx_key ds) rs" for rs ts
    by (induction rs arbitrary: ts) (auto simp: tx_key_def True Option.bind_eq_Some_conv split: if_splits)
  with assms True show ?thesis by (simp add: committed_transaction_refs_def transactions_commitments_map)
next
  case False
  with assms(1) show ?thesis by (auto simp: committed_transaction_refs_def tx_key_def)
qed

lemma tx_key_ok:
  assumes "dag_ok ds" "header_of ds r \<noteq> None"
  shows "gtr_author (tx_key ds r) \<in> members (ds_committee ds) \<and> commit_ref_kind (ds_fast ds) (tx_key ds r)"
  using assms header_of_cases [OF assms(1), of r] by (auto simp: tx_key_def commit_ref_kind_def)

lemma pending_refs_ok:
  assumes ok: "dag_ok ds" "inj_on (tx_key ds) (set (concat news))"
    and new: "distinct (concat news)" "\<forall>r \<in> set (concat news). header_of ds r \<noteq> None"
    and sds: "list_all2 (\<lambda>sd new. committed_transaction_refs ds (ds_fast ds) new = Some (psd_committed_transaction_refs sd)) sds news"
  shows "\<forall>sd \<in> set sds. refs_ok ds (psd_committed_transaction_refs sd)" "distinct (concat (map psd_committed_transaction_refs sds))"
proof -
  have "map psd_committed_transaction_refs sds = map (map (tx_key ds)) news"
    using sds new(2)
  proof (induction rule: list_all2_induct)
    case (Cons sd sds n news)
    with committed_transaction_refs_keys [of ds n] show ?case by simp
  qed simp
  then have keys: "concat (map psd_committed_transaction_refs sds) = map (tx_key ds) (concat news)" by (simp add: map_concat)
  show "distinct (concat (map psd_committed_transaction_refs sds))" using new(1) ok(2) unfolding keys by (simp only: distinct_map)
  have "\<forall>g \<in> set (concat (map psd_committed_transaction_refs sds)). gtr_author g \<in> members (ds_committee ds) \<and> commit_ref_kind (ds_fast ds) g"
    unfolding keys using tx_key_ok [OF ok(1)] new(2) by auto
  then show "\<forall>sd \<in> set sds. refs_ok ds (psd_committed_transaction_refs sd)" by (auto simp: refs_ok_def)
qed

subsection \<open>Sending in order\<close>

lemma send_loop_run:
  assumes "map (\<lambda>sd. cr_index (sd_commit_ref sd)) sds = [last_sent_commit_index co + 1..<last_sent_commit_index co + 1 + length sds]" "\<not> co_closed co"
  shows "\<exists>is. send_loop co sent sds =
    Some (co\<lparr> co_sent := co_sent co @ sds, last_sent_commit_index := last_sent_commit_index co + length sds \<rparr>, Inr is)"
  using assms
proof (induction sds arbitrary: co sent)
  case (Cons sd sds)
  let ?co = "co\<lparr> co_sent := co_sent co @ [sd], last_sent_commit_index := last_sent_commit_index co + 1 \<rparr>"
  have "cr_index (sd_commit_ref sd) = last_sent_commit_index co + 1"
    "map (\<lambda>sd. cr_index (sd_commit_ref sd)) sds = [last_sent_commit_index ?co + 1..<last_sent_commit_index ?co + 1 + length sds]"
    using Cons.prems(1) by (simp_all add: upt_conv_Cons del: upt_Suc)
  with Cons.IH [of ?co "sent @ [last_sent_commit_index co + 1]"] Cons.prems(2) show ?case by (auto simp: Let_def)
qed simp

lemma evict_linearizer_ok: "lz_ok lz ds \<Longrightarrow> lz_ok (evict_linearizer lz r) ds"
  using evict_linearizer_facts(1,2) [of lz r] unfolding lz_ok_def
  by (auto simp: evict_linearizer_def Let_def)

lemma report_metrics_run:
  assumes "dag_ok ds" "co_context co = ds_ctx ds"
    "\<forall>sd \<in> set sds. \<forall>t \<in> set (csd_transactions sd). tr_author (vt_transaction_ref t) \<in> members (ds_committee ds)"
  shows "report_metrics co ds sds = Some ()"
proof -
  let ?host = "\<lambda>t. authority_at (ctx_committee (co_context co)) (tr_author (vt_transaction_ref t))"
  let ?f = "\<lambda>sd. do { mapM ?host (csd_transactions sd);
    get_cached_block_headers_for_transaction_refs ds (map vt_transaction_ref (csd_transactions sd)) }"
  have "?f sd \<noteq> None" if sd: "sd \<in> set sds" for sd
  proof -
    have "\<forall>t \<in> set (csd_transactions sd). ?host t \<noteq> None"
      using assms(2,3) sd by (auto simp: authority_at_def members_def size_of_def)
    then obtain hosts where "mapM ?host (csd_transactions sd) = Some hosts" using mapM_total [of "csd_transactions sd" ?host] by blast
    moreover have "tr_author (vt_transaction_ref t) < length (tx_ref_to_block_digest_by_authority ds)" if "t \<in> set (csd_transactions sd)" for t
      using assms(1,3) sd that by (auto simp: dag_ok_def members_def)
    then have "\<exists>hs. get_cached_block_headers_for_transaction_refs ds (map vt_transaction_ref (csd_transactions sd)) = Some hs"
      unfolding get_cached_block_headers_for_transaction_refs_def by (intro mapM_total) (auto simp: resolve_block_ref_def)
    ultimately show ?thesis by auto
  qed
  then obtain ys where "mapM ?f sds = Some ys" using mapM_total [of sds ?f] by blast
  then show ?thesis by (simp add: report_metrics_def)
qed

lemma update_and_flush_run:
  assumes ok: "dag_ok ds" and lz: "lz_ok (co_linearizer co) ds"
  shows "\<exists>lz' ds'. update_with_solid_subdags_and_flush co ds sds = Some (co\<lparr> co_linearizer := lz' \<rparr>, ds') \<and> lz_ok lz' ds' \<and>
    dag_ok ds' \<and> header_of ds' = header_of ds \<and> ds_ctx ds' = ds_ctx ds \<and> last_commit ds' = last_commit ds \<and>
    last_committed_rounds ds' = last_committed_rounds ds \<and> (acks_backed (co_linearizer co) ds \<longrightarrow> acks_backed lz' ds')"
proof -
  let ?lz = "if sds = [] then co_linearizer co else evict_linearizer (co_linearizer co) (br_round (sd_leader (last sds)))"
  let ?ds = "if sds = [] then ds else ds\<lparr> last_solid_subdag_base := Some (sub_dag_base.truncate (last sds)) \<rparr>"
  have "last_committed_rounds ds \<noteq> []"
    using dag_ok_rounds [OF ok] dag_ok_committee [OF ok] by (auto simp: rounds_ok_def committee_ok_def size_of_def)
  then have run: "update_with_solid_subdags_and_flush co ds sds = map_option (Pair (co\<lparr> co_linearizer := ?lz \<rparr>)) (flush ?ds)"
    by (auto simp: update_with_solid_subdags_and_flush_def update_last_solid_subdag_base_def map_conv_bind_option comp_def split: option.splits)
  have "dag_ok ?ds" using ok by (auto simp: dag_ok_def last_commit_round_def)
  from flush_run [OF this] obtain ds' where ds': "flush ?ds = Some ds'" "flushed ?ds ds'" by blast
  have "header_of ?ds = header_of ds" by (auto intro: header_of_cong)
  with ds'(2) have same: "dag_ok ds'" "header_of ds' = header_of ds" "ds_ctx ds' = ds_ctx ds" "last_commit ds' = last_commit ds"
    "last_committed_rounds ds' = last_committed_rounds ds" by (auto simp: flushed_def)
  have "lz_ok ?lz ds'" using evict_linearizer_ok [OF lz] lz same(2,3) by (auto simp: lz_ok_def)
  moreover have "acks_backed (co_linearizer co) ds \<longrightarrow> acks_backed ?lz ds'"
    using evict_linearizer_backed lz acks_backed_same [OF same(2)] by (auto simp: lz_ok_def)
  ultimately show ?thesis using run ds'(1) same by (intro exI [of _ ?lz] exI [of _ ds']) simp
qed

lemma finalize_run:
  assumes ok: "dag_ok ds" "lz_ok (co_linearizer co) ds" "co_context co = ds_ctx ds" "\<not> co_closed co"
    and sds: "map (\<lambda>sd. cr_index (sd_commit_ref sd)) sds = [last_sent_commit_index co + 1..<last_sent_commit_index co + 1 + length sds]"
    and txs: "\<forall>sd \<in> set sds. \<forall>t \<in> set (csd_transactions sd). tr_author (vt_transaction_ref t) \<in> members (ds_committee ds)"
  shows "\<exists>lz' ds'. finalize_and_send_solid_subdags co ds sds = Some (co\<lparr> co_linearizer := lz', co_sent := co_sent co @ sds,
      last_sent_commit_index := last_sent_commit_index co + length sds \<rparr>, ds', Inr ()) \<and> lz_ok lz' ds' \<and>
    dag_ok ds' \<and> header_of ds' = header_of ds \<and> ds_ctx ds' = ds_ctx ds \<and> last_commit ds' = last_commit ds \<and>
    (acks_backed (co_linearizer co) ds \<longrightarrow> acks_backed lz' ds')"
proof -
  from update_and_flush_run [OF ok(1,2), of sds] obtain lz' ds' where
    u: "update_with_solid_subdags_and_flush co ds sds = Some (co\<lparr> co_linearizer := lz' \<rparr>, ds')" "lz_ok lz' ds'" "dag_ok ds'"
      "header_of ds' = header_of ds" "ds_ctx ds' = ds_ctx ds" "last_commit ds' = last_commit ds"
      "acks_backed (co_linearizer co) ds \<longrightarrow> acks_backed lz' ds'" by blast
  let ?co = "co\<lparr> co_linearizer := lz', co_sent := co_sent co @ sds, last_sent_commit_index := last_sent_commit_index co + length sds \<rparr>"
  from send_loop_run [of sds "co\<lparr> co_linearizer := lz' \<rparr>" "[]"] sds ok(4) obtain sent where
    "send_loop (co\<lparr> co_linearizer := lz' \<rparr>) [] sds = Some (?co, Inr sent)" by auto
  then have "send_sub_dags (co\<lparr> co_linearizer := lz' \<rparr>) sds = Some (?co, Inr sent) \<or> sds = []" by (simp add: send_sub_dags_def)
  then obtain sent' where "send_sub_dags (co\<lparr> co_linearizer := lz' \<rparr>) sds = Some (?co, Inr sent')" by (auto simp: send_sub_dags_def)
  moreover have "report_metrics ?co ds' sds = Some ()" using report_metrics_run [OF u(3), of ?co sds] ok(3) u(5) txs by simp
  ultimately have "finalize_and_send_solid_subdags co ds sds = Some (?co, ds', Inr ())"
    using u(1) by (simp add: finalize_and_send_solid_subdags_def)
  with u(2-7) show ?thesis by blast
qed

lemma ack_authors_run:
  assumes "dag_ok ds" "refs_ok ds missing"
  shows "\<exists>m. get_transaction_ack_authors lz ds missing = Some m"
proof -
  have "\<exists>m'. foldM (\<lambda>m g. do {
         br \<leftarrow> (case g of GBlockRef b \<Rightarrow> Some (Some b) | GTransactionRef t \<Rightarrow> resolve_block_ref ds t);
         Some (case br of
             None \<Rightarrow> m
           | Some b \<Rightarrow> (case bm_get (transactions_ack_tracker lz) b of
               None \<Rightarrow> m | Some agg \<Rightarrow> bm_insert g (sa_votes agg) m)) }) m missing = Some m'" for m
    using assms(2)
  proof (induction missing arbitrary: m)
    case (Cons g missing)
    have "(case g of GBlockRef b \<Rightarrow> Some (Some b) | GTransactionRef t \<Rightarrow> resolve_block_ref ds t) \<noteq> None"
      using Cons.prems assms(1) by (auto simp: refs_ok_def resolve_block_ref_def dag_ok_def members_def split: generic_transaction_ref.splits)
    then obtain br where "(case g of GBlockRef b \<Rightarrow> Some (Some b) | GTransactionRef t \<Rightarrow> resolve_block_ref ds t) = Some br" by blast
    with Cons show ?case by (simp add: refs_ok_def)
  qed simp
  then show ?thesis by (simp add: get_transaction_ack_authors_def)
qed

text \<open>
  The observer between two calls: it holds exactly the commits after the last one sent, and the votes of
  its linearizer come from headers of the DAG. The transactions in the DAG state are keyed by
  references of members.
\<close>

definition observer_ok :: "commit_observer \<Rightarrow> dag_state \<Rightarrow> bool" where
  "observer_ok co ds =
     (co_context co = ds_ctx ds \<and> \<not> co_closed co \<and> lz_ok (co_linearizer co) ds \<and> acks_backed (co_linearizer co) ds \<and> solidifier_ok (co_solidifier co) ds \<and>
      last_sent_commit_index co = last_solid_committed_index (co_solidifier co) \<and>
      (\<forall>k. bm_get (pending_subdags (co_solidifier co)) k \<noteq> None \<longleftrightarrow> last_sent_commit_index co < k \<and> k \<le> last_commit_index ds) \<and>
      last_sent_commit_index co \<le> last_commit_index ds)"

definition transactions_keyed :: "dag_state \<Rightarrow> bool" where
  "transactions_keyed ds = (\<forall>g t. gtr_author g \<in> members (ds_committee ds) \<and> transactions_of ds g = Some t \<longrightarrow>
     tr_author (vt_transaction_ref t) \<in> members (ds_committee ds))"

text \<open>The sub-dags of a run of the linearizer, as the solidifier needs them.\<close>

lemma linearized_run:
  assumes ok: "dag_ok ds" "dag_linear ds" "lz_ok lz ds" "flags_ok (ds_ctx ds)" "\<forall>l \<in> set leaders. leader_ok ds l"
    and sorted: "sorted_wrt (<) (last_commit_round ds # map bh_round leaders)"
    and backed: "acks_backed lz ds" and traversed: "consensus_commit_transactions_only_for_traversed_headers (ds_ctx ds)"
    and honest: "stake_sum (ds_committee ds) (members (ds_committee ds) - honest) < validity_threshold (ds_committee ds)"
      "acknowledges_once ds honest"
  shows "\<exists>sds commits lz' ds'. get_pending_sub_dags digest_of ls lz ds leaders = Some (sds, lz', ds') \<and>
    commits_run ds leaders sds commits ds' \<and> dag_ok ds' \<and> header_of ds' = header_of ds \<and> ds_ctx ds' = ds_ctx ds \<and> lz_ok lz' ds' \<and> acks_backed lz' ds' \<and>
    last_commit_index ds' = last_commit_index ds + length leaders \<and> transactions_of ds' = transactions_of ds \<and>
    (\<forall>sd \<in> set sds. refs_ok ds (psd_committed_transaction_refs sd)) \<and> distinct (concat (map psd_committed_transaction_refs sds))"
proof (cases "leaders = []")
  case True
  with ok(1,3) backed show ?thesis
    by (intro exI [of _ "[] :: pending_sub_dag list"] exI [of _ "[] :: trusted_commit list"] exI [of _ lz] exI [of _ ds])
      (simp add: get_pending_sub_dags_def commits_run_def)
next
  case False
  let ?scores = "if leader_schedule_updated ds then lst_scores_desc (ls_swap_table ls) else []"
  from pending_steps_run [OF ok sorted, of digest_of ?scores "[]" 0] obtain sds commits lz' ds' where
    run: "foldM (pending_sub_dag_step digest_of ?scores) ([], lz, ds) (List.enumerate 0 leaders) = Some (sds, lz', ds')"
      "commits_run ds leaders sds commits ds'" "dag_ok ds'" "header_of ds' = header_of ds" "ds_ctx ds' = ds_ctx ds" "lz_ok lz' ds'" by auto
  from get_pending_sub_dags_transactions [OF ok sorted, of digest_of ?scores "[]" 0 sds lz' ds'] run(1) obtain news where
    news: "last_commit_index ds' = last_commit_index ds + length leaders" "transactions_of ds' = transactions_of ds"
      "acks_gain lz lz' (concat news)"
      "list_all2 (\<lambda>sd new. committed_transaction_refs ds (ds_fast ds) new = Some (psd_committed_transaction_refs sd)) sds news" "acks_backed lz' ds" using backed by auto
  have in_dag: "\<forall>r \<in> set (concat news). header_of ds r \<noteq> None"
    using news(3) run(4,6) traversed ok(3) unfolding acks_gain_def lz_ok_def by auto
  have "acks_ok lz'" "ctx_committee (lz_context lz') = ds_committee ds" using run(5,6) by (simp_all add: lz_ok_def)
  from quorum_acked_keys_differ [OF this(1) news(5) this(2) honest] in_dag news(3)
  have "inj_on (tx_key ds) (set (concat news))" unfolding acks_gain_def by (meson inj_onI)
  moreover have "distinct (concat news)" using news(3) by (simp add: acks_gain_def)
  ultimately have refs: "\<forall>sd \<in> set sds. refs_ok ds (psd_committed_transaction_refs sd)" "distinct (concat (map psd_committed_transaction_refs sds))"
    using pending_refs_ok [OF ok(1) _ _ in_dag news(4)] by blast+
  have "get_pending_sub_dags digest_of ls lz ds leaders = Some (sds, lz', ds')"
    using False run(1) by (simp add: get_pending_sub_dags_def)
  with run(2-6) news(1,2,5) refs acks_backed_same [OF run(4)] show ?thesis by blast
qed

lemma commits_run_indices:
  assumes "commits_run ds leaders sds commits ds'"
  shows "map (\<lambda>sd. cr_index (sd_commit_ref sd)) sds = [last_commit_index ds + 1..<last_commit_index ds + 1 + length leaders]"
proof -
  have refs: "map sd_commit_ref sds = map tcm_reference commits"
    and indices: "map (commit_index_of \<circ> tcm_inner) commits = [last_commit_index ds + 1..<last_commit_index ds + 1 + length leaders]"
    using assms unfolding commits_run_def by blast+
  have "map (\<lambda>sd. cr_index (sd_commit_ref sd)) sds = map cr_index (map sd_commit_ref sds)" by simp
  also have "\<dots> = map (commit_index_of \<circ> tcm_inner) commits" unfolding refs by (simp add: tcm_reference_def)
  finally show ?thesis unfolding indices .
qed

lemma buffered_range:
  assumes "\<And>k. bm_get (pending_subdags cs) k \<noteq> None \<longleftrightarrow> lo < k \<and> k \<le> hi" "lo \<le> hi"
    and "map (\<lambda>sd. cr_index (sd_commit_ref sd)) sds = [hi + 1..<hi + 1 + n]"
  shows "buffered cs sds k \<noteq> None \<longleftrightarrow> lo < k \<and> k \<le> hi + n"
proof -
  have "find (\<lambda>sd. cr_index (sd_commit_ref sd) = k) sds \<noteq> None \<longleftrightarrow> k \<in> set (map (\<lambda>sd. cr_index (sd_commit_ref sd)) sds)"
    by (auto simp: find_None_iff)
  also have "\<dots> \<longleftrightarrow> hi < k \<and> k \<le> hi + n" unfolding assms(3) by auto
  finally show ?thesis using assms(1) [of k] assms(2) by (auto simp: buffered_def split: option.splits)
qed

lemma commit_votes_rest:
  "ds_ctx (update_pending_commit_votes ds refs) = ds_ctx ds" "last_commit (update_pending_commit_votes ds refs) = last_commit ds"
  by (simp_all add: update_pending_commit_votes_def)

lemma solid_out:
  assumes "map (\<lambda>sd. cr_index (sd_commit_ref sd)) out = [i + 1..<j + 1]"
    "out = map (\<lambda>k. solid_sub_dag ds (the (buffered cs sds k))) [i + 1..<j + 1]"
    "\<forall>k. i < k \<and> k \<le> j \<longrightarrow> (\<exists>p. buffered cs sds k = Some p \<and> available ds p)" "sd \<in> set out"
  shows "\<exists>p. buffered cs sds (cr_index (sd_commit_ref sd)) = Some p \<and> available ds p \<and> sd = solid_sub_dag ds p"
proof -
  from assms(4) obtain n where n: "n < length out" "sd = out ! n" by (auto simp: in_set_conv_nth)
  have len: "length out = j - i" using arg_cong [OF assms(1), of length] by (simp del: upt_Suc)
  have "cr_index (sd_commit_ref sd) = map (\<lambda>sd. cr_index (sd_commit_ref sd)) out ! n" using n by simp
  also have "\<dots> = i + 1 + n" using n(1) len unfolding assms(1) by (simp del: upt_Suc)
  finally have k: "cr_index (sd_commit_ref sd) = i + 1 + n" .
  have "i < i + 1 + n \<and> i + 1 + n \<le> j" using n(1) len by linarith
  with assms(3) obtain p where p: "buffered cs sds (i + 1 + n) = Some p" "available ds p" by blast
  have "sd = map (\<lambda>k. solid_sub_dag ds (the (buffered cs sds k))) [i + 1..<j + 1] ! n" using n(2) assms(2) by simp
  also have "\<dots> = solid_sub_dag ds p" using n(1) len p(1) by (simp del: upt_Suc)
  finally show ?thesis using k p by simp
qed

lemma solid_authors:
  assumes "transactions_keyed ds" "refs_ok ds (psd_committed_transaction_refs p)" "available ds p"
    "t \<in> set (csd_transactions (solid_sub_dag ds p))"
  shows "tr_author (vt_transaction_ref t) \<in> members (ds_committee ds)"
  using assms by (auto simp: transactions_keyed_def refs_ok_def available_def solid_sub_dag_def committed_sub_dag_of_def)

text \<open>What the solidifier promises after a step, and what the observer keeps of it.\<close>

definition solidified ::
  "commit_solidifier \<Rightarrow> dag_state \<Rightarrow> pending_sub_dag list \<Rightarrow> committed_sub_dag list \<Rightarrow> commit_solidifier \<Rightarrow> bool" where
  "solidified cs ds sds out cs' =
     (let i = last_solid_committed_index cs; j = last_solid_committed_index cs' in
      solidifier_ok cs' ds \<and> i \<le> j \<and> map (\<lambda>sd. cr_index (sd_commit_ref sd)) out = [i + 1..<j + 1] \<and>
      (\<forall>sd \<in> set out. \<exists>p. buffered cs sds (cr_index (sd_commit_ref sd)) = Some p \<and> available ds p \<and> sd = solid_sub_dag ds p) \<and>
      (\<forall>k. i < k \<and> k \<le> j \<longrightarrow> buffered cs sds k \<noteq> None) \<and>
      (\<forall>sd. buffered cs sds (j + 1) = Some sd \<longrightarrow> \<not> available ds sd) \<and>
      (\<forall>k. bm_get (pending_subdags cs') k = (if i < k \<and> k \<le> j then None else buffered cs sds k)))"

lemma solidified_run:
  assumes ok: "dag_ok ds" "solidifier_ok cs ds" and new: "\<forall>sd \<in> set sds. refs_ok ds (psd_committed_transaction_refs sd)"
    and once: "distinct (concat (map psd_committed_transaction_refs sds))"
  shows "\<exists>out missing cs' ds'. try_get_solid_sub_dags cs ds sds = Some (out, missing, cs', ds') \<and> solidified cs ds sds out cs' \<and>
    refs_ok ds' missing \<and> dag_ok ds' \<and> header_of ds' = header_of ds \<and> ds_ctx ds' = ds_ctx ds \<and> last_commit ds' = last_commit ds"
proof -
  from try_get_solid_sub_dags_run [OF ok new once] obtain out missing cs' where
    run: "try_get_solid_sub_dags cs ds sds =
      Some (out, missing, cs', if out = [] then ds else update_pending_commit_votes ds (map sd_commit_ref out))"
    and cs': "solidifier_ok cs' ds" "last_solid_committed_index cs \<le> last_solid_committed_index cs'"
    and out: "map (\<lambda>sd. cr_index (sd_commit_ref sd)) out = [last_solid_committed_index cs + 1..<last_solid_committed_index cs' + 1]"
      "out = map (\<lambda>k. solid_sub_dag ds (the (buffered cs sds k))) [last_solid_committed_index cs + 1..<last_solid_committed_index cs' + 1]"
      "\<forall>k. last_solid_committed_index cs < k \<and> k \<le> last_solid_committed_index cs' \<longrightarrow> (\<exists>p. buffered cs sds k = Some p \<and> available ds p)"
    and rest: "\<forall>sd. buffered cs sds (last_solid_committed_index cs' + 1) = Some sd \<longrightarrow> \<not> available ds sd"
      "\<forall>k. bm_get (pending_subdags cs') k =
        (if last_solid_committed_index cs < k \<and> k \<le> last_solid_committed_index cs' then None else buffered cs sds k)"
    and missing: "set missing = {g. \<exists>sd \<in> set sds. last_solid_committed_index cs' < cr_index (sd_commit_ref sd) \<and>
        g \<in> set (psd_committed_transaction_refs sd) \<and> transactions_of ds g = None}"
    by (elim exE conjE) (rule that; assumption)
  let ?ds = "if out = [] then ds else update_pending_commit_votes ds (map sd_commit_ref out)"
  have "solidified cs ds sds out cs'"
    unfolding solidified_def Let_def using cs' out(1,3) rest solid_out [OF out] by auto
  moreover have "refs_ok ds missing" using new missing by (auto simp: refs_ok_def)
  then have "refs_ok ?ds missing" "dag_ok ?ds" "header_of ?ds = header_of ds" "ds_ctx ?ds = ds_ctx ds" "last_commit ?ds = last_commit ds"
    using ok(1) by (simp_all add: commit_votes_same commit_votes_rest)
  ultimately show ?thesis using run by blast
qed

lemma observer_ok_sent:
  assumes co: "observer_ok co ds" and solid: "solidified (co_solidifier co) ds sds out cs'"
    and indices: "map (\<lambda>sd. cr_index (sd_commit_ref sd)) sds = [last_commit_index ds + 1..<last_commit_index ds + 1 + n]"
    and ds': "lz_ok lz ds' \<and> acks_backed lz ds'" "ds_ctx ds' = ds_ctx ds" "last_commit_index ds' = last_commit_index ds + n"
  shows "observer_ok (co\<lparr> co_linearizer := lz, co_solidifier := cs', co_sent := sent,
      last_sent_commit_index := last_solid_committed_index cs' \<rparr>) ds'" (is "observer_ok ?co ds'")
    and "last_solid_committed_index cs' < last_commit_index ds' \<Longrightarrow>
      \<exists>p. bm_get (pending_subdags cs') (last_solid_committed_index cs' + 1) = Some p \<and> \<not> available ds p"
proof -
  let ?cs = "co_solidifier co" and ?j = "last_solid_committed_index cs'"
  have obs: "co_context co = ds_ctx ds" "\<not> co_closed co" "last_sent_commit_index co = last_solid_committed_index ?cs"
    "last_sent_commit_index co \<le> last_commit_index ds"
    "\<And>k. bm_get (pending_subdags ?cs) k \<noteq> None \<longleftrightarrow> last_sent_commit_index co < k \<and> k \<le> last_commit_index ds"
    using co by (simp_all add: observer_ok_def)
  have s: "solidifier_ok cs' ds" "last_solid_committed_index ?cs \<le> ?j"
    "\<And>k. last_solid_committed_index ?cs < k \<and> k \<le> ?j \<longrightarrow> buffered ?cs sds k \<noteq> None"
    "\<And>sd. buffered ?cs sds (?j + 1) = Some sd \<longrightarrow> \<not> available ds sd"
    "\<And>k. bm_get (pending_subdags cs') k = (if last_solid_committed_index ?cs < k \<and> k \<le> ?j then None else buffered ?cs sds k)"
    using solid unfolding solidified_def Let_def by blast+
  note held = buffered_range [OF obs(5,4) indices]
  have j: "?j \<le> last_commit_index ds + n"
    using s(3) [of ?j] held [of ?j] s(2) obs(3,4) by (cases "last_solid_committed_index ?cs = ?j") auto
  have pending: "bm_get (pending_subdags cs') k \<noteq> None \<longleftrightarrow> ?j < k \<and> k \<le> last_commit_index ds'" for k
    using s(5) [of k] held [of k] s(2) obs(3) unfolding ds'(3) by auto
  show "observer_ok ?co ds'"
    using obs(1,2) ds'(1,2) s(1) pending j unfolding observer_ok_def ds'(3) by (simp add: solidifier_ok_def refs_ok_def)
  show "\<exists>p. bm_get (pending_subdags cs') (?j + 1) = Some p \<and> \<not> available ds p" if "?j < last_commit_index ds'"
    using pending [of "?j + 1"] that s(2,4,5) by auto
qed

text \<open>C5: \<open>handle_committed_leaders\<close> turns decided leaders of increasing rounds into commits and sends to the consumer
  of the consensus output without a panic. What is sent continues the sequence of indices without a gap
  or a repetition, and every sub-dag comes with all its transactions. Sending stops only at the last
  commit or before a commit one of whose transactions is missing; that one and the later ones are held,
  and the observer and the DAG keep their invariants. This is under the rule that only transactions of
  traversed headers are committed, for stored transactions of committee members, and when the faulty
  authorities hold less than a third of the stake and no honest one acknowledges two headers of an author
  and round with the same transactions. Without fast commit sync the last condition always holds; with it,
  two such headers, which a faulty author can make, would be one reference of the solidifier, which
  panics on a repeated missing reference (\<open>commit_solidifier.rs\<close>, line 160).\<close>

theorem handle_committed_leaders_correct:
  assumes ok: "dag_ok ds" "dag_linear ds" "observer_ok co ds" "flags_ok (ds_ctx ds)"
    and leaders: "\<forall>l \<in> set leaders. leader_ok ds l" "sorted_wrt (<) (last_commit_round ds # map bh_round leaders)"
    and once: "consensus_commit_transactions_only_for_traversed_headers (ds_ctx ds)" "transactions_keyed ds"
    and honest: "stake_sum (ds_committee ds) (members (ds_committee ds) - honest) < validity_threshold (ds_committee ds)"
      "acknowledges_once ds honest"
  shows "\<exists>sds ackers co' ds' out. handle_committed_leaders digest_of ls co ds leaders = Some (co', ds', Inr (sds, ackers)) \<and>
    dag_ok ds' \<and> header_of ds' = header_of ds \<and> observer_ok co' ds' \<and> last_commit_index ds' = last_commit_index ds + length leaders \<and>
    map sd_leader sds = map reference leaders \<and> co_sent co' = co_sent co @ out \<and>
    map (\<lambda>sd. cr_index (sd_commit_ref sd)) out = [last_sent_commit_index co + 1..<last_sent_commit_index co' + 1] \<and>
    (\<forall>sd \<in> set out. \<exists>p. buffered (co_solidifier co) sds (cr_index (sd_commit_ref sd)) = Some p \<and> available ds p \<and> sd = solid_sub_dag ds p) \<and>
    (last_sent_commit_index co' < last_commit_index ds' \<longrightarrow>
       (\<exists>p. bm_get (pending_subdags (co_solidifier co')) (last_sent_commit_index co' + 1) = Some p \<and> \<not> available ds p))"
proof -
  let ?cs = "co_solidifier co"
  have obs: "co_context co = ds_ctx ds" "\<not> co_closed co" "lz_ok (co_linearizer co) ds" "solidifier_ok ?cs ds"
    "last_sent_commit_index co = last_solid_committed_index ?cs" "acks_backed (co_linearizer co) ds" using ok(3) by (simp_all add: observer_ok_def)
  from linearized_run [OF ok(1,2) obs(3) ok(4) leaders obs(6) once(1) honest, of digest_of ls] obtain sds commits lz ds1 where
    run: "get_pending_sub_dags digest_of ls (co_linearizer co) ds leaders = Some (sds, lz, ds1)" "commits_run ds leaders sds commits ds1"
    and ds1: "dag_ok ds1" "header_of ds1 = header_of ds" "ds_ctx ds1 = ds_ctx ds" "lz_ok lz ds1"
      "acks_backed lz ds1" "last_commit_index ds1 = last_commit_index ds + length leaders" "transactions_of ds1 = transactions_of ds"
    and refs: "\<forall>sd \<in> set sds. refs_ok ds (psd_committed_transaction_refs sd)" "distinct (concat (map psd_committed_transaction_refs sds))"
    by (elim exE conjE) (rule that; assumption)
  have same: "refs_ok ds1 = refs_ok ds" "available ds1 = available ds" "solid_sub_dag ds1 = solid_sub_dag ds"
      "solidifier_ok cs ds1 = solidifier_ok cs ds" for cs
    by (simp_all add: refs_ok_def available_def solid_sub_dag_def solidifier_ok_def ds1(3,7) fun_eq_iff)
  from solidified_run [OF ds1(1), of ?cs sds, unfolded same] obs(4) refs obtain out missing cs' ds2 where
    solid: "try_get_solid_sub_dags ?cs ds1 sds = Some (out, missing, cs', ds2)" "solidified ?cs ds1 sds out cs'" "refs_ok ds2 missing"
    and ds2: "dag_ok ds2" "header_of ds2 = header_of ds1" "ds_ctx ds2 = ds_ctx ds1" "last_commit ds2 = last_commit ds1" by auto
  from ack_authors_run [OF ds2(1) solid(3)] obtain ackers where ackers: "get_transaction_ack_authors lz ds2 missing = Some ackers" by blast
  have solid': "solidified ?cs ds sds out cs'" using solid(2) by (simp add: solidified_def same)
  let ?i = "last_solid_committed_index ?cs" and ?j = "last_solid_committed_index cs'"
  have out: "map (\<lambda>sd. cr_index (sd_commit_ref sd)) out = [?i + 1..<?j + 1]" "?i \<le> ?j"
    and each: "\<And>sd. sd \<in> set out \<Longrightarrow>
      \<exists>p. buffered ?cs sds (cr_index (sd_commit_ref sd)) = Some p \<and> available ds p \<and> sd = solid_sub_dag ds p"
    using solid' unfolding solidified_def Let_def by blast+
  have len: "length out = ?j - ?i" using arg_cong [OF out(1), of length] by (simp del: upt_Suc)
  then have range: "[last_sent_commit_index co + 1..<last_sent_commit_index co + 1 + length out] = [?i + 1..<?j + 1]"
    using obs(5) out(2) by simp
  let ?co = "co\<lparr> co_linearizer := lz, co_solidifier := cs' \<rparr>"
  have authors: "\<forall>sd \<in> set out. \<forall>t \<in> set (csd_transactions sd). tr_author (vt_transaction_ref t) \<in> members (ds_committee ds2)"
    using each buffered_ok [OF obs(4) refs(1)] solid_authors [OF once(2)] ds1(3) ds2(3) by metis
  have "lz_ok lz ds2" "acks_backed lz ds2" using ds1(4,5) ds2(2,3) by (simp_all add: lz_ok_def acks_backed_same [OF ds2(2)])
  with finalize_run [of ds2 ?co out] ds1(2,3) ds2 obs(1,2) authors out(1) range obtain lz3 ds3 where
    fin: "finalize_and_send_solid_subdags ?co ds2 out = Some (?co\<lparr> co_linearizer := lz3, co_sent := co_sent co @ out,
        last_sent_commit_index := last_sent_commit_index co + length out \<rparr>, ds3, Inr ())" "lz_ok lz3 ds3 \<and> acks_backed lz3 ds3"
      "dag_ok ds3" "header_of ds3 = header_of ds" "ds_ctx ds3 = ds_ctx ds" "last_commit ds3 = last_commit ds1"
    by (simp del: upt_Suc) blast
  let ?co' = "co\<lparr> co_linearizer := lz3, co_solidifier := cs', co_sent := co_sent co @ out, last_sent_commit_index := ?j \<rparr>"
  have handle: "handle_committed_leaders digest_of ls co ds leaders = Some (?co', ds3, Inr (sds, ackers))"
    using run(1) solid(1) ackers fin(1) len out(2) obs(5) by (simp add: handle_committed_leaders_def)
  have idx: "last_commit_index ds3 = last_commit_index ds + length leaders" using fin(6) ds1(6) by (simp add: last_commit_index_def)
  have "map sd_leader sds = map reference leaders" using run(2) unfolding commits_run_def by blast
  then show ?thesis
    using handle fin(3,4) idx out(1) each obs(5) observer_ok_sent [OF ok(3) solid' commits_run_indices [OF run(2)] fin(2,5) idx]
    by (intro exI [of _ sds] exI [of _ ackers] exI [of _ ?co'] exI [of _ ds3] exI [of _ out]) (simp del: upt_Suc)
qed

subsection \<open>A run on the synchronous DAG\<close>

lemma notify_header_transactions:
  assumes "notify_header ds h source = Some ds'"
  shows "ds_genesis ds' = ds_genesis ds \<and> recent_transactions_by_authority ds' = recent_transactions_by_authority ds \<and> ds_store ds' = ds_store ds"
  using assms unfolding notify_header_def Let_def
  by (cases "ds_cordial ds"; cases "source \<noteq> CommitSyncer \<and> source \<noteq> Recover"; cases "acknowledgments h") auto

lemma accept_block_header_transactions:
  assumes "accept_block_header ds h source = Some ds'"
  shows "ds_genesis ds' = ds_genesis ds \<and> recent_transactions_by_authority ds' = recent_transactions_by_authority ds \<and> ds_store ds' = ds_store ds"
  using assms by (auto simp: accept_block_header_def update_block_header_metadata_def Let_def Option.bind_eq_Some_conv
      dest!: notify_header_transactions split: if_splits)

lemma accept_block_headers_transactions:
  "accept_block_headers ds hs source = Some ds' \<Longrightarrow>
    ds_genesis ds' = ds_genesis ds \<and> recent_transactions_by_authority ds' = recent_transactions_by_authority ds \<and> ds_store ds' = ds_store ds"
proof (induction hs arbitrary: ds)
  case (Cons h hs)
  then show ?case by (auto simp: accept_block_headers_def Option.bind_eq_Some_conv dest: accept_block_header_transactions)
qed (simp add: accept_block_headers_def)

lemma fold_bm_insert_values:
  "(k, b) \<in> set (fold (\<lambda>b m. bm_insert (key b) b m) bs m) \<Longrightarrow> b \<in> set bs \<or> b \<in> snd ` set m"
proof (induction bs arbitrary: m)
  case (Cons c bs)
  from Cons.IH [of "bm_insert (key c) c m"] Cons.prems show ?case using set_bm_insert_subset [of "key c" c m] by force
qed force

lemma sync_genesis_transactions:
  assumes "0 < n" "n < 255" "b \<in> set (genesis_blocks sync_digest (sync_context n))"
  shows "tr_author (vt_transaction_ref (vb_transactions b)) < n"
  using assms(3) unfolding sync_genesis [OF assms(1,2)] by (auto simp: header_transaction_ref_def)

lemma sync_state_transactions:
  assumes "sync_state n R = Some ds" "0 < n" "n < 255" "ds_ctx ds = sync_context n"
  shows "transactions_keyed ds"
proof -
  from dag_state_new_empty [OF sync_context_ok [OF assms(2,3)], of sync_digest] obtain ds0 where
    ds0: "dag_state_new sync_digest (sync_context n) mem_store_new = Some ds0"
      "ds0 = initial_state sync_digest (sync_context n) mem_store_new None
         (replicate (size_of (ctx_committee (sync_context n))) 0) scoring_subdag_new" by blast
  have "accept_block_headers ds0 (sync_headers n R) BlockBundleStream = Some ds" using assms(1) ds0(1) by (simp add: sync_state_def)
  from accept_block_headers_transactions [OF this] have
    ds: "ds_genesis ds = fold (\<lambda>b m. bm_insert (reference (vb_header b)) b m) (genesis_blocks sync_digest (sync_context n)) []"
      "recent_transactions_by_authority ds = replicate (size_of (ctx_committee (sync_context n))) []" "ds_store ds = mem_store_new"
    by (simp_all add: ds0(2) initial_state_def Let_def)
  have genesis: "tr_author (vt_transaction_ref (vb_transactions b)) < n" if "get_genesis_block ds g = Some b" for g b
  proof -
    have "\<exists>k. (k, b) \<in> set (ds_genesis ds)" using that
      by (cases g) (auto simp: find_genesis_by_transaction_ref_def bm_range_incl_def filter_eq_Cons_iff dest: bm_get_in_set split: list.splits)
    then obtain k where "(k, b) \<in> set (ds_genesis ds)" by blast
    then have "b \<in> set (genesis_blocks sync_digest (sync_context n))"
      using fold_bm_insert_values [of k b "\<lambda>b. reference (vb_header b)"] unfolding ds(1) by force
    then show ?thesis using sync_genesis_transactions [OF assms(2,3)] by blast
  qed
  have empty: "stored_transactions mem_store_new g = None" for g by (cases g) (simp_all add: mem_store_new_def)
  have "tr_author (vt_transaction_ref t) < n" if "gtr_author g \<in> members (ds_committee ds)" "transactions_of ds g = Some t" for g t
    using that genesis [of g] empty by (auto simp: transactions_of_def ds(2,3) members_def assms(4) split: if_splits)
  then show ?thesis by (auto simp: transactions_keyed_def members_def assms(4) sync_context_def example_context_def size_of_def example_committee_def)
qed

lemma sync_acknowledges_once:
  assumes "header_of ds = sync_dag n there"
  shows "acknowledges_once ds honest"
proof -
  have "r = r'" if "header_of ds r \<noteq> None" "header_of ds r' \<noteq> None" "tx_key ds r = tx_key ds r'" for r r'
    using that unfolding assms by (auto simp: sync_dag_Some tx_key_def split: if_splits)
  then show ?thesis unfolding acknowledges_once_def by blast
qed

theorem handle_committed_leaders_witness:
  "\<exists>ds sds ackers co' ds'. sync_state 4 3 = Some ds \<and> consensus_fast_commit_sync (ds_ctx ds) \<and> acked_by ds 1 (sync_ref 2 2) \<and>
    handle_committed_leaders (\<lambda>_. 5) (example_schedule (example_committee 4) [1, 2, 3, 4])
      \<lparr> co_context = sync_context 4, co_linearizer = linearizer_new (sync_context 4), co_solidifier = commit_solidifier_new, co_sent = [],
        co_closed = False, last_sent_commit_index = 0 \<rparr> ds [sync_header 4 1 1, sync_header 4 2 2, sync_header 4 3 3] =
      Some (co', ds', Inr (sds, ackers)) \<and>
    last_commit_index ds' = 3 \<and> map (\<lambda>sd. cr_index (sd_commit_ref sd)) (co_sent co') = [1..<last_sent_commit_index co' + 1]"
proof -
  from sync_state_run [of 4 3] obtain ds where ds: "sync_state 4 3 = Some ds" "dag_ok ds" "ds_ctx ds = sync_context 4"
    "header_of ds = sync_dag 4 (up_to 3)" "last_commit ds = None" by (auto simp: u32_max_def)
  let ?co = "\<lparr> co_context = sync_context 4, co_linearizer = linearizer_new (sync_context 4), co_solidifier = commit_solidifier_new, co_sent = [],
        co_closed = False, last_sent_commit_index = 0 \<rparr>"
  have idx: "last_commit_index ds = 0" using ds(5) by (simp add: last_commit_index_def)
  have "lz_ok (linearizer_new (sync_context 4)) ds"
    using dag_ok_committee [OF ds(2)] ds(3) by (simp add: lz_ok_def linearizer_new_def acks_ok_def)
  moreover have "acks_backed (linearizer_new (sync_context 4)) ds" by (simp add: acks_backed_def linearizer_new_def)
  ultimately have co: "observer_ok ?co ds" by (auto simp: observer_ok_def ds(3) solidifier_ok_def commit_solidifier_new_def idx)
  have flags: "flags_ok (ds_ctx ds)" "consensus_commit_transactions_only_for_traversed_headers (ds_ctx ds)"
    by (simp_all add: ds(3) flags_ok_def sync_context_def example_context_def)
  let ?ls = "[sync_header 4 1 1, sync_header 4 2 2, sync_header 4 3 3]"
  have c: "ds_committee ds = example_committee 4" by (simp add: ds(3) sync_context_def example_context_def)
  have stake: "stake_sum (ds_committee ds) (members (ds_committee ds) - {..<4}) < validity_threshold (ds_committee ds)"
    using validity_positive [OF example_committee_ok [of 4]] unfolding c by (simp add: stake_sum_def)
  have leaders: "\<forall>l \<in> set ?ls. leader_ok ds l" using sync_linear(2) [OF ds(3,4)] by simp
  have "sorted_wrt (<) (last_commit_round ds # map bh_round ?ls)"
    by (simp add: last_commit_round_def ds(5))
  from handle_committed_leaders_correct [OF ds(2) sync_linear(1) [OF ds(3,4)] co flags(1) leaders this flags(2)
      sync_state_transactions [OF ds(1) _ _ ds(3)] stake sync_acknowledges_once [OF ds(4)], of "\<lambda>_. 5" "example_schedule (example_committee 4) [1, 2, 3, 4]"]
  obtain sds ackers co' ds' out where
    "handle_committed_leaders (\<lambda>_. 5) (example_schedule (example_committee 4) [1, 2, 3, 4]) ?co ds ?ls =
      Some (co', ds', Inr (sds, ackers))" "last_commit_index ds' = 3" "co_sent co' = out"
    "map (\<lambda>sd. cr_index (sd_commit_ref sd)) out = [1..<last_sent_commit_index co' + 1]" unfolding idx by (auto simp del: upt_Suc)
  moreover have "acked_by ds 1 (sync_ref 2 2)"
    unfolding acked_by_def ds(4) by (intro exI [of _ "sync_header 4 3 1"]) (auto simp: sync_dag_def up_to_def own_first_facts)
  ultimately show ?thesis using ds(1,3) by (auto simp: sync_context_def)
qed

end
