(* ===== verification/Spec2Isabelle.thy ===== *)
theory Spec2Isabelle
  imports Threshold_Clock Verified_Headers Transaction_Consumer Acknowledgments Commit_Observer
begin

text \<open>
  A verification of the core of the Starfish consensus of IOTA (\<open>src/crates/starfish\<close>): the
  data structures of a validator (committee, headers, commits, store, DAG state), the leader
  scoring and the commit rule that turns a DAG of block headers into a sequence of decided
  leaders.

  \<^bold>\<open>The program.\<close> Every round each authority of the \<open>Committee\<close> proposes a block whose header
  references headers of earlier rounds. A header from a peer passes the \<open>SignedBlockVerifier\<close> and
  then the \<open>BlockManager\<close>, which suspends it until all its ancestors are known. A validator keeps the headers it has accepted in its
  \<open>DagState\<close>: recent ones in memory, all in the \<open>Store\<close>, written by \<open>flush\<close>. A
  \<open>ThresholdClock\<close> tells the round it may propose in. For every round the leader schedule
  names a leader; the \<open>BaseCommitter\<close> decides a leader slot directly (a quorum of votes or
  of blames two rounds or one round later) or indirectly (from the history of a later committed
  leader, the anchor); the \<open>UniversalCommitter\<close> runs three of them, one per round modulo the
  wave length, and returns the longest decided prefix. The \<open>Linearizer\<close> expands each committed
  leader into the sub-dag of headers not committed before and a commit, recorded by \<open>add_commit\<close>.
  The \<open>CommitSolidifier\<close> holds the sub-dags until their transactions have arrived, and the
  \<open>CommitObserver\<close> sends them on in order. The \<open>TransactionConsumer\<close> fills the own blocks with submitted
  transactions. The sub-dags also feed the reputation scores (\<open>ScoringSubdag\<close>), from which the \<open>LeaderSchedule\<close> is
  renewed.

  \<^bold>\<open>The theories.\<close>
  \<^item> \<open>Prelude\<close>: types, machine integers (\<open>wrap_u8\<close>, \<open>wrap_u64\<close>, \<open>sat_add_u32\<close>), vectors with
    panicking access, the option-monad versions of map, filter and fold. A panic, failed
    assertion or failed \<open>expect\<close> is the value \<open>None\<close>; expected errors are \<open>Inl\<close>.
  \<^item> \<open>BTree\<close>: \<open>BTreeMap\<close> and \<open>BTreeSet\<close> of the standard library as strictly sorted lists, with
    the locales \<open>ordered_map\<close> and \<open>ordered_set\<close> as their contracts.
  \<^item> \<open>Committee\<close> (\<open>config/src/committee.rs\<close>), with the locale \<open>quorum_system\<close>;
    \<open>Stake_Aggregator\<close> (\<open>stake_aggregator.rs\<close>), with the locale \<open>committee_threshold\<close> for the
    trait; \<open>Context\<close> (\<open>context.rs\<close>); \<open>Block_Header\<close> (\<open>block_header.rs\<close>, \<open>transaction_ref.rs\<close>);
    \<open>Threshold_Clock\<close> (\<open>threshold_clock.rs\<close>); \<open>Commit\<close> (\<open>commit.rs\<close>); \<open>Mem_Store\<close>
    (\<open>storage/mod.rs\<close>, \<open>storage/mem_store.rs\<close>); \<open>Leader_Scoring\<close> (\<open>leader_scoring.rs\<close>).
  \<^item> \<open>Dag_State\<close> and \<open>Dag_State_Commits\<close> (\<open>dag_state.rs\<close>): the struct as a record, one
    definition per method, the invariant \<open>dag_ok\<close> and the lookup \<open>header_of\<close> as the abstract
    content; accepting headers, recording commits and flushing keep the invariant and refine
    the lookup. \<open>Dag_Traversal\<close>: what slot, round and history reads return.
    \<open>Acknowledgments\<close>: what a validator acknowledges over a run of the DAG state.
  \<^item> \<open>Base_Committer\<close> (\<open>base_committer.rs\<close>) and \<open>Universal_Committer\<close>
    (\<open>universal_committer.rs\<close>): the decision procedures. \<open>Commit_Rule\<close>: votes and certificates
    on a DAG with honest non-equivocating authorities (\<open>bft_dag\<close>). \<open>Commit_Views\<close>: what the
    procedures compute on a validator's causally complete view (\<open>view_ok\<close>). \<open>Commit_Safety\<close>:
    the runs of \<open>try_decide\<close> agree. \<open>Commit_Liveness\<close>: certified leaders are committed.
  \<^item> \<open>Leader_Schedule\<close> (\<open>leader_schedule.rs\<close>): the election of leaders by stake, the table that
    swaps badly scored authorities for well scored ones, and its renewal from the scores.
  \<^item> \<open>Linearizer\<close> and \<open>Linearizer_Commits\<close> (\<open>linearizer.rs\<close>): the sub-dag of a leader, the commit
    timestamp, the counting of acknowledgments and the chain of commits they end up in.
  \<^item> \<open>Consensus_Error\<close> (\<open>error.rs\<close>) and \<open>Block_Verifier\<close> (\<open>block_verifier.rs\<close>): the checks of a header
    from a peer, and that the headers that pass them form a DAG the safety theorems apply to.
  \<^item> \<open>Block_Suspender\<close> and \<open>Block_Manager\<close> (\<open>block_manager/\<close>): suspending headers with missing
    ancestors and releasing them, and the writes to the DAG state; the invariant \<open>manager_ok\<close>.
    \<open>Verified_Headers\<close>: the verifier in front of the block manager, and the panic on a header that passes
    the verifier with unreadable acknowledgments.
  \<^item> \<open>Commit_Solidifier\<close> (\<open>commit_solidifier.rs\<close>) and \<open>Commit_Observer\<close> (\<open>commit_observer.rs\<close>): the way of decided
    leaders to the consumer of the output, with its recovery; the invariant \<open>observer_ok\<close>.
  \<^item> \<open>Transaction_Consumer\<close> (\<open>transaction.rs\<close>): submitted bundles, their way into a block and the
    notification of the submitters.
  \<^item> \<open>Synchronous_Dag\<close>: a concrete execution in which every hypothesis of these theorems holds.

  \<^bold>\<open>Correspondence.\<close> Structs are records with the fields of the code, enums datatypes; a method
  that changes \<open>self\<close> returns the new state. Rounds, indices and timestamps are \<open>nat\<close>; where the
  code wraps, saturates or truncates it is written out; digests and commitments are 256-bit
  words. Hash functions are parameters (\<open>digest_of\<close>), signatures and the application's
  transaction verifier the record \<open>crypto_api\<close>, the iteration order of a \<open>HashSet\<close> is the
  parameter \<open>hash_order\<close>, the random choices of the \<open>rand\<close> crate are the record \<open>random_source\<close> with
  the documented behaviour \<open>random_ok\<close>, the leader schedule is the argument \<open>elect\<close> of the committers.

  \<^bold>\<open>Side conditions.\<close> The headers of the DAG have readable acknowledgments (\<open>dag_linear\<close>, \<open>acceptable\<close>): the
  block verifier does not check this, and code that reads them panics otherwise. Under fast commit sync
  two headers of an author and round with the same transactions are one reference for the
  solidifier; that both get a quorum of acknowledgments is excluded by honest authorities acknowledging only
  one (\<open>acknowledges_once\<close>, \<open>acknowledged_once\<close>). Faulty authorities hold less than a third of the stake
  and honest ones do not equivocate. Rounds stay below \<open>u32::MAX\<close>.

  \<^bold>\<open>Bounds and fuel.\<close> The only fuel is that of \<open>find_supported_block\<close>: the round of the block
  plus one, enough on every causally complete DAG (\<open>find_supported_block_terminates\<close>). The loops
  of \<open>ancestors_at_round\<close> and \<open>linearize_sub_dag\<close> are partial functions shown to terminate;
  the loop that releases suspended headers is a function whose measure is the number of suspended
  headers plus the length of its stack. The
  wave length is 3 and there is one leader per round, as in the code.

  \<^bold>\<open>Not modelled.\<close> Serialisation, signatures, Merkle trees and erasure coding; RocksDB itself;
  metrics and logging; the asynchronous tasks, network and timers around these structures.
\<close>

section \<open>Safety and liveness of the commit rule\<close>

abbreviation round_robin :: "nat \<Rightarrow> round \<Rightarrow> nat \<Rightarrow> authority_index" where
  "round_robin n \<equiv> \<lambda>r off. (r + off) mod n"

text \<open>
  C1: agreement. Take any DAG in which honest authorities, with more than two thirds of the
  stake, do not equivocate, and two validators whose states hold causally complete parts of
  it. If both call \<open>try_decide\<close> with the same leader schedule and the same last decided slot
  (not below their last commit), neither panics, and one of the two sequences of decided
  leaders is a prefix of the other.
\<close>

theorem decided_sequences_agree:
  assumes "view_ok c honest G ds1" "view_ok c honest G ds2" "\<forall>r. elect r 0 \<in> members c"
    and "last_commit_round ds1 \<le> slot_round last_decided" "last_commit_round ds2 \<le> slot_round last_decided"
  shows "\<exists>res1 res2. try_decide ds1 elect default_committers last_decided = Some res1 \<and>
    try_decide ds2 elect default_committers last_decided = Some res2 \<and> (prefix res1 res2 \<or> prefix res2 res1)"
proof -
  let ?lo = "slot_round last_decided + 1" and ?leader = "\<lambda>r. Slot r (elect r 0)"
  from try_decide_run [where elect = elect, OF assms(1,4)] assms(3) obtain s1 hi1 where
    s1: "try_decide ds1 elect default_committers last_decided = Some (decided_of (map s1 [?lo..<hi1]))"
      "sound_run c G ?leader ?lo hi1 s1" by blast
  from try_decide_run [where elect = elect, OF assms(2,5)] assms(3) obtain s2 hi2 where
    s2: "try_decide ds2 elect default_committers last_decided = Some (decided_of (map s2 [?lo..<hi2]))"
      "sound_run c G ?leader ?lo hi2 s2" by blast
  have "prefix (decided_of (map s1 [?lo..<hi1])) (decided_of (map s2 [?lo..<hi2])) \<or>
      prefix (decided_of (map s2 [?lo..<hi2])) (decided_of (map s1 [?lo..<hi1]))"
    using runs_agree [OF view_bft [OF assms(1)] s1(2) s2(2)] by (intro decided_of_prefix) simp
  with s1(1) s2(1) show ?thesis by blast
qed

theorem decided_sequences_agree_witness:
  "\<exists>ds1 ds2 res1 res2. sync_state 4 4 = Some ds1 \<and> sync_state 4 6 = Some ds2 \<and>
    try_decide ds1 (round_robin 4) default_committers (Slot 0 0) = Some res1 \<and>
    try_decide ds2 (round_robin 4) default_committers (Slot 0 0) = Some res2 \<and> (prefix res1 res2 \<or> prefix res2 res1)"
proof -
  from sync_state_view [of 4 6 4] obtain ds1 where ds1: "sync_state 4 4 = Some ds1" "last_commit ds1 = None"
    "view_ok (example_committee 4) {..<4} (sync_dag 4 (up_to 6)) ds1" by (auto simp: u32_max_def)
  from sync_state_view [of 4 6 6] obtain ds2 where ds2: "sync_state 4 6 = Some ds2" "last_commit ds2 = None"
    "view_ok (example_committee 4) {..<4} (sync_dag 4 (up_to 6)) ds2" by (auto simp: u32_max_def)
  have "\<exists>res1 res2. try_decide ds1 (round_robin 4) default_committers (Slot 0 0) = Some res1 \<and>
    try_decide ds2 (round_robin 4) default_committers (Slot 0 0) = Some res2 \<and> (prefix res1 res2 \<or> prefix res2 res1)"
    by (rule decided_sequences_agree [OF ds1(3) ds2(3)]) (simp_all add: ds1(2) ds2(2) last_commit_round_def)
  with ds1(1) ds2(1) show ?thesis by blast
qed

text \<open>
  C3: liveness of the decision procedure. If every leader above the last decided slot, up to
  two rounds below the highest accepted round, has a block in the view with a quorum of
  certificates in the view, then \<open>try_decide\<close> commits all of these leaders, in the order of
  their rounds.
\<close>

theorem certified_leaders_committed:
  assumes "view_ok c honest G ds" "last_commit_round ds \<le> slot_round last_decided" "\<forall>r. elect r 0 \<in> members c"
    and "\<forall>r. slot_round last_decided < r \<and> r + 2 \<le> highest_accepted_round ds \<longrightarrow>
      header_of ds (reference (b r)) = Some (b r) \<and> header_slot (b r) = Slot r (elect r 0) \<and>
      reached_quorum c (stake_sum c (bh_author ` view_certificates ds (b r))) \<and> round_fits ds (r + 2)"
  shows "try_decide ds elect default_committers last_decided =
    Some (map (\<lambda>r. DCommit (b r)) [slot_round last_decided + 1..<highest_accepted_round ds - 1])"
  by (rule try_decide_commits [OF assms(1,2)]) (use assms(3,4) in blast)+

theorem certified_leaders_committed_witness:
  "\<exists>ds. sync_state 4 5 = Some ds \<and> try_decide ds (round_robin 4) default_committers (Slot 0 0) =
    Some (map (\<lambda>r. DCommit (sync_header 4 r (r mod 4))) [1..<4])"
proof -
  from sync_state_run [of 4 5] obtain ds where ds: "sync_state 4 5 = Some ds" "dag_ok ds" "ds_ctx ds = sync_context 4"
    "last_commit ds = None" "highest_accepted_round ds = 5" "header_of ds = sync_dag 4 (up_to 5)" by (auto simp: u32_max_def)
  have "view_ok (example_committee 4) {..<4} (sync_dag 4 (up_to 5)) ds"
    using ds sync_state_view [of 4 5 5] by (auto simp: u32_max_def)
  then have "try_decide ds (round_robin 4) default_committers (Slot 0 0) =
    Some (map (\<lambda>r. DCommit (sync_header 4 r (r mod 4))) [slot_round (Slot 0 0) + 1..<highest_accepted_round ds - 1])"
  proof (rule certified_leaders_committed)
    show "\<forall>r. slot_round (Slot 0 0) < r \<and> r + 2 \<le> highest_accepted_round ds \<longrightarrow>
      header_of ds (reference (sync_header 4 r (r mod 4))) = Some (sync_header 4 r (r mod 4)) \<and>
      header_slot (sync_header 4 r (r mod 4)) = Slot r (round_robin 4 r 0) \<and>
      reached_quorum (example_committee 4) (stake_sum (example_committee 4)
        (bh_author ` view_certificates ds (sync_header 4 r (r mod 4)))) \<and> round_fits ds (r + 2)"
      using ds(5,6) sync_certified [of 4 _ 5, OF _ _ _ _ ds(6,3)] sync_round_fits [OF _ _ ds(2,6,3,4)]
      by (auto simp: sync_dag_def up_to_def header_slot_def)
  qed (simp_all add: ds(4) last_commit_round_def)
  then have "try_decide ds (round_robin 4) default_committers (Slot 0 0) =
    Some (map (\<lambda>r. DCommit (sync_header 4 r (r mod 4))) [1..<4])"
    by (simp add: ds(5))
  with ds(1) show ?thesis by blast
qed

text \<open>
  C18: the sequence returned by \<open>try_decide\<close> is gap-free: its \<open>i\<close>-th element is the decision for
  the leader slot of round \<open>last_decided.round + 1 + i\<close> under the leader schedule.
\<close>

theorem decided_sequence_gap_free:
  assumes "view_ok c honest G ds" "last_commit_round ds \<le> slot_round last_decided" "\<forall>r. elect r 0 \<in> members c"
  shows "\<exists>res. try_decide ds elect default_committers last_decided = Some res \<and>
    map decided_slot res = map (\<lambda>r. Slot r (elect r 0)) [slot_round last_decided + 1..<slot_round last_decided + 1 + length res]"
proof -
  from try_decide_run [where elect = elect, OF assms(1,2)] assms(3) obtain s hi where
    s: "try_decide ds elect default_committers last_decided = Some (decided_of (map s [slot_round last_decided + 1..<hi]))"
      "sound_run c G (\<lambda>r. Slot r (elect r 0)) (slot_round last_decided + 1) hi s" by blast
  have "map decided_slot (decided_of (map s [k..<hi])) = map (\<lambda>r. Slot r (elect r 0)) [k..<k + length (decided_of (map s [k..<hi]))]"
    if "slot_round last_decided + 1 \<le> k" for k
    using that
  proof (induction "hi - k" arbitrary: k)
    case (Suc m)
    then have k: "[k..<hi] = k # [Suc k..<hi]" "k < hi" by (simp_all add: upt_rec)
    have IH: "map decided_slot (decided_of (map s [Suc k..<hi])) =
        map (\<lambda>r. Slot r (elect r 0)) [Suc k..<Suc k + length (decided_of (map s [Suc k..<hi]))]"
      using Suc by simp
    show ?case
    proof (cases "into_decided_leader (s k)")
      case (Some d)
      then have dec: "is_decided (s k)" by (cases "s k") auto
      have "decided_slot d = Slot k (elect k 0)"
        using decided_shape [OF sound_runD(2) [OF s(2) Suc.prems k(2)] dec] sound_runD(3) [OF s(2) Suc.prems k(2)] Some
        by (auto simp: slot_of_def)
      then show ?thesis using IH Some by (simp add: k(1) upt_conv_Cons del: upt_Suc)
    qed (simp add: k(1))
  qed simp
  with s(1) show ?thesis by blast
qed

theorem decided_sequence_gap_free_witness:
  "\<exists>ds res. sync_state 4 5 = Some ds \<and> try_decide ds (round_robin 4) default_committers (Slot 0 0) = Some res \<and>
    map decided_slot res = map (\<lambda>r. Slot r (round_robin 4 r 0)) [slot_round (Slot 0 0) + 1..<slot_round (Slot 0 0) + 1 + length res]"
proof -
  from sync_state_view [of 4 5 5] obtain ds where ds: "sync_state 4 5 = Some ds" "last_commit ds = None"
    "view_ok (example_committee 4) {..<4} (sync_dag 4 (up_to 5)) ds" by (auto simp: u32_max_def)
  have "\<exists>res. try_decide ds (round_robin 4) default_committers (Slot 0 0) = Some res \<and>
    map decided_slot res = map (\<lambda>r. Slot r (round_robin 4 r 0)) [slot_round (Slot 0 0) + 1..<slot_round (Slot 0 0) + 1 + length res]"
    by (rule decided_sequence_gap_free [OF ds(3)]) (simp_all add: ds(2) last_commit_round_def)
  with ds(1) show ?thesis by blast
qed

text \<open>
  C2: a direct commit binds every later anchor. If one validator commits a leader block by the
  direct rule, then every other validator that decides the same slot indirectly, from any
  anchor block at least three rounds later in its view, commits the same block: it does not
  panic, does not skip and does not choose an equivocation.
\<close>

theorem direct_commit_binds_anchors:
  assumes "view_ok c honest G ds1" "view_ok c honest G ds2"
    and "is_leader_round opts (slot_round sl)" "last_commit_round ds1 < slot_round sl" "last_commit_round ds2 < slot_round sl"
    and direct: "try_direct_decide ds1 opts sl = Some (Commit b)"
    and anchor: "header_of ds2 (reference a) = Some a" "slot_round sl + 3 \<le> bh_round a"
  shows "decide_leader_from_anchor ds2 opts a sl = Some (Commit b)"
proof -
  from try_direct_decide_view [OF assms(1) _ assms(3)] assms(4) direct have
    b: "header_of ds1 (reference b) = Some b" "slot_of (reference b) = sl" "directly_certified c G (reference b)" by auto
  from decide_leader_from_anchor_view [OF assms(2) anchor assms(5,3)] obtain st where
    st: "decide_leader_from_anchor ds2 opts a sl = Some st" "anchor_decision c G (reference a) sl st" by blast
  have "bh_round b = slot_round sl" using b(2) by (auto simp: slot_of_def)
  then have "st = Commit b"
    using direct_commit_anchor [OF view_bft [OF assms(1)] b(3) view_le [OF assms(1) b(1)] b(2) _ _ st(2)]
      view_le [OF assms(2) anchor(1)] anchor(2) by simp
  with st(1) show ?thesis by simp
qed

theorem direct_commit_binds_anchors_witness:
  "\<exists>ds1 ds2. sync_state 4 3 = Some ds1 \<and> sync_state 4 4 = Some ds2 \<and>
    decide_leader_from_anchor ds2 (round_committer 1) (sync_header 4 4 0) (Slot 1 1) = Some (Commit (sync_header 4 1 1))"
proof -
  from sync_state_run [of 4 3] obtain ds1 where ds1: "sync_state 4 3 = Some ds1" "dag_ok ds1" "ds_ctx ds1 = sync_context 4"
    "last_commit ds1 = None" "header_of ds1 = sync_dag 4 (up_to 3)" by (auto simp: u32_max_def)
  have v1: "view_ok (example_committee 4) {..<4} (sync_dag 4 (up_to 4)) ds1"
    using ds1 sync_state_view [of 4 4 3] by (auto simp: u32_max_def)
  from sync_state_view [of 4 4 4] sync_state_run [of 4 4] obtain ds2 where ds2: "sync_state 4 4 = Some ds2" "last_commit ds2 = None"
    "view_ok (example_committee 4) {..<4} (sync_dag 4 (up_to 4)) ds2" "header_of ds2 = sync_dag 4 (up_to 4)"
    by (auto simp: u32_max_def)
  have "try_direct_decide ds1 (round_committer 1) (Slot 1 1) = Some (Commit (sync_header 4 1 1))"
    by (rule direct_commit_complete [OF v1])
      (use ds1 sync_certified [of 4 1 3 1, OF _ _ _ _ ds1(5,3)] in
        \<open>simp_all add: sync_round_fits [OF _ _ ds1(2,5,3,4)] last_commit_round_def leader_round_mod sync_dag_def up_to_def header_slot_def\<close>)
  then have "decide_leader_from_anchor ds2 (round_committer 1) (sync_header 4 4 0) (Slot 1 1) = Some (Commit (sync_header 4 1 1))"
    by (intro direct_commit_binds_anchors [OF v1 ds2(3)])
      (simp_all add: ds1(4) ds2(2,4) last_commit_round_def leader_round_mod sync_dag_def up_to_def)
  with ds1(1) ds2(1) show ?thesis by blast
qed

end
